(* ===== verification/Xv6_Prelude.thy ===== *)
theory Xv6_Prelude
  imports Main "HOL-Library.Word"
begin

section \<open>Shared vocabulary of the kernel model\<close>

text \<open>
  Types, the outcome type of kernel code, and the generic lemmas that the component
  theories share.

  Kernel code is modelled as functions from a state to an outcome:
  \<^item> \<open>Ret x s\<close>: the function returns \<open>x\<close> and leaves the state \<open>s\<close>;
  \<^item> \<open>Sleeps s\<close>: the calling process went to sleep in \<open>s\<close> before returning;
  \<^item> \<open>Panic m\<close>: the kernel called \<open>panic(m)\<close> and the machine stops;
  \<^item> \<open>Diverge\<close>: a loop of the function never ends.
\<close>

unbundle bit_operations_syntax

type_synonym u8 = "8 word"
type_synonym u16 = "16 word"
type_synonym u32 = "32 word"

datatype ('a, 's) res = Ret 'a 's | Sleeps 's | Panic string | Diverge

named_theorems layout_simps "arithmetic reading of the address macros"
named_theorems mm_frame "fields of the memory state that an operation leaves alone"
named_theorems step_defs "definitions unfolded by the step-by-step proofs"

subsection \<open>Sequencing\<close>

definition bindr :: "('a, 's) res \<Rightarrow> ('a \<Rightarrow> 's \<Rightarrow> ('b, 's) res) \<Rightarrow> ('b, 's) res" where
  "bindr r f = (case r of Ret x s \<Rightarrow> f x s | Sleeps s \<Rightarrow> Sleeps s
     | Panic m \<Rightarrow> Panic m | Diverge \<Rightarrow> Diverge)"

lemma bindr_simps [simp]:
  "bindr (Ret x s) f = f x s"
  "bindr (Sleeps s) f = Sleeps s"
  "bindr (Panic m) f = Panic m"
  "bindr Diverge f = Diverge"
  by (simp_all add: bindr_def)

lemma bindr_eq_Ret [simp]:
  "bindr r f = Ret y t \<longleftrightarrow> (\<exists>x s. r = Ret x s \<and> f x s = Ret y t)"
  by (cases r) auto

lemma bindr_RetE:
  assumes "bindr r f = Ret y t"
  obtains x s where "r = Ret x s" and "f x s = Ret y t"
  using assms by auto

lemma bindr_assoc: "bindr (bindr r f) g = bindr r (\<lambda>x s. bindr (f x s) g)"
  by (cases r) auto

lemma bindr_cong [fundef_cong]:
  assumes "r = r'" and "\<And>x s. r' = Ret x s \<Longrightarrow> f x s = g x s"
  shows "bindr r f = bindr r' g"
  using assms by (cases r') auto

definition is_Ret :: "('a, 's) res \<Rightarrow> bool" where
  "is_Ret r = (case r of Ret _ _ \<Rightarrow> True | _ \<Rightarrow> False)"

lemma is_Ret_simps [simp]:
  "is_Ret (Ret x s)" "\<not> is_Ret (Sleeps s)" "\<not> is_Ret (Panic m)" "\<not> is_Ret Diverge"
  by (simp_all add: is_Ret_def)

lemma is_Ret_iff: "is_Ret r \<longleftrightarrow> (\<exists>x s. r = Ret x s)"
  by (cases r) auto

subsection \<open>Words as naturals\<close>

lemma unat_lt32 [simp]: "unat (w :: u32) < 4294967296"
  using unsigned_less [of w] by simp

lemma unat_and_mask: "unat (w AND mask n :: 'a::len word) = unat w mod 2 ^ n"
  by (simp only: take_bit_eq_mask [symmetric] unsigned_take_bit_eq) (simp add: take_bit_eq_mod)

lemma unat_drop_bit: "unat (drop_bit n w :: 'a::len word) = unat w div 2 ^ n"
  by (simp only: unat_drop_bit_eq) (simp add: drop_bit_eq_div)

lemma word_split_mask: "(w AND NOT (mask n)) OR (w AND mask n) = (w :: 'a::len word)"
  by (rule bit_word_eqI) (auto simp: bit_simps)

lemma word_split_mask_plus: "(w AND NOT (mask n)) + (w AND mask n) = (w :: 'a::len word)"
proof -
  have "(w AND NOT (mask n)) + (w AND mask n) = (w AND NOT (mask n)) OR (w AND mask n)"
    by (rule disjunctive_add) (auto simp: bit_simps)
  then show ?thesis by (simp add: word_split_mask)
qed

lemma unat_and_not_mask: "unat (w AND NOT (mask n) :: 'a::len word) = unat w - unat w mod 2 ^ n"
proof -
  have "w AND NOT (mask n) = w - (w AND mask n)"
    using word_split_mask_plus [of w n] by (simp add: eq_diff_eq)
  moreover have "w AND mask n \<le> w"
    by (simp add: word_le_nat_alt unat_and_mask)
  ultimately show ?thesis
    by (simp add: unat_sub_if_size word_le_nat_alt unat_and_mask)
qed

subsection \<open>Searching an array\<close>

lemma find_SomeD: "find P xs = Some x \<Longrightarrow> x \<in> set xs \<and> P x"
  by (induction xs) (auto split: if_splits)

lemma find_unique:
  assumes "x \<in> set xs" "P x" "\<And>y. y \<in> set xs \<Longrightarrow> P y \<Longrightarrow> y = x"
  shows "find P xs = Some x"
proof (cases "find P xs")
  case None
  then show ?thesis using assms(1,2) by (auto simp: find_None_iff)
next
  case (Some y)
  then show ?thesis using assms(3) [of y] find_SomeD [OF Some] by simp
qed

subsection \<open>Words as C integers\<close>

lemma sint_small:
  assumes "unat w < 2147483648" shows "sint (w :: u32) = int (unat w)"
proof -
  have "int (unat w) < 2147483648" using assms by linarith
  then have "uint w < 2147483648" by simp
  moreover have "- 2147483648 \<le> uint w" using uint_ge_0 [of w] by linarith
  ultimately have "signed_take_bit 31 (uint w) = uint w" by (intro signed_take_bit_int_eq_self) simp_all
  then show ?thesis by (simp add: sint_uint)
qed

lemma sint_of_nat_small:
  assumes "n < 2147483648" shows "sint (of_nat n :: u32) = int n"
proof -
  have "unat (of_nat n :: u32) = n" using assms by (simp add: unat_of_nat)
  then show ?thesis using sint_small [of "of_nat n"] assms by simp
qed

end
