(* ===== verification/Layout.thy ===== *)
theory Layout
  imports Xv6_Prelude
begin

section \<open>Address layout: mmu.h, memlayout.h, param.h\<close>

text \<open>
  The constants of \<open>param.h\<close> and \<open>memlayout.h\<close> and the address macros of \<open>mmu.h\<close>,
  written with the source's bit operations on 32-bit words, and their arithmetic reading.
\<close>

abbreviation PGSIZE :: u32 where "PGSIZE \<equiv> 4096"
abbreviation KERNBASE :: u32 where "KERNBASE \<equiv> 0x80000000"
abbreviation EXTMEM :: u32 where "EXTMEM \<equiv> 0x100000"
abbreviation PHYSTOP :: u32 where "PHYSTOP \<equiv> 0xE000000"
abbreviation DEVSPACE :: u32 where "DEVSPACE \<equiv> 0xFE000000"
abbreviation KERNLINK :: u32 where "KERNLINK \<equiv> 0x80100000"
abbreviation PTE_P :: u32 where "PTE_P \<equiv> 0x001"
abbreviation PTE_W :: u32 where "PTE_W \<equiv> 0x002"
abbreviation PTE_U :: u32 where "PTE_U \<equiv> 0x004"
abbreviation PTE_PS :: u32 where "PTE_PS \<equiv> 0x080"
abbreviation PTE_COW :: u32 where "PTE_COW \<equiv> 0x200"

definition V2P :: "u32 \<Rightarrow> u32" where "V2P a = a - KERNBASE"
definition P2V :: "u32 \<Rightarrow> u32" where "P2V a = a + KERNBASE"

definition PDX :: "u32 \<Rightarrow> u32" where "PDX va = drop_bit 22 va AND 0x3FF"
definition PTX :: "u32 \<Rightarrow> u32" where "PTX va = drop_bit 12 va AND 0x3FF"
definition PGADDR :: "u32 \<Rightarrow> u32 \<Rightarrow> u32 \<Rightarrow> u32" where
  "PGADDR d t ofs = push_bit 22 d OR push_bit 12 t OR ofs"
definition PGROUNDUP :: "u32 \<Rightarrow> u32" where
  "PGROUNDUP sz = (sz + PGSIZE - 1) AND NOT (PGSIZE - 1)"
definition PGROUNDDOWN :: "u32 \<Rightarrow> u32" where
  "PGROUNDDOWN a = a AND NOT (PGSIZE - 1)"
definition PTE_ADDR :: "u32 \<Rightarrow> u32" where "PTE_ADDR pte = pte AND NOT 0xFFF"
definition PTE_FLAGS :: "u32 \<Rightarrow> u32" where "PTE_FLAGS pte = pte AND 0xFFF"

text \<open>Tests of the form \<open>x & BIT\<close> in a condition.\<close>

definition has :: "u32 \<Rightarrow> u32 \<Rightarrow> bool" where "has w b \<longleftrightarrow> w AND b \<noteq> 0"

subsection \<open>Masks as page arithmetic\<close>

lemma mask10: "(0x3FF :: u32) = mask 10"
  by (simp add: mask_eq_exp_minus_1)

lemma mask12: "(0xFFF :: u32) = mask 12"
  by (simp add: mask_eq_exp_minus_1)

lemma unat_PGROUNDDOWN [layout_simps]: "unat (PGROUNDDOWN a) = unat a - unat a mod 4096"
  by (simp add: PGROUNDDOWN_def mask12 unat_and_not_mask)

lemma unat_PTE_ADDR [layout_simps]: "unat (PTE_ADDR a) = unat a - unat a mod 4096"
  by (simp add: PTE_ADDR_def mask12 unat_and_not_mask)

lemma unat_PTE_FLAGS [layout_simps]: "unat (PTE_FLAGS a) = unat a mod 4096"
  by (simp add: PTE_FLAGS_def mask12 unat_and_mask)

lemma unat_PDX [layout_simps]: "unat (PDX va) = unat va div 4194304"
proof -
  have "unat va div 4194304 < 1024"
    using unat_lt32 [of va] by (simp add: less_mult_imp_div_less)
  then show ?thesis
    by (simp add: PDX_def mask10 unat_and_mask unat_drop_bit)
qed

lemma unat_PTX [layout_simps]: "unat (PTX va) = unat va div 4096 mod 1024"
  by (simp add: PTX_def mask10 unat_and_mask unat_drop_bit)

lemma PDX_lt [simp]: "unat (PDX va) < 1024"
  using unat_lt32 [of va] by (simp add: unat_PDX less_mult_imp_div_less)

lemma PTX_lt [simp]: "unat (PTX va) < 1024"
  by (simp add: unat_PTX)

text \<open>The aligned addresses are the fixed points of rounding.\<close>

definition pg_aligned :: "u32 \<Rightarrow> bool" where "pg_aligned a \<longleftrightarrow> unat a mod 4096 = 0"

lemma pg_aligned_PGROUNDDOWN [simp]: "pg_aligned (PGROUNDDOWN a)"
  by (simp add: pg_aligned_def layout_simps minus_mod_eq_div_mult)

lemma pg_aligned_PTE_ADDR [simp]: "pg_aligned (PTE_ADDR a)"
  by (simp add: pg_aligned_def layout_simps minus_mod_eq_div_mult)

lemma PGROUNDDOWN_id: "pg_aligned a \<Longrightarrow> PGROUNDDOWN a = a"
  by (simp add: pg_aligned_def word_unat_eq_iff layout_simps)

lemma PTE_ADDR_id: "pg_aligned a \<Longrightarrow> PTE_ADDR a = a"
  by (simp add: pg_aligned_def word_unat_eq_iff layout_simps)

lemma minus_PGROUNDDOWN: "va - PGROUNDDOWN va = PTE_FLAGS va"
  using word_split_mask_plus [of va 12]
  by (simp add: PGROUNDDOWN_def PTE_FLAGS_def mask12) (metis add_diff_cancel_left')

lemma unat_minus_PGROUNDDOWN [layout_simps]: "unat (va - PGROUNDDOWN va) = unat va mod 4096"
  by (simp add: minus_PGROUNDDOWN unat_PTE_FLAGS)

lemma pg_aligned_iff_and: "pg_aligned a \<longleftrightarrow> a AND 0xFFF = 0"
  by (simp add: pg_aligned_def mask12 word_unat_eq_iff unat_and_mask)

lemma PTE_FLAGS_lt: "PTE_FLAGS a < 0x1000"
  by (simp add: word_less_nat_alt layout_simps)

lemma PTE_split: "PTE_ADDR p OR PTE_FLAGS p = p"
  by (simp add: PTE_ADDR_def PTE_FLAGS_def mask12 word_split_mask)

lemma small_iff_and: "(fl :: u32) < 0x1000 \<longleftrightarrow> fl AND NOT 0xFFF = 0"
proof -
  have "fl AND NOT 0xFFF = 0 \<longleftrightarrow> unat fl - unat fl mod 4096 = 0"
    by (simp add: mask12 word_unat_eq_iff unat_and_not_mask)
  also have "\<dots> \<longleftrightarrow> unat fl < 4096"
    by (simp add: minus_mod_eq_div_mult div_eq_0_iff)
  finally show ?thesis by (simp add: word_less_nat_alt)
qed

lemma PTE_ADDR_compose:
  assumes "pg_aligned pa" and "fl < 0x1000"
  shows "PTE_ADDR (pa OR fl) = pa"
proof -
  have "PTE_ADDR (pa OR fl) = PTE_ADDR pa OR (fl AND NOT 0xFFF)"
    by (simp add: PTE_ADDR_def bit.conj_disj_distrib2)
  then show ?thesis using assms by (simp add: small_iff_and PTE_ADDR_id)
qed

lemma PTE_FLAGS_compose:
  assumes "pg_aligned pa" and "fl < 0x1000"
  shows "PTE_FLAGS (pa OR fl) = fl"
proof -
  have "fl AND 0xFFF = fl"
    using assms(2) by (simp add: word_unat_eq_iff mask12 unat_and_mask word_less_nat_alt)
  then show ?thesis using assms(1)
    by (simp add: PTE_FLAGS_def bit.conj_disj_distrib2 pg_aligned_iff_and)
qed

lemma or_less_page: "(a :: u32) < 0x1000 \<Longrightarrow> b < 0x1000 \<Longrightarrow> a OR b < 0x1000"
  by (simp add: small_iff_and bit.conj_disj_distrib2)

subsection \<open>Flag tests\<close>

lemma has_P: "has w PTE_P \<longleftrightarrow> bit w 0"
  using and_exp_eq_0_iff_not_bit [of w 0] by (simp add: has_def)

lemma has_W: "has w PTE_W \<longleftrightarrow> bit w 1"
  using and_exp_eq_0_iff_not_bit [of w 1] by (simp add: has_def)

lemma has_U: "has w PTE_U \<longleftrightarrow> bit w 2"
  using and_exp_eq_0_iff_not_bit [of w 2] by (simp add: has_def)

lemma has_COW: "has w PTE_COW \<longleftrightarrow> bit w 9"
  using and_exp_eq_0_iff_not_bit [of w 9] by (simp add: has_def)

lemmas has_bits = has_P has_W has_U has_COW

lemma has_or [simp]: "has (a OR b) c \<longleftrightarrow> has a c \<or> has b c"
  by (auto simp: has_def bit.conj_disj_distrib2 or_eq_0_iff)

lemma has_zero [simp]: "\<not> has 0 b"
  by (simp add: has_def)

lemma and_page_mask: "(b :: u32) < 0x1000 \<Longrightarrow> 0xFFF AND b = b"
  by (simp add: word_unat_eq_iff mask12 and.commute [of "mask 12"] unat_and_mask word_less_nat_alt)

lemma has_PTE_FLAGS: "b < 0x1000 \<Longrightarrow> has (PTE_FLAGS p) b = has p b"
  by (simp add: has_def PTE_FLAGS_def and.assoc and_page_mask)

lemma has_aligned: "pg_aligned pa \<Longrightarrow> b < 0x1000 \<Longrightarrow> \<not> has pa b"
  using has_PTE_FLAGS [of b pa] by (simp add: PTE_FLAGS_def pg_aligned_iff_and)

subsection \<open>Kernel addresses\<close>

lemma V2P_P2V [simp]: "V2P (P2V a) = a"
  by (simp add: V2P_def P2V_def)

lemma P2V_V2P [simp]: "P2V (V2P a) = a"
  by (simp add: V2P_def P2V_def)

lemma unat_V2P: "0x80000000 \<le> a \<Longrightarrow> unat (V2P a) = unat a - 0x80000000"
  by (simp add: V2P_def unat_sub)

end
