(* ===== verification/Kalloc.thy ===== *)
theory Kalloc
  imports Layout
begin

section \<open>Physical page allocator and reference counts: kalloc.c, refcount.h\<close>

text \<open>
  Physical memory is a map from page frame numbers to pages, and a page is 1024 words of
  32 bits, the granularity at which the kernel reads page tables and free-list links.
  The free list is the linked list of \<open>struct run\<close> that the code keeps inside the free
  pages themselves: \<open>freelist\<close> is the kernel address of its first page and the word at
  offset 0 of a free page is \<open>r->next\<close>.

  The linker symbols \<open>end\<close> and \<open>data\<close> of \<open>kernel.ld\<close> are fields that no operation changes.
  A critical section bracketed by \<open>acquire\<close> and \<open>release\<close> is one atomic step here; the locks
  themselves are modelled in the theory \<open>Locks\<close>.
\<close>

record mm =
  mem :: "nat \<Rightarrow> nat \<Rightarrow> u32"
  use_lock :: bool
  freelist :: u32
  refcounts :: "nat \<Rightarrow> u8"
  k_end :: u32
  k_data :: u32

text \<open>The frame that holds a physical address, and the one behind a kernel address.\<close>

definition pfn :: "u32 \<Rightarrow> nat" where "pfn pa = unat pa div 4096"

definition kfn :: "u32 \<Rightarrow> nat" where "kfn v = pfn (V2P v)"

definition set_page :: "nat \<Rightarrow> (nat \<Rightarrow> u32) \<Rightarrow> 'z mm_scheme \<Rightarrow> 'z mm_scheme" where
  "set_page f pg s = s\<lparr>mem := (mem s)(f := pg)\<rparr>"

definition set_word :: "nat \<Rightarrow> nat \<Rightarrow> u32 \<Rightarrow> 'z mm_scheme \<Rightarrow> 'z mm_scheme" where
  "set_word f i w s = s\<lparr>mem := (mem s)(f := (mem s f)(i := w))\<rparr>"

subsection \<open>Reference counts\<close>

definition va2idx :: "u32 \<Rightarrow> nat" where
  "va2idx addr = unat (addr div PGSIZE)"

definition increment_refcount :: "u32 \<Rightarrow> 'z mm_scheme \<Rightarrow> 'z mm_scheme" where
  "increment_refcount addr s =
     (if use_lock s
      then s\<lparr>refcounts := (refcounts s)(va2idx addr := refcounts s (va2idx addr) + 1)\<rparr>
      else s)"

definition decrement_refcount :: "u32 \<Rightarrow> 'z mm_scheme \<Rightarrow> 'z mm_scheme" where
  "decrement_refcount addr s =
     (if use_lock s
      then s\<lparr>refcounts := (refcounts s)(va2idx addr := refcounts s (va2idx addr) - 1)\<rparr>
      else s)"

definition getrefcount :: "u32 \<Rightarrow> 'z mm_scheme \<Rightarrow> int" where
  "getrefcount addr s = (if use_lock s then uint (refcounts s (va2idx addr)) else 0)"

definition refcountinit :: "'z mm_scheme \<Rightarrow> 'z mm_scheme" where
  "refcountinit s = s\<lparr>refcounts := (\<lambda>_. 0)\<rparr>"

subsection \<open>The page allocator\<close>

definition kfree :: "u32 \<Rightarrow> 'z mm_scheme \<Rightarrow> (unit, 'z mm_scheme) res" where
  "kfree v s =
     (if v mod PGSIZE \<noteq> 0 \<or> v < k_end s \<or> V2P v \<ge> PHYSTOP then Panic ''kfree''
      else
        let s1 = set_page (kfn v) (\<lambda>_. 0x01010101) s;
            s2 = set_word (kfn v) 0 (freelist s1) s1
        in Ret () (s2\<lparr>freelist := v\<rparr>))"

definition kalloc :: "'z mm_scheme \<Rightarrow> u32 \<times> 'z mm_scheme" where
  "kalloc s =
     (let r = freelist s
      in if r \<noteq> 0 then (r, s\<lparr>freelist := mem s (kfn r) 0\<rparr>) else (r, s))"

lemma kfree_Ret_bounds:
  "kfree v s = Ret x t \<Longrightarrow>
     pg_aligned v \<and> k_end s \<le> v \<and> 0x80000000 \<le> unat v \<and> unat v < 0x8E000000"
proof -
  assume "kfree v s = Ret x t"
  then have a: "v mod PGSIZE = 0" "k_end s \<le> v" "V2P v < PHYSTOP"
    by (auto simp: kfree_def Let_def split: if_splits)
  then have "unat v mod 4096 = 0" "unat (v - 0x80000000) < 0xE000000"
    by (simp_all add: V2P_def word_less_nat_alt word_unat_eq_iff unat_mod)
  moreover have "unat (v - 0x80000000) =
      (if 0x80000000 \<le> unat v then unat v - 0x80000000 else unat v + 0x80000000)"
    by (simp add: unat_sub_if_size word_size)
  ultimately show ?thesis
    using a(2) unat_lt32 [of v] by (auto simp: pg_aligned_def split: if_splits)
qed

function freerange_loop :: "u32 \<Rightarrow> u32 \<Rightarrow> 'z mm_scheme \<Rightarrow> (unit, 'z mm_scheme) res" where
  "freerange_loop p vend s =
     (if p + PGSIZE \<le> vend
      then bindr (kfree p s) (\<lambda>_ s1. freerange_loop (p + PGSIZE) vend s1)
      else Ret () s)"
  by pat_completeness auto
termination
proof (relation "measure (\<lambda>(p, vend, s). 0x8F000000 - unat p)", goal_cases)
  case (2 p vend s x t)
  then have b: "unat p < 0x8E000000" by (blast dest: kfree_Ret_bounds)
  then have "unat (p + 4096) = unat p + 4096"
    by (subst unat_plus_if_size) (simp add: word_size)
  with b show ?case by simp
qed simp

declare freerange_loop.simps [simp del]

definition freerange :: "u32 \<Rightarrow> u32 \<Rightarrow> 'z mm_scheme \<Rightarrow> (unit, 'z mm_scheme) res" where
  "freerange vstart vend s = freerange_loop (PGROUNDUP vstart) vend s"

definition kinit1 :: "u32 \<Rightarrow> u32 \<Rightarrow> 'z mm_scheme \<Rightarrow> (unit, 'z mm_scheme) res" where
  "kinit1 vstart vend s = freerange vstart vend (s\<lparr>use_lock := False\<rparr>)"

definition kinit2 :: "u32 \<Rightarrow> u32 \<Rightarrow> 'z mm_scheme \<Rightarrow> (unit, 'z mm_scheme) res" where
  "kinit2 vstart vend s =
     bindr (freerange vstart vend s) (\<lambda>_ s1. Ret () (s1\<lparr>use_lock := True\<rparr>))"

subsection \<open>The free list as a list of pages\<close>

definition heap_page :: "'z mm_scheme \<Rightarrow> u32 \<Rightarrow> bool" where
  "heap_page s v \<longleftrightarrow>
     pg_aligned v \<and> k_end s \<le> v \<and> 0x80000000 \<le> unat v \<and> unat v < 0x8E000000"

fun fl_path :: "(nat \<Rightarrow> nat \<Rightarrow> u32) \<Rightarrow> u32 \<Rightarrow> u32 list \<Rightarrow> bool" where
  "fl_path m p [] \<longleftrightarrow> p = 0"
| "fl_path m p (v # vs) \<longleftrightarrow> p = v \<and> v \<noteq> 0 \<and> fl_path m (m (kfn v) 0) vs"

definition free_pages :: "'z mm_scheme \<Rightarrow> u32 list \<Rightarrow> bool" where
  "free_pages s vs \<longleftrightarrow>
     fl_path (mem s) (freelist s) vs \<and> distinct vs \<and> (\<forall>v \<in> set vs. heap_page s v)"

lemma unat_V2P_heap: "heap_page s v \<Longrightarrow> unat (V2P v) = unat v - 0x80000000"
  by (simp add: heap_page_def unat_V2P word_le_nat_alt)

lemma heap_page_nonzero: "heap_page s v \<Longrightarrow> v \<noteq> 0"
  by (auto simp: heap_page_def)

lemma kfn_heap: "heap_page s v \<Longrightarrow> unat v = 4096 * (kfn v + 524288)"
proof -
  assume h: "heap_page s v"
  then obtain a where a: "unat v = 4096 * a"
    by (auto simp: heap_page_def pg_aligned_def mod_eq_0_iff_dvd)
  with h have "524288 \<le> a" by (simp add: heap_page_def)
  then have "unat v - 0x80000000 = 4096 * (a - 524288)"
    using a by (simp add: diff_mult_distrib2)
  then show ?thesis
    using a h \<open>524288 \<le> a\<close> by (simp add: kfn_def pfn_def unat_V2P_heap)
qed

lemma kfn_inj: "heap_page s v \<Longrightarrow> heap_page t w \<Longrightarrow> kfn v = kfn w \<Longrightarrow> v = w"
  using kfn_heap [of s v] kfn_heap [of t w] by (simp add: word_unat_eq_iff)

lemma heap_page_cong: "k_end s = k_end t \<Longrightarrow> heap_page s = heap_page t"
  by (rule ext) (simp add: heap_page_def)

lemma fl_path_upd [simp]:
  "\<forall>v \<in> set vs. kfn v \<noteq> f \<Longrightarrow> fl_path (m(f := pg)) p vs = fl_path m p vs"
  by (induction vs arbitrary: p) auto

lemma fl_path_unique: "fl_path m p vs \<Longrightarrow> fl_path m p ws \<Longrightarrow> vs = ws"
proof (induction vs arbitrary: p ws)
  case Nil
  then show ?case by (cases ws) auto
next
  case (Cons v vs)
  then show ?case by (cases ws) auto
qed

lemma kfree_iff_heap_page:
  "kfree v s = Ret () (s\<lparr>mem := (mem s)(kfn v := (\<lambda>_. 0x01010101)(0 := freelist s)), freelist := v\<rparr>)
   \<longleftrightarrow> heap_page s v" (is "?L \<longleftrightarrow> ?R")
proof
  show "?L \<Longrightarrow> ?R" by (drule kfree_Ret_bounds) (simp add: heap_page_def)
next
  assume h: ?R
  then have "V2P v < PHYSTOP"
    using unat_V2P_heap [OF h] h by (simp add: word_less_nat_alt heap_page_def) linarith
  moreover have "v mod PGSIZE = 0"
    using h by (simp add: heap_page_def pg_aligned_def word_unat_eq_iff unat_mod)
  ultimately show ?L
    using h by (simp add: kfree_def heap_page_def set_page_def set_word_def Let_def not_less not_le)
qed

lemmas kfree_heap_page = kfree_iff_heap_page [THEN iffD2]

lemma kfree_panics: "\<not> heap_page s v \<Longrightarrow> kfree v s = Panic ''kfree''"
proof (rule ccontr)
  assume "\<not> heap_page s v" and "kfree v s \<noteq> Panic ''kfree''"
  then obtain t where "kfree v s = Ret () t"
    by (auto simp: kfree_def Let_def split: if_splits)
  then show False
    using kfree_Ret_bounds \<open>\<not> heap_page s v\<close> by (auto simp: heap_page_def)
qed

lemma kalloc_simps:
  "freelist s = 0 \<Longrightarrow> kalloc s = (0, s)"
  "freelist s \<noteq> 0 \<Longrightarrow> kalloc s = (freelist s, s\<lparr>freelist := mem s (kfn (freelist s)) 0\<rparr>)"
  by (simp_all add: kalloc_def Let_def)

lemma kalloc_frame [mm_frame]:
  assumes "kalloc s = (r, t)"
  shows "mem t = mem s" "refcounts t = refcounts s" "use_lock t = use_lock s"
    "k_end t = k_end s" "k_data t = k_data s"
  using assms by (auto simp: kalloc_def Let_def split: if_splits)

subsection \<open>The allocator as an interface\<close>

text \<open>
  What the page-table code relies on: a pool of pages that \<open>alloc\<close> takes from and \<open>free\<close>
  returns to.
\<close>

primrec take_pages :: "('s \<Rightarrow> u32 \<times> 's) \<Rightarrow> nat \<Rightarrow> 's \<Rightarrow> u32 list \<times> 's" where
  "take_pages al 0 s = ([], s)"
| "take_pages al (Suc n) s =
     (let (v, s1) = al s; (vs, s2) = take_pages al n s1 in (v # vs, s2))"

locale page_pool =
  fixes alloc :: "'s \<Rightarrow> u32 \<times> 's"
    and free :: "u32 \<Rightarrow> 's \<Rightarrow> (unit, 's) res"
    and pool :: "'s \<Rightarrow> u32 list \<Rightarrow> bool"
    and legal :: "'s \<Rightarrow> u32 \<Rightarrow> bool"
  assumes alloc_empty: "pool s [] \<Longrightarrow> alloc s = (0, s)"
    and alloc_take: "pool s (v # vs) \<Longrightarrow> \<exists>t. alloc s = (v, t) \<and> pool t vs \<and> legal t = legal s"
    and free_put: "pool s vs \<Longrightarrow> legal s v \<Longrightarrow> v \<notin> set vs
        \<Longrightarrow> \<exists>t. free v s = Ret () t \<and> pool t (v # vs) \<and> legal t = legal s"
    and free_refuse: "\<not> legal s v \<Longrightarrow> \<exists>m. free v s = Panic m"
    and pool_legal: "pool s vs \<Longrightarrow> v \<in> set vs \<Longrightarrow> legal s v"
    and legal_nonzero: "legal s v \<Longrightarrow> v \<noteq> 0"
    and pool_distinct: "pool s vs \<Longrightarrow> distinct vs"
begin

lemma alloc_zero_iff: "pool s vs \<Longrightarrow> fst (alloc s) = 0 \<longleftrightarrow> vs = []"
  using alloc_empty alloc_take pool_legal legal_nonzero
  by (cases vs) (fastforce, metis fst_conv list.set_intros(1))

lemma alloc_free_restores:
  assumes "pool s (v # vs)"
  shows "\<exists>t u. alloc s = (v, t) \<and> free v t = Ret () u \<and> pool u (v # vs)"
proof -
  obtain t where t: "alloc s = (v, t)" "pool t vs" "legal t = legal s"
    using alloc_take [OF assms] by blast
  have "v \<notin> set vs" using pool_distinct [OF assms] by simp
  moreover have "legal t v" using pool_legal [OF assms] t(3) by simp
  ultimately show ?thesis using free_put [OF t(2)] t(1) by blast
qed

lemma take_pages_prefix:
  "pool s vs \<Longrightarrow> n \<le> length vs \<Longrightarrow>
     \<exists>t. take_pages alloc n s = (take n vs, t) \<and> pool t (drop n vs)"
proof (induction n arbitrary: s vs)
  case 0
  then show ?case by simp
next
  case (Suc n)
  then obtain v ws where vs: "vs = v # ws" by (cases vs) auto
  with Suc.prems obtain t where t: "alloc s = (v, t)" "pool t ws"
    using alloc_take by blast
  with Suc vs obtain u where "take_pages alloc n t = (take n ws, u)" "pool u (drop n ws)"
    by force
  with t vs show ?case by simp
qed

end

lemma free_pages_alloc:
  assumes "free_pages s (v # vs)"
  shows "kalloc s = (v, s\<lparr>freelist := mem s (kfn v) 0\<rparr>)"
    and "free_pages (s\<lparr>freelist := mem s (kfn v) 0\<rparr>) vs"
  using assms by (auto simp: free_pages_def kalloc_def heap_page_def)

lemma free_pages_free:
  assumes "free_pages s vs" "heap_page s v" "v \<notin> set vs"
  shows "\<exists>t. kfree v s = Ret () t \<and> free_pages t (v # vs) \<and> k_end t = k_end s"
proof -
  let ?m = "(mem s)(kfn v := (\<lambda>_. 0x01010101)(0 := freelist s))"
  let ?t = "s\<lparr>mem := ?m, freelist := v\<rparr>"
  have "\<forall>w \<in> set vs. kfn w \<noteq> kfn v"
    using assms kfn_inj by (fastforce simp: free_pages_def)
  then have "fl_path ?m (freelist s) vs"
    using assms(1) by (simp add: free_pages_def)
  then have "free_pages ?t (v # vs)"
    using assms heap_page_nonzero [OF assms(2)]
    by (auto simp: free_pages_def heap_page_def)
  then show ?thesis using kfree_heap_page [OF assms(2)] by auto
qed

interpretation kp: page_pool kalloc kfree free_pages heap_page
proof (unfold_locales, goal_cases)
  case (2 s v vs)
  then show ?case
    using free_pages_alloc [OF 2] heap_page_cong [of "s\<lparr>freelist := mem s (kfn v) 0\<rparr>" s] by auto
next
  case (3 s vs v)
  then show ?case using free_pages_free heap_page_cong by blast
next
  case (4 s v)
  then show ?case using kfree_panics by blast
next
  case (6 s v)
  then show ?case by (rule heap_page_nonzero)
qed (auto simp: free_pages_def kalloc_def)

subsection \<open>Filling the free list at boot\<close>

definition pages_from :: "u32 \<Rightarrow> nat \<Rightarrow> u32 list" where
  "pages_from p n = map (\<lambda>i. p + of_nat (4096 * i)) [0..<n]"

lemma pages_from_0 [simp]: "pages_from p 0 = []"
  by (simp add: pages_from_def)

lemma pages_from_Suc: "pages_from p (Suc n) = p # pages_from (p + PGSIZE) n"
proof -
  have "[0..<Suc n] = 0 # map Suc [0..<n]"
    by (simp add: map_Suc_upt upt_conv_Cons)
  then show ?thesis
    by (simp add: pages_from_def o_def algebra_simps)
qed

lemma unat_pages_from:
  assumes "v \<in> set (pages_from p n)" and "unat p + 4096 * n \<le> 0x8E000000"
  shows "\<exists>i < n. unat v = unat p + 4096 * i"
proof -
  obtain i where i: "i < n" "v = p + of_nat (4096 * i)"
    using assms(1) by (auto simp: pages_from_def)
  have small: "unat p + 4096 * i < 0x8E000000" using i(1) assms(2) by simp
  then have "unat (of_nat (4096 * i) :: u32) = 4096 * i"
    by (simp add: unat_of_nat del: of_nat_mult)
  then have "unat v = unat p + 4096 * i"
    using i(2) small by (subst i(2), subst unat_plus_if_size) (simp add: word_size)
  then show ?thesis using i(1) by blast
qed

lemma freerange_loop_fills:
  assumes "free_pages s vs" and "pg_aligned p" and "k_end s \<le> p" and "0x80000000 \<le> unat p"
    and "unat p + 4096 * n \<le> unat vend" and "unat vend < unat p + 4096 * n + 4096"
    and "unat vend \<le> 0x8E000000" and "set (pages_from p n) \<inter> set vs = {}"
  shows "\<exists>t. freerange_loop p vend s = Ret () t \<and> free_pages t (rev (pages_from p n) @ vs)
           \<and> k_end t = k_end s \<and> use_lock t = use_lock s"
  using assms
proof (induction n arbitrary: s p vs)
  case 0
  have "unat (p + 4096) = unat p + 4096"
    using 0 by (subst unat_plus_if_size) (simp add: word_size)
  then have "\<not> p + 4096 \<le> vend" using 0 by (simp add: word_le_nat_alt)
  then show ?case using 0 by (simp add: freerange_loop.simps [of p])
next
  case (Suc n)
  have q: "unat (p + 4096) = unat p + 4096"
    using Suc.prems by (subst unat_plus_if_size) (simp add: word_size)
  then have go: "p + 4096 \<le> vend" using Suc.prems by (simp add: word_le_nat_alt)
  have hp: "heap_page s p" using Suc.prems by (simp add: heap_page_def)
  have "p \<notin> set vs" using Suc.prems by (simp add: pages_from_Suc)
  then obtain t where t: "kfree p s = Ret () t" "free_pages t (p # vs)" "k_end t = k_end s"
    using free_pages_free [OF Suc.prems(1) hp] by blast
  have ul: "use_lock t = use_lock s"
    using t(1) kfree_heap_page [OF hp] by auto
  have "p \<notin> set (pages_from (p + 4096) n)"
    using unat_pages_from [of p "p + 4096" n] q Suc.prems by auto
  then have "\<exists>u. freerange_loop (p + 4096) vend t = Ret () u
      \<and> free_pages u (rev (pages_from (p + 4096) n) @ p # vs)
      \<and> k_end u = k_end t \<and> use_lock u = use_lock t"
    using Suc.prems q t by (intro Suc.IH) (auto simp: pg_aligned_def pages_from_Suc word_le_nat_alt)
  then show ?case
    using t go ul by (auto simp: freerange_loop.simps [of p] pages_from_Suc)
qed

end
