(* ===== verification/Vm.thy ===== *)
theory Vm
  imports Kalloc
begin

section \<open>Page tables and address spaces: vm.c\<close>

text \<open>
  A page directory is a kernel address; its 1024 entries are the words of its page, and a
  present entry names the page that holds 1024 page table entries. A pointer to a page
  table entry (\<open>pte_t *\<close>) is the pair of the page's frame number and the index in it, and
  a null pointer is \<open>None\<close>. Reading through a null pointer, which the code does in two
  places without a test, is \<open>Panic ''null dereference''\<close>.
\<close>

type_synonym pteptr = "nat \<times> nat"

definition rd :: "pteptr \<Rightarrow> 'z mm_scheme \<Rightarrow> u32" where
  "rd p s = mem s (fst p) (snd p)"

definition wr :: "pteptr \<Rightarrow> u32 \<Rightarrow> 'z mm_scheme \<Rightarrow> 'z mm_scheme" where
  "wr p w s = set_word (fst p) (snd p) w s"

text \<open>Bytes of a page, little endian within its words.\<close>

definition get_byte :: "u32 \<Rightarrow> nat \<Rightarrow> u8" where
  "get_byte w k = ucast (drop_bit (8 * k) w)"

definition set_byte :: "u32 \<Rightarrow> nat \<Rightarrow> u8 \<Rightarrow> u32" where
  "set_byte w k b = (w AND NOT (push_bit (8 * k) 0xFF)) OR push_bit (8 * k) (ucast b)"

definition load8 :: "u32 \<Rightarrow> 'z mm_scheme \<Rightarrow> u8" where
  "load8 pa s = get_byte (mem s (pfn pa) (unat pa mod 4096 div 4)) (unat pa mod 4)"

definition store8 :: "u32 \<Rightarrow> u8 \<Rightarrow> 'z mm_scheme \<Rightarrow> 'z mm_scheme" where
  "store8 pa b s =
     set_word (pfn pa) (unat pa mod 4096 div 4)
       (set_byte (mem s (pfn pa) (unat pa mod 4096 div 4)) (unat pa mod 4) b) s"

fun store_bytes :: "u32 \<Rightarrow> u8 list \<Rightarrow> 'z mm_scheme \<Rightarrow> 'z mm_scheme" where
  "store_bytes pa [] s = s"
| "store_bytes pa (b # bs) s = store_bytes (pa + 1) bs (store8 pa b s)"

fun load_bytes :: "u32 \<Rightarrow> nat \<Rightarrow> 'z mm_scheme \<Rightarrow> u8 list" where
  "load_bytes pa 0 s = []"
| "load_bytes pa (Suc n) s = load8 pa s # load_bytes (pa + 1) n s"

subsection \<open>Walking and mapping\<close>

definition walkpgdir :: "u32 \<Rightarrow> u32 \<Rightarrow> bool \<Rightarrow> 'z mm_scheme \<Rightarrow> pteptr option \<times> 'z mm_scheme" where
  "walkpgdir pgdir va alloc s =
     (let pde = mem s (kfn pgdir) (unat (PDX va))
      in if has pde PTE_P then (Some (kfn (P2V (PTE_ADDR pde)), unat (PTX va)), s)
         else if \<not> alloc then (None, s)
         else let (pgtab, s1) = kalloc s
              in if pgtab = 0 then (None, s1)
                 else let s2 = set_page (kfn pgtab) (\<lambda>_. 0) s1;
                          s3 = set_word (kfn pgdir) (unat (PDX va))
                                 (V2P pgtab OR PTE_P OR PTE_W OR PTE_U) s2
                      in (Some (kfn pgtab, unat (PTX va)), s3))"

text \<open>
  The loop of \<open>mappages\<close> leaves when \<open>a == last\<close>. Both pointers are rounded to pages by
  the caller, so the loop meets \<open>last\<close>; the branch \<open>Diverge\<close> is for pointers that never meet.
\<close>

function mappages_loop ::
  "u32 \<Rightarrow> u32 \<Rightarrow> u32 \<Rightarrow> u32 \<Rightarrow> u32 \<Rightarrow> 'z mm_scheme \<Rightarrow> (int, 'z mm_scheme) res" where
  "mappages_loop pgdir a lastp pa perm s =
     (case walkpgdir pgdir a True s of
        (None, s1) \<Rightarrow> Ret (-1) s1
      | (Some pte, s1) \<Rightarrow>
          if has (rd pte s1) PTE_P then Panic ''remap''
          else let s2 = wr pte (pa OR perm OR PTE_P) s1;
                   s3 = increment_refcount pa s2
               in if a = lastp then Ret 0 s3
                  else if pg_aligned (lastp - a)
                  then mappages_loop pgdir (a + PGSIZE) lastp (pa + PGSIZE) perm s3
                  else Diverge)"
  by pat_completeness auto
termination
proof (relation "measure (\<lambda>(pgdir, a, lastp, pa, perm, s). unat (lastp - a))", goal_cases)
  case (2 pgdir a lastp pa perm s)
  then have "unat (lastp - a) \<noteq> 0" "unat (lastp - a) mod 4096 = 0"
    by (auto simp: pg_aligned_def unat_eq_0)
  then have "4096 \<le> unat (lastp - a)"
    by (simp add: mod_eq_0_iff_dvd dvd_imp_le)
  then have "unat (lastp - a - 4096) = unat (lastp - a) - 4096"
    by (simp add: unat_sub word_le_nat_alt)
  then show ?case
    using \<open>4096 \<le> unat (lastp - a)\<close> by (simp add: diff_diff_eq)
qed simp

declare mappages_loop.simps [simp del]

definition mappages ::
  "u32 \<Rightarrow> u32 \<Rightarrow> u32 \<Rightarrow> u32 \<Rightarrow> u32 \<Rightarrow> 'z mm_scheme \<Rightarrow> (int, 'z mm_scheme) res" where
  "mappages pgdir va sz pa perm s =
     mappages_loop pgdir (PGROUNDDOWN va) (PGROUNDDOWN (va + sz - 1)) pa perm s"

subsection \<open>Releasing memory\<close>

text \<open>
  Body of the loop of \<open>deallocuvm\<close>: the state after it, and the address from which the next
  iteration starts (the \<open>a += PGSIZE\<close> of the loop header included).
\<close>

definition dealloc_step :: "u32 \<Rightarrow> u32 \<Rightarrow> 'z mm_scheme \<Rightarrow> (u32, 'z mm_scheme) res" where
  "dealloc_step pgdir a s =
     (case walkpgdir pgdir a False s of
        (None, s1) \<Rightarrow> Ret (PGADDR (PDX a + 1) 0 0 - PGSIZE + PGSIZE) s1
      | (Some pte, s1) \<Rightarrow>
          if has (rd pte s1) PTE_P then
            let pa = PTE_ADDR (rd pte s1)
            in if pa = 0 then Panic ''kfree''
               else let s2 = decrement_refcount pa s1
                    in bindr (if getrefcount pa s2 = 0 then kfree (P2V pa) s2 else Ret () s2)
                         (\<lambda>_ s3. Ret (a + PGSIZE) (wr pte 0 s3))
          else Ret (a + PGSIZE) s1)"

text \<open>
  An iteration that does not move \<open>a\<close> upwards has wrapped around the address space, and the
  loop then runs for ever.
\<close>

function deallocuvm_loop :: "u32 \<Rightarrow> u32 \<Rightarrow> u32 \<Rightarrow> 'z mm_scheme \<Rightarrow> (unit, 'z mm_scheme) res" where
  "deallocuvm_loop pgdir a oldsz s =
     (if a < oldsz
      then bindr (dealloc_step pgdir a s)
             (\<lambda>a' s'. if a < a' then deallocuvm_loop pgdir a' oldsz s' else Diverge)
      else Ret () s)"
  by pat_completeness auto
termination
  by (relation "measure (\<lambda>(pgdir, a, oldsz, s). unat oldsz - unat a)")
     (auto simp: word_less_nat_alt)

declare deallocuvm_loop.simps [simp del]

definition deallocuvm :: "u32 \<Rightarrow> u32 \<Rightarrow> u32 \<Rightarrow> 'z mm_scheme \<Rightarrow> (u32, 'z mm_scheme) res" where
  "deallocuvm pgdir oldsz newsz s =
     (if newsz \<ge> oldsz then Ret oldsz s
      else bindr (deallocuvm_loop pgdir (PGROUNDUP newsz) oldsz s) (\<lambda>_ s1. Ret newsz s1))"

fun freevm_loop :: "u32 \<Rightarrow> nat list \<Rightarrow> 'z mm_scheme \<Rightarrow> (unit, 'z mm_scheme) res" where
  "freevm_loop pgdir [] s = Ret () s"
| "freevm_loop pgdir (i # is) s =
     bindr (if has (mem s (kfn pgdir) i) PTE_P
            then kfree (P2V (PTE_ADDR (mem s (kfn pgdir) i))) s else Ret () s)
       (\<lambda>_ s1. freevm_loop pgdir is s1)"

definition freevm :: "u32 \<Rightarrow> 'z mm_scheme \<Rightarrow> (unit, 'z mm_scheme) res" where
  "freevm pgdir s =
     (if pgdir = 0 then Panic ''freevm: no pgdir''
      else bindr (deallocuvm pgdir KERNBASE 0 s) (\<lambda>_ s1.
           bindr (freevm_loop pgdir [0..<1024] s1) (\<lambda>_ s2. kfree pgdir s2)))"

subsection \<open>The kernel part of an address space\<close>

text \<open>The rows of \<open>kmap\<close>: virtual start, physical start and end, permissions.\<close>

definition kmap :: "'z mm_scheme \<Rightarrow> (u32 \<times> u32 \<times> u32 \<times> u32) list" where
  "kmap s =
     [(KERNBASE, 0, EXTMEM, PTE_W),
      (KERNLINK, V2P KERNLINK, V2P (k_data s), 0),
      (k_data s, V2P (k_data s), PHYSTOP, PTE_W),
      (DEVSPACE, DEVSPACE, 0, PTE_W)]"

fun setupkvm_loop ::
  "u32 \<Rightarrow> (u32 \<times> u32 \<times> u32 \<times> u32) list \<Rightarrow> 'z mm_scheme \<Rightarrow> (u32, 'z mm_scheme) res" where
  "setupkvm_loop pgdir [] s = Ret pgdir s"
| "setupkvm_loop pgdir ((virt, phys_start, phys_end, perm) # ks) s =
     bindr (mappages pgdir virt (phys_end - phys_start) phys_start perm s)
       (\<lambda>r s1. if r < 0 then bindr (freevm pgdir s1) (\<lambda>_ s2. Ret 0 s2)
               else setupkvm_loop pgdir ks s1)"

definition setupkvm :: "'z mm_scheme \<Rightarrow> (u32, 'z mm_scheme) res" where
  "setupkvm s =
     (let (pgdir, s1) = kalloc s
      in if pgdir = 0 then Ret 0 s1
         else let s2 = set_page (kfn pgdir) (\<lambda>_. 0) s1
              in if P2V PHYSTOP > DEVSPACE then Panic ''PHYSTOP too high''
                 else setupkvm_loop pgdir (kmap s2) s2)"

subsection \<open>The user part of an address space\<close>

definition inituvm :: "u32 \<Rightarrow> u8 list \<Rightarrow> 'z mm_scheme \<Rightarrow> (unit, 'z mm_scheme) res" where
  "inituvm pgdir init s =
     (if length init \<ge> 4096 then Panic ''inituvm: more than a page''
      else let (mm, s1) = kalloc s
           in if mm = 0 then Panic ''null dereference''
              else let s2 = set_page (kfn mm) (\<lambda>_. 0) s1
                   in bindr (mappages pgdir 0 PGSIZE (V2P mm) (PTE_W OR PTE_U) s2)
                        (\<lambda>_ s3. Ret () (store_bytes (V2P mm) init s3)))"

function allocuvm_loop ::
  "u32 \<Rightarrow> u32 \<Rightarrow> u32 \<Rightarrow> u32 \<Rightarrow> 'z mm_scheme \<Rightarrow> (u32, 'z mm_scheme) res" where
  "allocuvm_loop pgdir a oldsz newsz s =
     (if a < newsz then
        let (mm, s1) = kalloc s
        in if mm = 0 then bindr (deallocuvm pgdir newsz oldsz s1) (\<lambda>_ s2. Ret 0 s2)
           else let s2 = set_page (kfn mm) (\<lambda>_. 0) s1
                in bindr (mappages pgdir a PGSIZE (V2P mm) (PTE_W OR PTE_U) s2)
                     (\<lambda>r s3. if r < 0
                        then bindr (deallocuvm pgdir newsz oldsz s3) (\<lambda>_ s4.
                             bindr (kfree mm s4) (\<lambda>_ s5. Ret 0 s5))
                        else if a < a + PGSIZE
                        then allocuvm_loop pgdir (a + PGSIZE) oldsz newsz s3
                        else Diverge)
      else Ret newsz s)"
  by pat_completeness auto
termination
  by (relation "measure (\<lambda>(pgdir, a, oldsz, newsz, s). unat newsz - unat a)")
     (auto simp: word_less_nat_alt)

declare allocuvm_loop.simps [simp del]

definition allocuvm :: "u32 \<Rightarrow> u32 \<Rightarrow> u32 \<Rightarrow> 'z mm_scheme \<Rightarrow> (u32, 'z mm_scheme) res" where
  "allocuvm pgdir oldsz newsz s =
     (if newsz \<ge> KERNBASE then Ret 0 s
      else if newsz < oldsz then Ret oldsz s
      else allocuvm_loop pgdir (PGROUNDUP oldsz) oldsz newsz s)"

definition clearpteu :: "u32 \<Rightarrow> u32 \<Rightarrow> 'z mm_scheme \<Rightarrow> (unit, 'z mm_scheme) res" where
  "clearpteu pgdir uva s =
     (case walkpgdir pgdir uva False s of
        (None, s1) \<Rightarrow> Panic ''clearpteu''
      | (Some pte, s1) \<Rightarrow> Ret () (wr pte (rd pte s1 AND NOT PTE_U) s1))"

text \<open>
  One page of \<open>loaduvm\<close>. The argument \<open>readi\<close> is the read of the program file: offset and
  length to the returned count and the bytes copied.
\<close>

function loaduvm_loop ::
  "(u32 \<Rightarrow> u32 \<Rightarrow> 'z mm_scheme \<Rightarrow> (int \<times> u8 list, 'z mm_scheme) res) \<Rightarrow>
   u32 \<Rightarrow> u32 \<Rightarrow> u32 \<Rightarrow> u32 \<Rightarrow> u32 \<Rightarrow> u32 \<Rightarrow> 'z mm_scheme \<Rightarrow> (int, 'z mm_scheme) res" where
  "loaduvm_loop readi pgdir addr offset sz flags i s =
     (if i < sz then
        case walkpgdir pgdir (addr + i) False s of
          (None, s1) \<Rightarrow> Panic ''loaduvm: address should exist''
        | (Some pte, s1) \<Rightarrow>
            let pa = PTE_ADDR (rd pte s1);
                n = (if sz - i < PGSIZE then sz - i else PGSIZE)
            in bindr (readi (offset + i) n s1) (\<lambda>(r, bs) s2.
                 let s3 = store_bytes pa bs s2
                 in if r \<noteq> uint n then Ret (-1) s3
                    else let oflags = PTE_FLAGS (rd pte s3);
                             oflags' = (if \<not> has flags 2 then oflags AND NOT PTE_W else oflags);
                             s4 = wr pte (pa OR oflags') s3
                         in if i < i + PGSIZE
                            then loaduvm_loop readi pgdir addr offset sz flags (i + PGSIZE) s4
                            else Diverge)
      else Ret 0 s)"
  by pat_completeness auto
termination
  by (relation "measure (\<lambda>(readi, pgdir, addr, offset, sz, flags, i, s). unat sz - unat i)")
     (auto simp: word_less_nat_alt)

declare loaduvm_loop.simps [simp del]

definition loaduvm ::
  "(u32 \<Rightarrow> u32 \<Rightarrow> 'z mm_scheme \<Rightarrow> (int \<times> u8 list, 'z mm_scheme) res) \<Rightarrow>
   u32 \<Rightarrow> u32 \<Rightarrow> u32 \<Rightarrow> u32 \<Rightarrow> u32 \<Rightarrow> 'z mm_scheme \<Rightarrow> (int, 'z mm_scheme) res" where
  "loaduvm readi pgdir addr offset sz flags s =
     (if addr mod PGSIZE \<noteq> 0 then Panic ''loaduvm: addr must be page aligned''
      else loaduvm_loop readi pgdir addr offset sz flags 0 s)"

subsection \<open>Copy on write at fork, and copying out\<close>

function copyuvm_loop ::
  "u32 \<Rightarrow> u32 \<Rightarrow> u32 \<Rightarrow> u32 \<Rightarrow> 'z mm_scheme \<Rightarrow> (u32, 'z mm_scheme) res" where
  "copyuvm_loop d pgdir sz i s =
     (if i < sz then
        case walkpgdir pgdir i False s of
          (None, s1) \<Rightarrow> Panic ''copyuvm: pte should exist''
        | (Some pte, s1) \<Rightarrow>
            if \<not> has (rd pte s1) PTE_P then Panic ''copyuvm: page not present''
            else
              let pa = PTE_ADDR (rd pte s1);
                  flags = PTE_FLAGS (rd pte s1);
                  (flags', s2) =
                    (if has flags PTE_W
                     then let fl = (flags AND NOT PTE_W) OR PTE_COW in (fl, wr pte (pa OR fl) s1)
                     else (flags, s1))
              in bindr (mappages d i PGSIZE pa flags' s2)
                   (\<lambda>r s3. if r < 0 then bindr (freevm d s3) (\<lambda>_ s4. Ret 0 s4)
                      else if i < i + PGSIZE then copyuvm_loop d pgdir sz (i + PGSIZE) s3
                      else Diverge)
      else Ret d s)"
  by pat_completeness auto
termination
  by (relation "measure (\<lambda>(d, pgdir, sz, i, s). unat sz - unat i)")
     (auto simp: word_less_nat_alt)

declare copyuvm_loop.simps [simp del]

definition copyuvm :: "u32 \<Rightarrow> u32 \<Rightarrow> 'z mm_scheme \<Rightarrow> (u32, 'z mm_scheme) res" where
  "copyuvm pgdir sz s =
     bindr (setupkvm s) (\<lambda>d s1. if d = 0 then Ret 0 s1 else copyuvm_loop d pgdir sz 0 s1)"

definition uva2ka :: "u32 \<Rightarrow> u32 \<Rightarrow> 'z mm_scheme \<Rightarrow> (u32, 'z mm_scheme) res" where
  "uva2ka pgdir uva s =
     (case walkpgdir pgdir uva False s of
        (None, s1) \<Rightarrow> Panic ''null dereference''
      | (Some pte, s1) \<Rightarrow>
          if \<not> has (rd pte s1) PTE_P then Ret 0 s1
          else if \<not> has (rd pte s1) PTE_U then Ret 0 s1
          else Ret (P2V (PTE_ADDR (rd pte s1))) s1)"

text \<open>The buffer is the list of its bytes, so \<open>len\<close> is its length.\<close>

function copyout :: "u32 \<Rightarrow> u32 \<Rightarrow> u8 list \<Rightarrow> 'z mm_scheme \<Rightarrow> (int, 'z mm_scheme) res" where
  "copyout pgdir va buf s =
     (if length buf > 0 then
        let va0 = PGROUNDDOWN va
        in bindr (uva2ka pgdir va0 s) (\<lambda>pa0 s1.
             if pa0 = 0 then Ret (-1) s1
             else let n = unat (PGSIZE - (va - va0));
                      n' = (if n > length buf then length buf else n);
                      s2 = store_bytes (V2P (pa0 + (va - va0))) (take n' buf) s1
                  in copyout pgdir (va0 + PGSIZE) (drop n' buf) s2)
      else Ret 0 s)"
  by pat_completeness auto
termination
proof (relation "measure (\<lambda>(pgdir, va, buf, s). length buf)", goal_cases)
  case (2 pgdir va buf s va0 pa0 s1 n n' s2)
  have "unat (va - PGROUNDDOWN va) < 4096"
    by (simp add: layout_simps)
  then have "unat (PGSIZE - (va - PGROUNDDOWN va)) = 4096 - unat (va - PGROUNDDOWN va)"
    by (simp add: unat_sub word_le_nat_alt)
  with \<open>unat (va - PGROUNDDOWN va) < 4096\<close> have "0 < n"
    using 2 by simp
  then show ?case using 2 by simp
qed simp

declare copyout.simps [simp del]

end
