(* ===== verification/Vm_Tables.thy ===== *)
theory Vm_Tables
  imports Vm
begin

section \<open>Page tables as maps from pages to entries\<close>

text \<open>
  The abstract reading of a page directory: \<open>pte_val\<close> gives the entry for every virtual
  address (0 where no page table exists). The lemmas show that \<open>walkpgdir\<close> and \<open>mappages\<close>
  act on this map as the comments in the code promise, that they touch no frame outside the
  table, and that they keep the tables separate from the free list.
\<close>

definition pte_val :: "'z mm_scheme \<Rightarrow> u32 \<Rightarrow> u32 \<Rightarrow> u32" where
  "pte_val s pgdir va =
     (let pde = mem s (kfn pgdir) (unat (PDX va))
      in if has pde PTE_P then mem s (pfn (PTE_ADDR pde)) (unat (PTX va)) else 0)"

definition present :: "'z mm_scheme \<Rightarrow> u32 \<Rightarrow> nat \<Rightarrow> bool" where
  "present s pgdir i \<longleftrightarrow> has (mem s (kfn pgdir) i) PTE_P"

definition tab_frame :: "'z mm_scheme \<Rightarrow> u32 \<Rightarrow> nat \<Rightarrow> nat" where
  "tab_frame s pgdir i = pfn (PTE_ADDR (mem s (kfn pgdir) i))"

definition pt_frames :: "'z mm_scheme \<Rightarrow> u32 \<Rightarrow> nat set" where
  "pt_frames s pgdir =
     insert (kfn pgdir) (tab_frame s pgdir ` {i. i < 1024 \<and> present s pgdir i})"

definition pt_wf :: "'z mm_scheme \<Rightarrow> u32 \<Rightarrow> bool" where
  "pt_wf s pgdir \<longleftrightarrow>
     (\<forall>i < 1024. present s pgdir i \<longrightarrow> tab_frame s pgdir i \<noteq> kfn pgdir) \<and>
     inj_on (tab_frame s pgdir) {i. i < 1024 \<and> present s pgdir i}"

definition pt_heap :: "'z mm_scheme \<Rightarrow> u32 \<Rightarrow> bool" where
  "pt_heap s pgdir \<longleftrightarrow> heap_page s pgdir \<and>
     (\<forall>i < 1024. present s pgdir i \<longrightarrow> heap_page s (P2V (PTE_ADDR (mem s (kfn pgdir) i))))"

definition pt_inv :: "'z mm_scheme \<Rightarrow> u32 \<Rightarrow> u32 list \<Rightarrow> bool" where
  "pt_inv s pgdir vs \<longleftrightarrow>
     free_pages s vs \<and> pt_wf s pgdir \<and> pt_heap s pgdir \<and>
     kfn ` set vs \<inter> pt_frames s pgdir = {}"

lemma pte_val_alt:
  "pte_val s pgdir va =
     (if present s pgdir (unat (PDX va))
      then mem s (tab_frame s pgdir (unat (PDX va))) (unat (PTX va)) else 0)"
  by (simp add: pte_val_def present_def tab_frame_def Let_def)

lemma va2idx_pfn: "va2idx a = pfn a"
  by (simp add: va2idx_def pfn_def unat_div)

lemma same_page_iff: "PDX va = PDX va' \<and> PTX va = PTX va' \<longleftrightarrow> pfn va = pfn va'"
proof -
  have "unat va div 4096 = unat va' div 4096 \<longleftrightarrow>
      unat va div 4096 div 1024 = unat va' div 4096 div 1024 \<and>
      unat va div 4096 mod 1024 = unat va' div 4096 mod 1024"
    by (metis div_mult_mod_eq)
  then show ?thesis
    by (simp add: word_unat_eq_iff layout_simps pfn_def div_mult2_eq [symmetric])
qed

lemma pte_val_cong_page: "pfn va = pfn va' \<Longrightarrow> pte_val s pgdir va = pte_val s pgdir va'"
  using same_page_iff [of va va'] by (simp add: pte_val_alt)

lemma kfn_P2V [simp]: "kfn (P2V a) = pfn a"
  by (simp add: kfn_def)

subsection \<open>Walking without allocation\<close>

lemma walkpgdir_noalloc:
  "walkpgdir pgdir va False s =
     (if present s pgdir (unat (PDX va))
      then Some (tab_frame s pgdir (unat (PDX va)), unat (PTX va)) else None, s)"
  by (simp add: walkpgdir_def present_def tab_frame_def Let_def)

lemma rd_walk:
  "present s pgdir (unat (PDX va)) \<Longrightarrow>
     rd (tab_frame s pgdir (unat (PDX va)), unat (PTX va)) s = pte_val s pgdir va"
  by (simp add: rd_def pte_val_alt)

lemma not_present_pte_val: "\<not> present s pgdir (unat (PDX va)) \<Longrightarrow> pte_val s pgdir va = 0"
  by (simp add: pte_val_alt)

subsection \<open>Writing an entry\<close>

lemma mem_wr: "mem (wr (f, i) w s) g j = (if g = f \<and> j = i then w else mem s g j)"
  by (simp add: wr_def set_word_def)

lemma wr_frame [mm_frame]:
  "freelist (wr p w s) = freelist s" "refcounts (wr p w s) = refcounts s"
  "use_lock (wr p w s) = use_lock s" "k_end (wr p w s) = k_end s" "k_data (wr p w s) = k_data s"
  "mm.more (wr p w s) = mm.more s"
  by (simp_all add: wr_def set_word_def)

lemma increment_frame [mm_frame]:
  "freelist (increment_refcount a s) = freelist s" "mem (increment_refcount a s) = mem s"
  "use_lock (increment_refcount a s) = use_lock s" "k_end (increment_refcount a s) = k_end s"
  "k_data (increment_refcount a s) = k_data s" "mm.more (increment_refcount a s) = mm.more s"
  by (simp_all add: increment_refcount_def)

lemma decrement_frame [mm_frame]:
  "freelist (decrement_refcount a s) = freelist s" "mem (decrement_refcount a s) = mem s"
  "use_lock (decrement_refcount a s) = use_lock s" "k_end (decrement_refcount a s) = k_end s"
  "k_data (decrement_refcount a s) = k_data s" "mm.more (decrement_refcount a s) = mm.more s"
  by (simp_all add: decrement_refcount_def)

text \<open>Everything here is read off the memory of the table's own frames.\<close>

lemma pt_mem_cong:
  assumes "\<And>g. g \<in> pt_frames s pgdir \<Longrightarrow> mem t g = mem s g"
  shows "present t pgdir = present s pgdir" "tab_frame t pgdir = tab_frame s pgdir"
    "pt_frames t pgdir = pt_frames s pgdir" "pt_wf t pgdir = pt_wf s pgdir"
    "pte_val t pgdir = pte_val s pgdir"
proof -
  have "mem t (kfn pgdir) = mem s (kfn pgdir)" using assms by (simp add: pt_frames_def)
  then show p: "present t pgdir = present s pgdir" and f: "tab_frame t pgdir = tab_frame s pgdir"
    by (auto simp: present_def tab_frame_def fun_eq_iff)
  then show "pt_frames t pgdir = pt_frames s pgdir" "pt_wf t pgdir = pt_wf s pgdir"
    by (simp_all add: pt_frames_def pt_wf_def)
  show "pte_val t pgdir = pte_val s pgdir"
  proof
    fix va
    show "pte_val t pgdir va = pte_val s pgdir va"
    proof (cases "present s pgdir (unat (PDX va))")
      case True
      then have "mem t (tab_frame s pgdir (unat (PDX va))) = mem s (tab_frame s pgdir (unat (PDX va)))"
        by (intro assms) (auto simp: pt_frames_def)
      then show ?thesis by (simp add: pte_val_alt p f)
    qed (simp add: pte_val_alt p)
  qed
qed

lemma free_pages_mem_cong:
  assumes "free_pages s vs" "freelist t = freelist s" "k_end t = k_end s"
    and "\<And>v. v \<in> set vs \<Longrightarrow> mem t (kfn v) = mem s (kfn v)"
  shows "free_pages t vs"
proof -
  have "fl_path (mem t) p vs = fl_path (mem s) p vs" for p
    using assms(4) by (induction vs arbitrary: p) auto
  then show ?thesis
    using assms(1-3) heap_page_cong [of t s] by (simp add: free_pages_def)
qed

lemma pte_write:
  assumes wf: "pt_wf s pgdir" and p: "present s pgdir (unat (PDX va))"
    and t_def: "t = wr (tab_frame s pgdir (unat (PDX va)), unat (PTX va)) w s"
  shows "present t pgdir = present s pgdir" "tab_frame t pgdir = tab_frame s pgdir"
    "pt_frames t pgdir = pt_frames s pgdir" "pt_wf t pgdir"
    "pte_val t pgdir = (\<lambda>va'. if pfn va' = pfn va then w else pte_val s pgdir va')"
proof -
  let ?d = "unat (PDX va)"
  have ne: "tab_frame s pgdir ?d \<noteq> kfn pgdir" using wf p by (simp add: pt_wf_def)
  then have "mem t (kfn pgdir) = mem s (kfn pgdir)"
    by (auto simp: t_def mem_wr fun_eq_iff)
  then show pr: "present t pgdir = present s pgdir" and f: "tab_frame t pgdir = tab_frame s pgdir"
    by (auto simp: present_def tab_frame_def fun_eq_iff)
  then show "pt_frames t pgdir = pt_frames s pgdir" "pt_wf t pgdir"
    using wf by (simp_all add: pt_frames_def pt_wf_def)
  show "pte_val t pgdir = (\<lambda>va'. if pfn va' = pfn va then w else pte_val s pgdir va')"
  proof
    fix va'
    let ?e = "unat (PDX va')"
    have "tab_frame s pgdir ?e = tab_frame s pgdir ?d \<longleftrightarrow> ?e = ?d" if "present s pgdir ?e"
      using wf p that by (auto simp: pt_wf_def inj_on_def)
    then show "pte_val t pgdir va' = (if pfn va' = pfn va then w else pte_val s pgdir va')"
      using p same_page_iff [of va' va]
      by (auto simp: pte_val_alt pr f) (auto simp: t_def mem_wr word_unat_eq_iff)
  qed
qed

subsection \<open>Walking with allocation\<close>

text \<open>
  \<open>pt_grow pgdir s vs t ws\<close>: from \<open>s\<close> with free list \<open>vs\<close> to \<open>t\<close> with free list \<open>ws\<close> the
  table at \<open>pgdir\<close> only gained page-table pages, taken from the front of the free list, and
  no frame outside the table changed.
\<close>

definition tables :: "'z mm_scheme \<Rightarrow> u32 \<Rightarrow> nat set" where
  "tables s pgdir = {i. i < 1024 \<and> present s pgdir i}"

lemma finite_tables [simp]: "finite (tables s pgdir)"
  by (simp add: tables_def)

definition pt_grow :: "u32 \<Rightarrow> 'z mm_scheme \<Rightarrow> u32 list \<Rightarrow> 'z mm_scheme \<Rightarrow> u32 list \<Rightarrow> bool" where
  "pt_grow pgdir s vs t ws \<longleftrightarrow>
     pt_inv t pgdir ws \<and>
     (\<exists>us. vs = us @ ws \<and> pt_frames t pgdir = pt_frames s pgdir \<union> kfn ` set us \<and>
        card (tables t pgdir) = card (tables s pgdir) + length us) \<and>
     (\<forall>g. g \<notin> pt_frames t pgdir \<longrightarrow> mem t g = mem s g) \<and>
     use_lock t = use_lock s \<and> k_end t = k_end s \<and> k_data t = k_data s \<and> mm.more t = mm.more s"

lemma pt_grow_refl: "pt_inv s pgdir vs \<Longrightarrow> pt_grow pgdir s vs s vs"
  by (auto simp: pt_grow_def)

lemma pt_grow_trans:
  assumes "pt_grow pgdir s vs t ws" and "pt_grow pgdir t ws u xs"
  shows "pt_grow pgdir s vs u xs"
proof -
  obtain us where us: "vs = us @ ws" "pt_frames t pgdir = pt_frames s pgdir \<union> kfn ` set us"
      "card (tables t pgdir) = card (tables s pgdir) + length us"
    using assms(1) by (auto simp: pt_grow_def)
  obtain ys where ys: "ws = ys @ xs" "pt_frames u pgdir = pt_frames t pgdir \<union> kfn ` set ys"
      "card (tables u pgdir) = card (tables t pgdir) + length ys"
    using assms(2) by (auto simp: pt_grow_def)
  have "\<exists>zs. vs = zs @ xs \<and> pt_frames u pgdir = pt_frames s pgdir \<union> kfn ` set zs \<and>
      card (tables u pgdir) = card (tables s pgdir) + length zs"
    using us ys by (intro exI [of _ "us @ ys"]) auto
  moreover have "mem u g = mem s g" if "g \<notin> pt_frames u pgdir" for g
  proof -
    have "g \<notin> pt_frames t pgdir" using that ys(2) by simp
    then show ?thesis using that assms by (simp add: pt_grow_def)
  qed
  ultimately show ?thesis
    using assms by (auto simp: pt_grow_def)
qed

lemma new_pde:
  assumes "heap_page s v"
  shows "PTE_ADDR (V2P v OR PTE_P OR PTE_W OR PTE_U) = V2P v"
    and "has (V2P v OR PTE_P OR PTE_W OR PTE_U) PTE_P"
proof -
  have "pg_aligned (V2P v)"
    using assms kfn_heap [OF assms] by (simp add: pg_aligned_def unat_V2P_heap)
  moreover have "PTE_P OR PTE_W OR PTE_U < 0x1000" by simp
  ultimately show "PTE_ADDR (V2P v OR PTE_P OR PTE_W OR PTE_U) = V2P v"
    by (metis PTE_ADDR_compose or.assoc)
  show "has (V2P v OR PTE_P OR PTE_W OR PTE_U) PTE_P"
    by (simp only: has_or) (simp add: has_def)
qed

lemma tab_frame_in: "present s pgdir i \<Longrightarrow> i < 1024 \<Longrightarrow> tab_frame s pgdir i \<in> pt_frames s pgdir"
  by (simp add: pt_frames_def)

lemma kfn_in_pt_frames [simp]: "kfn pgdir \<in> pt_frames s pgdir"
  by (simp add: pt_frames_def)

lemma pt_inv_free_frame: "pt_inv s pgdir vs \<Longrightarrow> x \<in> set vs \<Longrightarrow> kfn x \<notin> pt_frames s pgdir"
  unfolding pt_inv_def by blast

lemma free_pages_kfn_distinct:
  "free_pages s (v # vs) \<Longrightarrow> x \<in> set vs \<Longrightarrow> kfn x \<noteq> kfn v"
  using kfn_inj [of s x s v] by (auto simp: free_pages_def)

lemma walkpgdir_new_table:
  assumes inv: "pt_inv s pgdir (v # vs)" and np: "\<not> present s pgdir (unat (PDX va))"
    and w: "walkpgdir pgdir va True s = (r, t)"
  shows "r = Some (kfn v, unat (PTX va))" "pt_grow pgdir s (v # vs) t vs"
    "present t pgdir = (\<lambda>i. i = unat (PDX va) \<or> present s pgdir i)" "tab_frame t pgdir (unat (PDX va)) = kfn v"
    "pte_val t pgdir = pte_val s pgdir" "refcounts t = refcounts s"
proof -
  let ?d = "unat (PDX va)"
  let ?w = "V2P v OR PTE_P OR PTE_W OR PTE_U"
  let ?s1 = "s\<lparr>freelist := mem s (kfn v) 0\<rparr>"
  have fp: "free_pages s (v # vs)" and hv: "heap_page s v" and v0: "v \<noteq> 0"
    using inv by (auto simp: pt_inv_def free_pages_def)
  have ka: "kalloc s = (v, ?s1)" and fp1: "free_pages ?s1 vs"
    using free_pages_alloc [OF fp] by auto
  have t: "t = set_word (kfn pgdir) ?d ?w (set_page (kfn v) (\<lambda>_. 0) ?s1)"
    and r: "r = Some (kfn v, unat (PTX va))"
    using w np ka v0 by (auto simp: walkpgdir_def present_def Let_def)
  show "r = Some (kfn v, unat (PTX va))" by (rule r)
  have vd: "kfn v \<noteq> kfn pgdir" and vf: "kfn v \<notin> pt_frames s pgdir"
    using inv by (auto simp: pt_inv_def pt_frames_def)
  have mt: "mem t g j = (if g = kfn pgdir \<and> j = ?d then ?w
      else if g = kfn v then 0 else mem s g j)" for g j
    using vd by (simp add: t set_word_def set_page_def)
  have pr: "present t pgdir i \<longleftrightarrow> i = ?d \<or> present s pgdir i" for i
    using vd new_pde(2) [OF hv] by (auto simp: present_def mt)
  have tf: "tab_frame t pgdir i = (if i = ?d then kfn v else tab_frame s pgdir i)" for i
    using vd new_pde(1) [OF hv] by (auto simp: tab_frame_def mt kfn_def)
  show "present t pgdir = (\<lambda>i. i = unat (PDX va) \<or> present s pgdir i)" by (simp add: pr fun_eq_iff)
  show "tab_frame t pgdir ?d = kfn v" by (simp add: tf)
  have fr: "pt_frames t pgdir = insert (kfn v) (pt_frames s pgdir)"
    using np by (auto simp: pt_frames_def pr tf image_iff)
  have nv: "tab_frame s pgdir i \<noteq> kfn v" if "present s pgdir i" "i < 1024" for i
    using vf tab_frame_in [OF that] by auto
  have wfs: "pt_wf s pgdir" using inv by (simp add: pt_inv_def)
  have wf: "pt_wf t pgdir"
    unfolding pt_wf_def
  proof (intro conjI allI impI inj_onI)
    fix i assume "i < 1024" "present t pgdir i"
    then show "tab_frame t pgdir i \<noteq> kfn pgdir"
      using wfs vd by (auto simp: pt_wf_def pr tf)
  next
    fix i j
    assume "i \<in> {i. i < 1024 \<and> present t pgdir i}" "j \<in> {i. i < 1024 \<and> present t pgdir i}"
      "tab_frame t pgdir i = tab_frame t pgdir j"
    then show "i = j"
      using wfs nv [of i] nv [of j] by (auto simp: pt_wf_def pr tf inj_on_def split: if_splits)
  qed
  have hp: "heap_page t = heap_page s"
    by (rule heap_page_cong) (simp add: t set_word_def set_page_def)
  have "pt_heap t pgdir"
    unfolding pt_heap_def hp
  proof (intro conjI allI impI)
    show "heap_page s pgdir" using inv by (simp add: pt_inv_def pt_heap_def)
    fix i assume i: "i < 1024" "present t pgdir i"
    show "heap_page s (P2V (PTE_ADDR (mem t (kfn pgdir) i)))"
    proof (cases "i = ?d")
      case True
      then have "mem t (kfn pgdir) i = ?w" by (simp add: mt)
      then show ?thesis using hv new_pde(1) [OF hv] by simp
    next
      case False
      then have "mem t (kfn pgdir) i = mem s (kfn pgdir) i" using vd by (simp add: mt)
      then show ?thesis using i False inv by (simp add: pt_inv_def pt_heap_def pr)
    qed
  qed
  moreover have "free_pages t vs"
  proof (rule free_pages_mem_cong [OF fp1])
    fix x assume x: "x \<in> set vs"
    then have "kfn x \<noteq> kfn pgdir"
      using pt_inv_free_frame [OF inv, of x] by auto
    with free_pages_kfn_distinct [OF fp x] show "mem t (kfn x) = mem ?s1 (kfn x)" by (auto simp: mt fun_eq_iff)
  qed (simp_all add: t set_word_def set_page_def)
  moreover have "kfn ` set vs \<inter> pt_frames t pgdir = {}"
  proof -
    have "kfn x \<notin> insert (kfn v) (pt_frames s pgdir)" if "x \<in> set vs" for x
      using pt_inv_free_frame [OF inv, of x] free_pages_kfn_distinct [OF fp that] that by simp
    then show ?thesis unfolding fr by blast
  qed
  ultimately have "pt_inv t pgdir vs" using wf by (simp add: pt_inv_def)
  moreover have "mem t g = mem s g" if "g \<notin> pt_frames t pgdir" for g
  proof -
    have "g \<noteq> kfn v" "g \<noteq> kfn pgdir" using that by (auto simp: fr)
    then show ?thesis by (simp add: mt fun_eq_iff)
  qed
  ultimately show "pt_grow pgdir s (v # vs) t vs"
    unfolding pt_grow_def
  proof (intro conjI)
    have "tables t pgdir = insert ?d (tables s pgdir)" "?d \<notin> tables s pgdir"
      using np by (auto simp: tables_def pr)
    then show "\<exists>us. v # vs = us @ vs \<and> pt_frames t pgdir = pt_frames s pgdir \<union> kfn ` set us \<and>
        card (tables t pgdir) = card (tables s pgdir) + length us"
      by (intro exI [of _ "[v]"]) (simp add: fr)
    show "use_lock t = use_lock s" "k_end t = k_end s" "k_data t = k_data s" "mm.more t = mm.more s"
      by (simp_all add: t set_word_def set_page_def)
  qed auto
  show "pte_val t pgdir = pte_val s pgdir"
  proof
    fix va'
    have "tab_frame s pgdir (unat (PDX va')) \<noteq> kfn v"
        "tab_frame s pgdir (unat (PDX va')) \<noteq> kfn pgdir" if "present s pgdir (unat (PDX va'))"
      using tab_frame_in [OF that] vf inv that by (auto simp: pt_inv_def pt_wf_def)
    then show "pte_val t pgdir va' = pte_val s pgdir va'"
      using np vd by (auto simp: pte_val_alt pr tf) (simp_all add: mt)
  qed
  show "refcounts t = refcounts s" by (simp add: t set_word_def set_page_def)
qed

lemma walkpgdir_alloc_cases:
  assumes inv: "pt_inv s pgdir vs" and w: "walkpgdir pgdir va True s = (r, t)"
  obtains (oom) "r = None" "t = s" "vs = []" "\<not> present s pgdir (unat (PDX va))"
  | (found) ws where "r = Some (tab_frame t pgdir (unat (PDX va)), unat (PTX va))"
      "present t pgdir = (\<lambda>i. i = unat (PDX va) \<or> present s pgdir i)" "pt_grow pgdir s vs t ws"
      "pte_val t pgdir = pte_val s pgdir" "refcounts t = refcounts s"
      "ws = (if present s pgdir (unat (PDX va)) then vs else tl vs)"
proof (cases "present s pgdir (unat (PDX va))")
  case True
  then have "r = Some (tab_frame s pgdir (unat (PDX va)), unat (PTX va))" "t = s"
    using w by (auto simp: walkpgdir_def present_def tab_frame_def Let_def)
  then show ?thesis
    using True inv by (intro found [of vs]) (auto simp: pt_grow_refl)
next
  case np: False
  show ?thesis
  proof (cases vs)
    case Nil
    then have "freelist s = 0" using inv by (simp add: pt_inv_def free_pages_def)
    then have "r = None" "t = s"
      using w np by (auto simp: walkpgdir_def present_def kalloc_simps Let_def)
    then show ?thesis using Nil np oom by blast
  next
    case (Cons v ws)
    with inv have "pt_inv s pgdir (v # ws)" by simp
    note n = walkpgdir_new_table [OF this np w]
    show ?thesis
      by (rule found [of ws]) (simp_all add: n Cons np)
  qed
qed

end
