(* ===== verification/Vm_Map.thy ===== *)
theory Vm_Map
  imports Vm_Tables
begin

section \<open>What mappages does to a page table\<close>

text \<open>
  \<open>map_range a k pa perm\<close> is the specification of mapping \<open>k\<close> pages from virtual address
  \<open>a\<close> to consecutive physical pages from \<open>pa\<close>; \<open>count_range\<close> is the effect on the
  reference counts.
\<close>

definition map_range :: "u32 \<Rightarrow> nat \<Rightarrow> u32 \<Rightarrow> u32 \<Rightarrow> (u32 \<Rightarrow> u32) \<Rightarrow> u32 \<Rightarrow> u32" where
  "map_range a k pa perm pt va =
     (if pfn a \<le> pfn va \<and> pfn va < pfn a + k
      then (pa + of_nat (4096 * (pfn va - pfn a))) OR perm OR PTE_P else pt va)"

definition count_range :: "bool \<Rightarrow> u32 \<Rightarrow> nat \<Rightarrow> (nat \<Rightarrow> u8) \<Rightarrow> nat \<Rightarrow> u8" where
  "count_range on pa k c i = (if on \<and> pfn pa \<le> i \<and> i < pfn pa + k then c i + 1 else c i)"

lemma range_0 [simp]: "map_range a 0 pa perm pt = pt" "count_range on pa 0 c = c"
  by (auto simp: map_range_def count_range_def fun_eq_iff)

lemma pt_grow_wr:
  assumes inv: "pt_inv t pgdir ws" and p: "present t pgdir (unat (PDX va))"
  shows "pt_grow pgdir t ws (wr (tab_frame t pgdir (unat (PDX va)), unat (PTX va)) w t) ws"
proof -
  let ?f = "tab_frame t pgdir (unat (PDX va))"
  let ?u = "wr (?f, unat (PTX va)) w t"
  have wf: "pt_wf t pgdir" using inv by (simp add: pt_inv_def)
  note pw = pte_write [OF wf p refl, of w]
  have f: "?f \<in> pt_frames t pgdir" using p by (simp add: tab_frame_in)
  have ne: "?f \<noteq> kfn pgdir" using wf p by (simp add: pt_wf_def)
  have "free_pages ?u ws"
  proof (rule free_pages_mem_cong)
    show "free_pages t ws" using inv by (simp add: pt_inv_def)
    fix x assume "x \<in> set ws"
    then have "kfn x \<noteq> ?f" using pt_inv_free_frame [OF inv] f by metis
    then show "mem ?u (kfn x) = mem t (kfn x)" by (auto simp: mem_wr)
  qed (simp_all add: wr_frame)
  moreover have "pt_heap ?u pgdir"
  proof -
    have "heap_page ?u = heap_page t" by (rule heap_page_cong) (simp add: wr_frame)
    moreover have "mem ?u (kfn pgdir) = mem t (kfn pgdir)" using ne by (auto simp: mem_wr)
    ultimately show ?thesis using inv by (simp add: pt_inv_def pt_heap_def pw)
  qed
  moreover have "mem ?u g = mem t g" if "g \<notin> pt_frames t pgdir" for g
    using that f by (auto simp: mem_wr)
  moreover have "tables ?u pgdir = tables t pgdir" by (simp add: tables_def pw)
  ultimately show ?thesis
    using inv pw by (auto simp: pt_grow_def pt_inv_def wr_frame)
qed

lemma pt_grow_increment:
  assumes "pt_inv t pgdir ws"
  shows "pt_grow pgdir t ws (increment_refcount pa t) ws"
    and "pte_val (increment_refcount pa t) pgdir = pte_val t pgdir"
    and "present (increment_refcount pa t) pgdir = present t pgdir"
proof -
  let ?u = "increment_refcount pa t"
  have m: "mem ?u = mem t" by (simp add: increment_frame)
  note c = pt_mem_cong [of t pgdir ?u, unfolded m, OF refl]
  have h: "heap_page ?u = heap_page t" by (rule heap_page_cong) (simp add: increment_frame)
  have "free_pages ?u ws"
    using assms by (auto simp: pt_inv_def increment_frame intro: free_pages_mem_cong)
  then show "pt_grow pgdir t ws ?u ws"
    using assms by (auto simp: pt_grow_def pt_inv_def pt_heap_def tables_def c h m increment_frame)
  show "pte_val ?u pgdir = pte_val t pgdir" "present ?u pgdir = present t pgdir" by (rule c)+
qed

lemma pt_grow_inv: "pt_grow pgdir s vs t ws \<Longrightarrow> pt_inv t pgdir ws"
  by (simp add: pt_grow_def)

lemma refcounts_increment:
  "refcounts (increment_refcount pa s) =
     (if use_lock s then (refcounts s)(pfn pa := refcounts s (pfn pa) + 1) else refcounts s)"
  by (simp add: increment_refcount_def va2idx_pfn)

text \<open>One iteration of the loop that finds a free entry.\<close>

lemma map_one:
  assumes inv: "pt_inv s pgdir vs" and w: "walkpgdir pgdir a True s = (Some pte, s1)"
    and t: "t = increment_refcount pa (wr pte (pa OR perm OR PTE_P) s1)"
  shows "\<exists>ws. pt_grow pgdir s vs t ws"
    and "rd pte s1 = pte_val s pgdir a"
    and "pte_val t pgdir =
           (\<lambda>va. if pfn va = pfn a then pa OR perm OR PTE_P else pte_val s pgdir va)"
    and "refcounts t =
           (if use_lock s then (refcounts s)(pfn pa := refcounts s (pfn pa) + 1) else refcounts s)"
    and "present t pgdir = (\<lambda>i. i = unat (PDX a) \<or> present s pgdir i)"
proof -
  obtain ws where pte: "pte = (tab_frame s1 pgdir (unat (PDX a)), unat (PTX a))"
    and p1: "present s1 pgdir = (\<lambda>i. i = unat (PDX a) \<or> present s pgdir i)" and g1: "pt_grow pgdir s vs s1 ws"
    and v1: "pte_val s1 pgdir = pte_val s pgdir" and r1: "refcounts s1 = refcounts s"
  proof (cases rule: walkpgdir_alloc_cases [OF inv w])
    case (2 ws)
    then show ?thesis by (intro that [of ws]) simp_all
  qed simp
  note i1 = pt_grow_inv [OF g1]
  have p: "present s1 pgdir (unat (PDX a))" by (simp add: p1)
  let ?s2 = "wr pte (pa OR perm OR PTE_P) s1"
  have g2: "pt_grow pgdir s1 ws ?s2 ws"
    using pt_grow_wr [OF i1 p] by (simp add: pte)
  note g3 = pt_grow_increment [OF pt_grow_inv [OF g2], of pa]
  show "\<exists>ws. pt_grow pgdir s vs t ws"
    using pt_grow_trans [OF pt_grow_trans [OF g1 g2] g3(1)] t by blast
  show "rd pte s1 = pte_val s pgdir a"
    using rd_walk [OF p] v1 by (simp add: pte)
  have wf1: "pt_wf s1 pgdir" using i1 by (simp add: pt_inv_def)
  show "pte_val t pgdir =
      (\<lambda>va. if pfn va = pfn a then pa OR perm OR PTE_P else pte_val s pgdir va)"
    using g3(2) pte_write(5) [OF wf1 p refl, of "pa OR perm OR PTE_P"] v1
    by (simp add: t pte fun_eq_iff)
  show "refcounts t =
      (if use_lock s then (refcounts s)(pfn pa := refcounts s (pfn pa) + 1) else refcounts s)"
    using g1 by (simp add: t refcounts_increment wr_frame r1 pt_grow_def)
  show "present t pgdir = (\<lambda>i. i = unat (PDX a) \<or> present s pgdir i)"
    using g3(3) pte_write(1) [OF wf1 p refl, of "pa OR perm OR PTE_P"] by (simp add: t pte p1)
qed

lemma walk_None_oom:
  "pt_inv s pgdir vs \<Longrightarrow> walkpgdir pgdir a True s = (None, s1) \<Longrightarrow>
     s1 = s \<and> vs = [] \<and> \<not> present s pgdir (unat (PDX a))"
  by (erule (1) walkpgdir_alloc_cases) auto

subsection \<open>Page arithmetic of the loop\<close>

lemma pfn_add_page:
  "unat a + 4096 < 4294967296 \<Longrightarrow> pfn (a + PGSIZE) = Suc (pfn a)"
  by (simp add: pfn_def unat_plus_if_size word_size)

lemma unat_add_page: "unat a + 4096 < 4294967296 \<Longrightarrow> unat (a + PGSIZE) = unat a + 4096"
  by (simp add: unat_plus_if_size word_size)

lemma pg_aligned_add_page [simp]: "pg_aligned a \<Longrightarrow> pg_aligned (a + PGSIZE)"
proof -
  have "unat (a + PGSIZE) mod 4096 = (unat a + 4096) mod 2 ^ 32 mod 4096"
    by (simp add: unat_word_ariths)
  also have "\<dots> = (unat a + 4096) mod 4096"
    by (simp add: mod_mod_cancel)
  finally show "pg_aligned a \<Longrightarrow> pg_aligned (a + PGSIZE)" by (simp add: pg_aligned_def)
qed

lemma map_range_Suc:
  assumes "unat a + 4096 < 4294967296"
  shows "map_range (a + PGSIZE) k (pa + PGSIZE) perm
           (\<lambda>va. if pfn va = pfn a then pa OR perm OR PTE_P else pt va)
         = map_range a (Suc k) pa perm pt"
proof
  fix va
  have "pfn (a + PGSIZE) = Suc (pfn a)" using assms by (rule pfn_add_page)
  moreover have "pa + PGSIZE + of_nat (4096 * (pfn va - Suc (pfn a))) =
      pa + of_nat (4096 * (pfn va - pfn a))" if le: "Suc (pfn a) \<le> pfn va"
  proof -
    obtain j where "pfn va = Suc (pfn a) + j" using le_Suc_ex [OF le] by blast
    then show ?thesis by (simp add: Suc_diff_le algebra_simps)
  qed
  ultimately show "map_range (a + PGSIZE) k (pa + PGSIZE) perm
        (\<lambda>va. if pfn va = pfn a then pa OR perm OR PTE_P else pt va) va
      = map_range a (Suc k) pa perm pt va"
    by (auto simp: map_range_def)
qed

lemma count_range_Suc:
  assumes "unat pa + 4096 < 4294967296"
  shows "count_range on (pa + PGSIZE) k (if on then c(pfn pa := c (pfn pa) + 1) else c)
         = count_range on pa (Suc k) c"
  by (auto simp: count_range_def fun_eq_iff pfn_add_page [OF assms])

subsection \<open>The loop\<close>

text \<open>
  The result of mapping \<open>Suc n\<close> pages: all of them (return value 0), or the first \<open>k\<close> when
  the free list ran out for the page table of the next one (return value -1).
\<close>

definition mapped_upto ::
  "u32 \<Rightarrow> u32 \<Rightarrow> nat \<Rightarrow> u32 \<Rightarrow> u32 \<Rightarrow> 'z mm_scheme \<Rightarrow> u32 list \<Rightarrow> int \<Rightarrow> 'z mm_scheme \<Rightarrow> bool" where
  "mapped_upto pgdir a n pa perm s vs r t \<longleftrightarrow>
     (\<exists>ws k. pt_grow pgdir s vs t ws \<and>
        (r = 0 \<and> k = Suc n \<or>
         r = -1 \<and> k \<le> n \<and> ws = [] \<and> \<not> present t pgdir ((pfn a + k) div 1024)) \<and>
        pte_val t pgdir = map_range a k pa perm (pte_val s pgdir) \<and>
        refcounts t = count_range (use_lock s) pa k (refcounts s) \<and>
        (\<forall>i. present t pgdir i \<longrightarrow>
           present s pgdir i \<or> pfn a div 1024 \<le> i \<and> i \<le> (pfn a + n) div 1024))"

lemma PDX_pfn: "unat (PDX a) = pfn a div 1024"
  by (simp add: unat_PDX pfn_def div_mult2_eq [symmetric])

lemma mapped_upto_oom:
  assumes "pt_inv s pgdir vs" and "walkpgdir pgdir a True s = (None, s1)"
  shows "mappages_loop pgdir a lastp pa perm s = Ret (-1) s"
    and "mapped_upto pgdir a n pa perm s vs (-1) s"
  using walk_None_oom [OF assms] assms
  by (auto simp: mappages_loop.simps [of pgdir a] mapped_upto_def PDX_pfn pt_grow_refl
      intro!: exI [of _ "[]"] exI [of _ 0])

lemma mapped_upto_one:
  assumes "pt_inv s pgdir vs" and "walkpgdir pgdir a True s = (Some pte, s1)"
  shows "mapped_upto pgdir a 0 pa perm s vs 0
           (increment_refcount pa (wr pte (pa OR perm OR PTE_P) s1))" (is "mapped_upto _ _ _ _ _ _ _ _ ?t")
proof -
  note m = map_one [OF assms refl [of ?t]]
  have "pte_val ?t pgdir = map_range a (Suc 0) pa perm (pte_val s pgdir)"
    by (auto simp: m(3) map_range_def fun_eq_iff)
  moreover have "refcounts ?t = count_range (use_lock s) pa (Suc 0) (refcounts s)"
    by (auto simp: m(4) count_range_def fun_eq_iff)
  ultimately show ?thesis using m(1) by (auto simp: mapped_upto_def m(5) PDX_pfn)
qed

lemma mapped_upto_step:
  assumes g: "pt_grow pgdir s vs t ws" and a1: "unat a + 4096 < 4294967296"
    and p1: "unat pa + 4096 < 4294967296"
    and v: "pte_val t pgdir =
           (\<lambda>va. if pfn va = pfn a then pa OR perm OR PTE_P else pte_val s pgdir va)"
    and c: "refcounts t =
           (if use_lock s then (refcounts s)(pfn pa := refcounts s (pfn pa) + 1) else refcounts s)"
    and pr: "present t pgdir = (\<lambda>i. i = unat (PDX a) \<or> present s pgdir i)"
    and ih: "mapped_upto pgdir (a + PGSIZE) n (pa + PGSIZE) perm t ws r u"
  shows "mapped_upto pgdir a (Suc n) pa perm s vs r u"
proof -
  have pa: "pfn (a + PGSIZE) = Suc (pfn a)" using a1 by (rule pfn_add_page)
  obtain ws' k where k: "pt_grow pgdir t ws u ws'"
      "r = 0 \<and> k = Suc n \<or>
       r = -1 \<and> k \<le> n \<and> ws' = [] \<and> \<not> present u pgdir ((Suc (pfn a) + k) div 1024)"
      "pte_val u pgdir = map_range (a + PGSIZE) k (pa + PGSIZE) perm (pte_val t pgdir)"
      "refcounts u = count_range (use_lock t) (pa + PGSIZE) k (refcounts t)"
      "\<And>i. present u pgdir i \<Longrightarrow> present t pgdir i \<or>
         Suc (pfn a) div 1024 \<le> i \<and> i \<le> (Suc (pfn a) + n) div 1024"
    using ih unfolding mapped_upto_def pa by blast
  have "use_lock t = use_lock s" using g by (simp add: pt_grow_def)
  then have "refcounts u = count_range (use_lock s) pa (Suc k) (refcounts s)"
    using k(4) count_range_Suc [OF p1, of "use_lock s" k "refcounts s"] by (simp add: c)
  moreover have "pte_val u pgdir = map_range a (Suc k) pa perm (pte_val s pgdir)"
    using k(3) map_range_Suc [OF a1, of k pa perm "pte_val s pgdir"] by (simp add: v)
  moreover have "pt_grow pgdir s vs u ws'" using g k(1) by (rule pt_grow_trans)
  moreover have "present s pgdir i \<or> pfn a div 1024 \<le> i \<and> i \<le> (pfn a + Suc n) div 1024"
    if "present u pgdir i" for i
  proof -
    have "pfn a div 1024 \<le> Suc (pfn a) div 1024" "pfn a div 1024 \<le> (pfn a + Suc n) div 1024"
      by (simp_all add: div_le_mono)
    then show ?thesis using k(5) [OF that] by (auto simp: pr PDX_pfn)
  qed
  ultimately show ?thesis
    using k(2) unfolding mapped_upto_def
    by (intro exI [of _ ws'] exI [of _ "Suc k"]) auto
qed

lemma mappages_loop_spec:
  assumes "pt_inv s pgdir vs" and "lastp = a + of_nat (4096 * n)"
    and "unat a + 4096 * n < 4294967296" and "unat pa + 4096 * n < 4294967296"
    and "\<And>va. pfn a \<le> pfn va \<Longrightarrow> pfn va \<le> pfn a + n \<Longrightarrow> \<not> has (pte_val s pgdir va) PTE_P"
  shows "\<exists>r t. mappages_loop pgdir a lastp pa perm s = Ret r t \<and>
           mapped_upto pgdir a n pa perm s vs r t"
  using assms
proof (induction n arbitrary: s vs a pa)
  case 0
  obtain p s1 where w: "walkpgdir pgdir a True s = (p, s1)" by fastforce
  show ?case
  proof (cases p)
    case None
    then show ?thesis using mapped_upto_oom [OF 0(1)] w by blast
  next
    case (Some pte)
    let ?t = "increment_refcount pa (wr pte (pa OR perm OR PTE_P) s1)"
    note w' = w [unfolded Some]
    have "\<not> has (rd pte s1) PTE_P"
      using 0(5) [of a] map_one(2) [OF 0(1) w' refl] by simp
    then have "mappages_loop pgdir a lastp pa perm s = Ret 0 ?t"
      using w' 0 by (simp add: mappages_loop.simps [of pgdir a] Let_def)
    then show ?thesis using mapped_upto_one [OF 0(1) w'] by blast
  qed
next
  case (Suc n)
  have a1: "unat a + 4096 < 4294967296" and p1: "unat pa + 4096 < 4294967296"
    using Suc.prems by simp_all
  obtain p s1 where w: "walkpgdir pgdir a True s = (p, s1)" by fastforce
  show ?case
  proof (cases p)
    case None
    then show ?thesis using mapped_upto_oom [OF Suc.prems(1)] w by blast
  next
    case (Some pte)
    let ?t = "increment_refcount pa (wr pte (pa OR perm OR PTE_P) s1)"
    note w' = w [unfolded Some]
    note m = map_one [OF Suc.prems(1) w' refl [of ?t]]
    obtain ws where g: "pt_grow pgdir s vs ?t ws" using m(1) by blast
    have np: "\<not> has (rd pte s1) PTE_P" using Suc.prems(5) [of a] m(2) by simp
    have d: "lastp - a = of_nat (4096 * Suc n)" using Suc.prems by simp
    have ud: "unat (lastp - a) = 4096 * Suc n"
      unfolding d unat_of_nat using Suc.prems(3) by simp
    then have "a \<noteq> lastp" "pg_aligned (lastp - a)" by (auto simp: pg_aligned_def)
    then have eq: "mappages_loop pgdir a lastp pa perm s =
        mappages_loop pgdir (a + PGSIZE) lastp (pa + PGSIZE) perm ?t"
      using w' np by (subst mappages_loop.simps) (simp add: Let_def)
    have np': "\<not> has (pte_val ?t pgdir va) PTE_P"
      if "pfn (a + PGSIZE) \<le> pfn va" "pfn va \<le> pfn (a + PGSIZE) + n" for va
      using that Suc.prems(5) [of va] by (simp add: m(3) pfn_add_page [OF a1])
    have "\<exists>r u. mappages_loop pgdir (a + PGSIZE) lastp (pa + PGSIZE) perm ?t = Ret r u \<and>
        mapped_upto pgdir (a + PGSIZE) n (pa + PGSIZE) perm ?t ws r u"
      using Suc.prems np' by (intro Suc.IH [OF pt_grow_inv [OF g]])
        (simp_all add: unat_add_page [OF a1] unat_add_page [OF p1] algebra_simps)
    then show ?thesis
      using mapped_upto_step [OF g a1 p1 m(3,4,5)] eq by metis
  qed
qed

end
