(* ===== verification/Vm_Kernel.thy ===== *)
theory Vm_Kernel
  imports Vm_Map
begin

section \<open>The kernel half of every address space\<close>

text \<open>
  \<open>mappages\<close> on whole pages, and the result of \<open>setupkvm\<close>: the map documented above
  \<open>kmap\<close> in \<open>vm.c\<close>, and the reference counts it leaves.
\<close>

lemma unat_plus_of_nat:
  "unat a + n < 4294967296 \<Longrightarrow> unat (a + of_nat n :: u32) = unat a + n"
  by (simp add: unat_word_ariths unat_of_nat mod_add_right_eq)

lemma mappages_pages:
  assumes "pg_aligned va" and "unat va + 4096 * Suc n \<le> 4294967296" and "sz = of_nat (4096 * Suc n)"
  shows "mappages pgdir va sz pa perm s =
           mappages_loop pgdir va (va + of_nat (4096 * n)) pa perm s"
proof -
  have "va + sz - 1 = va + of_nat (4096 * n + 4095)"
    using assms(3) by simp
  moreover have "unat (va + of_nat (4096 * n + 4095) :: u32) = unat va + (4096 * n + 4095)"
    using assms(2) by (intro unat_plus_of_nat) simp
  moreover have "(unat va + (4096 * n + 4095)) mod 4096 = 4095"
  proof -
    obtain q where "unat va = 4096 * q"
      using assms(1) by (auto simp: pg_aligned_def mod_eq_0_iff_dvd)
    then have "unat va + (4096 * n + 4095) = 4095 + 4096 * (q + n)" by simp
    then show ?thesis by (simp only: mod_mult_self2) simp
  qed
  ultimately have "unat (PGROUNDDOWN (va + sz - 1)) = unat va + 4096 * n"
    by (simp only: unat_PGROUNDDOWN)
  moreover have "unat (va + of_nat (4096 * n)) = unat va + 4096 * n"
    using assms(2) by (intro unat_plus_of_nat) simp
  ultimately have "PGROUNDDOWN (va + sz - 1) = va + of_nat (4096 * n)"
    by (simp add: word_unat_eq_iff)
  then show ?thesis by (simp add: mappages_def PGROUNDDOWN_id [OF assms(1)])
qed

theorem mappages_spec:
  assumes "pt_inv s pgdir vs" and "pg_aligned va" and "sz = of_nat (4096 * Suc n)"
    and "unat va + 4096 * Suc n \<le> 4294967296" and "unat pa + 4096 * n < 4294967296"
    and "\<And>va'. pfn va \<le> pfn va' \<Longrightarrow> pfn va' \<le> pfn va + n \<Longrightarrow> \<not> has (pte_val s pgdir va') PTE_P"
  shows "\<exists>r t. mappages pgdir va sz pa perm s = Ret r t \<and> mapped_upto pgdir va n pa perm s vs r t"
proof -
  have "unat va + 4096 * n < 4294967296" using assms(4) by simp
  then have "\<exists>r t. mappages_loop pgdir va (va + of_nat (4096 * n)) pa perm s = Ret r t \<and>
      mapped_upto pgdir va n pa perm s vs r t"
    using assms(5,6) by (intro mappages_loop_spec [OF assms(1) refl]) auto
  then show ?thesis by (simp only: mappages_pages [OF assms(2,4,3)])
qed

text \<open>Mapping over a present page is a panic.\<close>

lemma mappages_remap:
  assumes "pg_aligned va" and p: "has (pte_val s pgdir va) PTE_P"
  shows "mappages pgdir va sz pa perm s = Panic ''remap''"
proof -
  have "present s pgdir (unat (PDX va))"
    using p by (cases "present s pgdir (unat (PDX va))") (auto simp: not_present_pte_val)
  then have "walkpgdir pgdir va True s =
      (Some (tab_frame s pgdir (unat (PDX va)), unat (PTX va)), s)"
    by (simp add: walkpgdir_def present_def tab_frame_def Let_def)
  then show ?thesis
    using p rd_walk [of s pgdir va] \<open>present s pgdir (unat (PDX va))\<close>
    by (simp add: mappages_def PGROUNDDOWN_id [OF assms(1)] mappages_loop.simps [of pgdir va])
qed

subsection \<open>Enough memory for page tables\<close>

text \<open>
  If the free list and the tables already present together cover the directory slots \<open>K\<close>
  that a range falls in, mapping the range cannot run out of memory.
\<close>

lemma mapped_upto_enough:
  assumes m: "mapped_upto pgdir va n pa perm s vs r t" and "finite K"
    and tK: "tables s pgdir \<subseteq> K" and K: "K \<subseteq> {..<1024}"
    and rK: "{pfn va div 1024 .. (pfn va + n) div 1024} \<subseteq> K"
    and c: "card K \<le> card (tables s pgdir) + length vs"
  shows "r = 0 \<and> tables t pgdir \<subseteq> K \<and>
     (\<exists>ws. pt_grow pgdir s vs t ws \<and> card K \<le> card (tables t pgdir) + length ws) \<and>
     pte_val t pgdir = map_range va (Suc n) pa perm (pte_val s pgdir) \<and>
     refcounts t = count_range (use_lock s) pa (Suc n) (refcounts s)"
proof -
  obtain ws k where k: "pt_grow pgdir s vs t ws"
      "r = 0 \<and> k = Suc n \<or>
       r = -1 \<and> k \<le> n \<and> ws = [] \<and> \<not> present t pgdir ((pfn va + k) div 1024)"
      "pte_val t pgdir = map_range va k pa perm (pte_val s pgdir)"
      "refcounts t = count_range (use_lock s) pa k (refcounts s)"
      "\<And>i. present t pgdir i \<Longrightarrow>
         present s pgdir i \<or> pfn va div 1024 \<le> i \<and> i \<le> (pfn va + n) div 1024"
    using m unfolding mapped_upto_def by (elim exE conjE) (rule that, assumption+, blast)
  obtain us where us: "vs = us @ ws" "card (tables t pgdir) = card (tables s pgdir) + length us"
    using k(1) unfolding pt_grow_def by (elim exE conjE) (rule that)
  have sub: "tables t pgdir \<subseteq> K"
  proof
    fix i assume "i \<in> tables t pgdir"
    then have "i \<in> tables s pgdir \<or> i \<in> {pfn va div 1024 .. (pfn va + n) div 1024}"
      using k(5) [of i] by (simp add: tables_def)
    then show "i \<in> K" using tK rK by blast
  qed
  have "r = 0 \<and> k = Suc n"
  proof (rule ccontr)
    assume "\<not> (r = 0 \<and> k = Suc n)"
    with k(2) have f: "k \<le> n" "ws = []" "\<not> present t pgdir ((pfn va + k) div 1024)" by auto
    then have "card K \<le> card (tables t pgdir)" using us c by simp
    then have "tables t pgdir = K" using sub \<open>finite K\<close> by (simp add: card_seteq)
    moreover have "(pfn va + k) div 1024 \<in> {pfn va div 1024 .. (pfn va + n) div 1024}"
      using f(1) by (simp add: div_le_mono)
    ultimately have "(pfn va + k) div 1024 \<in> tables t pgdir" using rK by blast
    then show False using f(3) by (simp add: tables_def)
  qed
  moreover have "card K \<le> card (tables t pgdir) + length ws" using us c by simp
  ultimately show ?thesis using k sub by blast
qed

subsection \<open>setupkvm\<close>

text \<open>
  What \<open>kernel.ld\<close> guarantees about \<open>data\<close>: it is page aligned, above \<open>KERNLINK\<close> and below
  the end of physical memory.
\<close>

definition data_ok :: "'z mm_scheme \<Rightarrow> bool" where
  "data_ok s \<longleftrightarrow> pg_aligned (k_data s) \<and> KERNLINK < k_data s \<and> k_data s < P2V PHYSTOP"

text \<open>The entry that the comment above \<open>kmap\<close> promises for each virtual address.\<close>

definition kernel_pte :: "u32 \<Rightarrow> u32 \<Rightarrow> u32" where
  "kernel_pte data va =
     (if va < KERNBASE then 0
      else if va < P2V PHYSTOP
      then V2P (PGROUNDDOWN va) OR (if KERNLINK \<le> va \<and> va < data then 0 else PTE_W) OR PTE_P
      else if va < DEVSPACE then 0
      else PGROUNDDOWN va OR PTE_W OR PTE_P)"

definition kernel_frame :: "nat \<Rightarrow> bool" where
  "kernel_frame i \<longleftrightarrow> i < 0xE000 \<or> 0xFE000 \<le> i \<and> i < 0x100000"

lemma aligned_plus_pages:
  assumes "pg_aligned a" and "pfn a \<le> pfn va"
  shows "a + of_nat (4096 * (pfn va - pfn a)) = PGROUNDDOWN va"
proof -
  have "unat va = 4096 * pfn va + unat va mod 4096" by (simp add: pfn_def)
  moreover have a: "unat a = 4096 * pfn a"
    using assms(1) by (simp add: pfn_def pg_aligned_def mod_eq_0_iff_dvd)
  ultimately have le: "unat a + 4096 * (pfn va - pfn a) = unat va - unat va mod 4096"
    using assms(2) by simp
  have "unat a + 4096 * (pfn va - pfn a) < 4294967296"
    using le unat_lt32 [of va] by linarith
  then have "unat (a + of_nat (4096 * (pfn va - pfn a))) = unat (PGROUNDDOWN va)"
    using le by (simp only: unat_plus_of_nat unat_PGROUNDDOWN)
  then show ?thesis by (simp only: word_unat_eq_iff)
qed

lemma V2P_plus: "V2P a + x = V2P (a + x)"
  by (simp add: V2P_def)

lemma pfn_le_iff: "pg_aligned a \<Longrightarrow> pfn a \<le> pfn va \<longleftrightarrow> unat a \<le> unat va"
proof -
  assume "pg_aligned a"
  then have a: "unat a = 4096 * pfn a"
    by (simp add: pfn_def pg_aligned_def mod_eq_0_iff_dvd)
  have "unat va = 4096 * pfn va + unat va mod 4096" "unat va mod 4096 < 4096"
    by (simp_all add: pfn_def)
  then show ?thesis using a by linarith
qed

lemma pfn_less_iff: "pfn va < m \<longleftrightarrow> unat va < 4096 * m"
  by (simp add: pfn_def less_mult_imp_div_less div_less_iff_less_mult mult.commute)

text \<open>The 64 directory slots of the kernel half.\<close>

definition KDIRS :: "nat set" where "KDIRS = {512..<568} \<union> {1016..<1024}"

lemma KDIRS_facts [simp]: "finite KDIRS" "card KDIRS = 64" "KDIRS \<subseteq> {..<1024}"
  by (simp_all add: KDIRS_def card_Un_disjoint) auto

lemma KDIRS_range:
  assumes "0x80000 \<le> a \<and> b < 0x8E000 \<or> 0xFE000 \<le> a \<and> b < 0x100000"
  shows "{a div 1024..b div 1024} \<subseteq> KDIRS"
proof
  fix x assume "x \<in> {a div 1024..b div 1024}"
  then have "a div 1024 \<le> x" "x \<le> b div 1024" by simp_all
  then show "x \<in> KDIRS" using assms by (auto simp: KDIRS_def)
qed

lemma kmap_row:
  assumes "pt_inv s d vs" and "tables s d \<subseteq> KDIRS" and "64 \<le> card (tables s d) + length vs"
    and "pg_aligned va" and "sz = of_nat (4096 * Suc n)" and "unat va + 4096 * Suc n \<le> 4294967296"
    and "unat pa + 4096 * n < 4294967296"
    and "{pfn va div 1024 .. (pfn va + n) div 1024} \<subseteq> KDIRS"
    and "\<And>va'. pfn va \<le> pfn va' \<Longrightarrow> pfn va' \<le> pfn va + n \<Longrightarrow> \<not> has (pte_val s d va') PTE_P"
  shows "\<exists>t ws. mappages d va sz pa perm s = Ret 0 t \<and> pt_grow d s vs t ws \<and>
           tables t d \<subseteq> KDIRS \<and> 64 \<le> card (tables t d) + length ws \<and>
           pte_val t d = map_range va (Suc n) pa perm (pte_val s d) \<and>
           refcounts t = count_range (use_lock s) pa (Suc n) (refcounts s)"
proof -
  obtain r t where rt: "mappages d va sz pa perm s = Ret r t" "mapped_upto d va n pa perm s vs r t"
    using mappages_spec [OF assms(1,4,5,6,7,9)] by blast
  have "card KDIRS \<le> card (tables s d) + length vs" using assms(3) by simp
  from mapped_upto_enough [OF rt(2) KDIRS_facts(1) assms(2) KDIRS_facts(3) assms(8) this] rt(1)
  show ?thesis by auto
qed

lemma fresh_dir:
  assumes "free_pages s (v # vs)"
  defines "t \<equiv> set_page (kfn v) (\<lambda>_. 0) (s\<lparr>freelist := mem s (kfn v) 0\<rparr>)"
  shows "pt_inv t v vs" "tables t v = {}" "pte_val t v = (\<lambda>_. 0)"
    "refcounts t = refcounts s" "use_lock t = use_lock s" "k_data t = k_data s" "k_end t = k_end s"
    "mm.more t = mm.more s" "\<And>g. g \<noteq> kfn v \<Longrightarrow> mem t g = mem s g" "pt_frames t v = {kfn v}"
proof -
  have z: "mem t (kfn v) i = 0" for i by (simp add: t_def set_page_def)
  then have np: "\<not> present t v i" for i by (simp add: present_def)
  then show "tables t v = {}" and fr: "pt_frames t v = {kfn v}"
    by (auto simp: tables_def pt_frames_def)
  show "pte_val t v = (\<lambda>_. 0)" by (auto simp: not_present_pte_val np)
  show "refcounts t = refcounts s" "use_lock t = use_lock s" "k_data t = k_data s"
    "k_end t = k_end s" "mm.more t = mm.more s"
    by (simp_all add: t_def set_page_def)
  show m: "mem t g = mem s g" if "g \<noteq> kfn v" for g using that by (simp add: t_def set_page_def)
  have "free_pages t vs"
    by (rule free_pages_mem_cong [OF free_pages_alloc(2) [OF assms(1)]])
       (use free_pages_kfn_distinct [OF assms(1)] in \<open>auto simp: t_def set_page_def\<close>)
  moreover have "heap_page t v"
    using assms(1) by (auto simp: free_pages_def heap_page_def t_def set_page_def)
  moreover have "kfn v \<notin> kfn ` set vs" using free_pages_kfn_distinct [OF assms(1)] by fastforce
  ultimately show "pt_inv t v vs"
    by (auto simp: pt_inv_def pt_wf_def pt_heap_def np fr)
qed

lemma kmap_pages:
  assumes "data_ok s"
  obtains nd where "0 < nd" "nd < 0xDF00" "unat (k_data s) = 0x80100000 + 4096 * nd"
    "pfn (k_data s) = 0x80100 + nd" "pfn (V2P (k_data s)) = 0x100 + nd"
    "unat (V2P (k_data s)) = 0x100000 + 4096 * nd"
proof -
  have b: "0x80100000 < unat (k_data s)" "unat (k_data s) < 0x8E000000"
    using assms by (simp_all add: data_ok_def word_less_nat_alt P2V_def)
  obtain q where q: "unat (k_data s) = 4096 * q"
    using assms by (auto simp: data_ok_def pg_aligned_def mod_eq_0_iff_dvd)
  with b have "524544 < q" "q < 581632" by simp_all
  then obtain nd where nd: "q = 524544 + nd" "0 < nd"
    by (metis less_imp_add_positive)
  have "unat (V2P (k_data s)) = unat (k_data s) - 0x80000000"
    using b by (simp add: unat_V2P word_le_nat_alt)
  then have "unat (V2P (k_data s)) = 4096 * (0x100 + nd)" using q nd by simp
  moreover have "unat (k_data s) = 4096 * (0x80100 + nd)" using q nd by simp
  ultimately show ?thesis
    using nd \<open>q < 581632\<close> by (intro that [of nd]) (simp_all only: pfn_def, simp_all)
qed

text \<open>The four rows, as \<open>map_range\<close> puts them into an empty directory.\<close>

definition kmap_ranges :: "u32 \<Rightarrow> nat \<Rightarrow> u32 \<Rightarrow> u32" where
  "kmap_ranges data nd =
     map_range DEVSPACE 8192 DEVSPACE PTE_W
      (map_range data (0xDF00 - nd) (V2P data) PTE_W
       (map_range KERNLINK nd EXTMEM 0
        (map_range KERNBASE 256 0 PTE_W (\<lambda>_. 0))))"

lemma kmap_ranges_kernel_pte:
  assumes d: "pg_aligned data" "pfn data = 0x80100 + nd" "nd < 0xDF00"
  shows "kmap_ranges data nd va = kernel_pte data va"
proof -
  have al: "pg_aligned KERNBASE" "pg_aligned KERNLINK" "pg_aligned DEVSPACE" "pg_aligned 0x8E000000"
    by (simp_all add: pg_aligned_def)
  have pf: "pfn KERNBASE = 0x80000" "pfn KERNLINK = 0x80100" "pfn DEVSPACE = 0xFE000"
      "pfn (0x8E000000 :: u32) = 0x8E000" "pfn va < 0x100000" "pfn (0 :: u32) = 0"
    by (simp_all add: pfn_def less_mult_imp_div_less)
  have cmp: "va < a \<longleftrightarrow> pfn va < pfn a" "a \<le> va \<longleftrightarrow> pfn a \<le> pfn va" if "pg_aligned a" for a
    using pfn_le_iff [OF that, of va] by (simp_all add: word_less_nat_alt word_le_nat_alt not_le [symmetric])
  have pl: "a + of_nat (4096 * (pfn va - pfn a)) = PGROUNDDOWN va"
    if "pg_aligned a" "pfn a \<le> pfn va" for a
    by (rule aligned_plus_pages [OF that])
  have v: "V2P a + of_nat (4096 * (pfn va - pfn a)) = V2P (PGROUNDDOWN va)"
    if "pg_aligned a" "pfn a \<le> pfn va" for a
    by (simp only: V2P_plus pl [OF that])
  have c: "P2V PHYSTOP = 0x8E000000" "V2P KERNBASE = 0" "V2P KERNLINK = EXTMEM"
    by (simp_all add: P2V_def V2P_def)
  note v1 = v [OF al(1), unfolded c] and v2 = v [OF al(2), unfolded c]
  note cmps = cmp [OF al(1)] cmp [OF al(2)] cmp [OF al(3)] cmp [OF al(4)] cmp [OF d(1)]
  consider "pfn va < 0x80000" | "0x80000 \<le> pfn va" "pfn va < 0x80100"
    | "0x80100 \<le> pfn va" "pfn va < 0x80100 + nd" | "0x80100 + nd \<le> pfn va" "pfn va < 0x8E000"
    | "0x8E000 \<le> pfn va" "pfn va < 0xFE000" | "0xFE000 \<le> pfn va"
    by linarith
  then show ?thesis
  proof cases
    case 1 then show ?thesis
      using d by (simp only: kmap_ranges_def kernel_pte_def map_range_def c cmps pf if_True if_False) simp
  next
    case 2 then show ?thesis
      using d v1 by (simp only: kmap_ranges_def kernel_pte_def map_range_def c cmps pf) (simp add: or.assoc)
  next
    case 3 then show ?thesis
      using d v2 by (simp only: kmap_ranges_def kernel_pte_def map_range_def c cmps pf) (simp add: or.assoc)
  next
    case 4 then show ?thesis
      using d v [OF d(1)] by (simp only: kmap_ranges_def kernel_pte_def map_range_def c cmps pf) (simp add: or.assoc)
  next
    case 5 then show ?thesis
      using d by (simp only: kmap_ranges_def kernel_pte_def map_range_def c cmps pf) simp
  next
    case 6 then show ?thesis
      using d pl [OF al(3)] pf(5) by (simp only: kmap_ranges_def kernel_pte_def map_range_def c cmps pf) (simp add: or.assoc pf(5))
  qed
qed

definition kmap_counts :: "bool \<Rightarrow> (nat \<Rightarrow> u8) \<Rightarrow> nat \<Rightarrow> u8" where
  "kmap_counts on c i = (if on \<and> kernel_frame i then c i + 1 else c i)"

lemma kmap_counts_rows:
  assumes "pfn pd = 0x100 + nd" "nd < 0xDF00"
  shows "count_range on DEVSPACE 8192 (count_range on pd (0xDF00 - nd)
     (count_range on EXTMEM nd (count_range on 0 256 c))) = kmap_counts on c"
proof
  fix i
  have "pfn DEVSPACE = 0xFE000" "pfn EXTMEM = 0x100" "pfn (0 :: u32) = 0" by (simp_all add: pfn_def)
  then show "count_range on DEVSPACE 8192 (count_range on pd (0xDF00 - nd)
     (count_range on EXTMEM nd (count_range on 0 256 c))) i = kmap_counts on c i"
    using assms by (auto simp: count_range_def kmap_counts_def kernel_frame_def)
qed

lemma setupkvm_rows:
  assumes inv: "pt_inv s d vs" and "tables s d = {}" and "pte_val s d = (\<lambda>_. 0)"
    and len: "64 \<le> length vs" and dok: "data_ok s"
  shows "\<exists>t ws. setupkvm_loop d (kmap s) s = Ret d t \<and> pt_grow d s vs t ws \<and>
           pte_val t d = kernel_pte (k_data s) \<and> refcounts t = kmap_counts (use_lock s) (refcounts s)"
proof -
  obtain nd where nd: "0 < nd" "nd < 0xDF00" "unat (k_data s) = 0x80100000 + 4096 * nd"
      "pfn (k_data s) = 0x80100 + nd" "pfn (V2P (k_data s)) = 0x100 + nd"
      "unat (V2P (k_data s)) = 0x100000 + 4096 * nd"
    by (rule kmap_pages [OF dok])
  obtain m where m: "nd = Suc m" using nd(1) by (cases nd) auto
  obtain k where k: "0xDF00 - nd = Suc k" using nd(2) by (cases "0xDF00 - nd") auto
  have al: "pg_aligned KERNBASE" "pg_aligned KERNLINK" "pg_aligned DEVSPACE" "pg_aligned (k_data s)"
    using dok by (simp_all add: pg_aligned_def data_ok_def)
  have pf: "pfn KERNBASE = 0x80000" "pfn KERNLINK = 0x80100" "pfn DEVSPACE = 0xFE000"
    by (simp_all add: pfn_def)
  have r1: "EXTMEM - 0 = (of_nat (4096 * Suc 255) :: u32)" by simp
  have r2: "V2P (k_data s) - V2P KERNLINK = of_nat (4096 * Suc m)"
    unfolding word_unat_eq_iff unat_of_nat
    using nd m by (simp add: unat_sub word_le_nat_alt V2P_def [of KERNLINK] del: of_nat_mult of_nat_Suc)
  have r3: "PHYSTOP - V2P (k_data s) = of_nat (4096 * Suc k)"
    unfolding word_unat_eq_iff unat_of_nat
    using nd k by (simp add: unat_sub word_le_nat_alt del: of_nat_mult of_nat_Suc)
  have r4: "0 - DEVSPACE = (of_nat (4096 * Suc 8191) :: u32)" by simp
  have e: "V2P KERNLINK = EXTMEM" by (simp add: V2P_def)
  have kd: "{512..(524544 + m) div 1024} \<subseteq> KDIRS"
      "{pfn (k_data s) div 1024..(pfn (k_data s) + k) div 1024} \<subseteq> KDIRS"
      "4096 * nd + 4096 * k \<le> 2146430976" "{1016..1023} \<subseteq> KDIRS"
    using KDIRS_range [of "0x80000" "524544 + m"] KDIRS_range [of "pfn (k_data s)" "pfn (k_data s) + k"]
      KDIRS_range [of "0xFE000" "0xFFFFF"] nd m k by simp_all
  obtain t1 w1 where t1: "mappages d KERNBASE (EXTMEM - 0) 0 PTE_W s = Ret 0 t1" "pt_grow d s vs t1 w1"
      "tables t1 d \<subseteq> KDIRS" "64 \<le> card (tables t1 d) + length w1"
      "pte_val t1 d = map_range KERNBASE 256 0 PTE_W (\<lambda>_. 0)"
      "refcounts t1 = count_range (use_lock s) 0 256 (refcounts s)"
    using kmap_row [OF inv _ _ al(1) r1, of 0 PTE_W] assms(2,3) len
    by (auto simp: pf KDIRS_def)
  obtain t2 w2 where t2: "mappages d KERNLINK (V2P (k_data s) - V2P KERNLINK) EXTMEM 0 t1 = Ret 0 t2"
      "pt_grow d t1 w1 t2 w2" "tables t2 d \<subseteq> KDIRS" "64 \<le> card (tables t2 d) + length w2"
      "pte_val t2 d = map_range KERNLINK nd EXTMEM 0 (pte_val t1 d)"
      "refcounts t2 = count_range (use_lock t1) EXTMEM nd (refcounts t1)"
    using kmap_row [OF pt_grow_inv [OF t1(2)] t1(3,4) al(2) r2, of EXTMEM 0] nd m kd
    by (auto simp: pf t1(5) map_range_def)
  obtain t3 w3 where t3: "mappages d (k_data s) (PHYSTOP - V2P (k_data s)) (V2P (k_data s)) PTE_W t2 = Ret 0 t3"
      "pt_grow d t2 w2 t3 w3" "tables t3 d \<subseteq> KDIRS" "64 \<le> card (tables t3 d) + length w3"
      "pte_val t3 d = map_range (k_data s) (0xDF00 - nd) (V2P (k_data s)) PTE_W (pte_val t2 d)"
      "refcounts t3 = count_range (use_lock t2) (V2P (k_data s)) (0xDF00 - nd) (refcounts t2)"
    using kmap_row [OF pt_grow_inv [OF t2(2)] t2(3,4) al(4) r3, of "V2P (k_data s)" PTE_W] nd k kd
    by (auto simp: pf t1(5) t2(5) map_range_def)
  have n3: "pte_val t3 d va' = 0" if "1040384 \<le> pfn va'" for va'
    using nd that by (simp add: t3(5) t2(5) t1(5) map_range_def pf)
  obtain t4 w4 where t4: "mappages d DEVSPACE (0 - DEVSPACE) DEVSPACE PTE_W t3 = Ret 0 t4"
      "pt_grow d t3 w3 t4 w4"
      "pte_val t4 d = map_range DEVSPACE 8192 DEVSPACE PTE_W (pte_val t3 d)"
      "refcounts t4 = count_range (use_lock t3) DEVSPACE 8192 (refcounts t3)"
    using kmap_row [OF pt_grow_inv [OF t3(2)] t3(3,4) al(3) r4, of DEVSPACE PTE_W] kd(4) n3
    by (auto simp: pf)
  have "setupkvm_loop d (kmap s) s = Ret d t4"
    using t1(1) t2(1) t3(1) t4(1) by (simp add: kmap_def e)
  moreover have "pt_grow d s vs t4 w4"
    by (rule pt_grow_trans [OF t1(2) pt_grow_trans [OF t2(2) pt_grow_trans [OF t3(2) t4(2)]]])
  moreover have "pte_val t4 d = kernel_pte (k_data s)"
    using kmap_ranges_kernel_pte [OF al(4) nd(4,2)]
    by (auto simp: t1 t2 t3 t4 kmap_ranges_def fun_eq_iff)
  moreover have "refcounts t4 = kmap_counts (use_lock s) (refcounts s)"
    using t1(2) t2(2) t3(2) unfolding t4(4) t3(6) t2(6) t1(6)
    by (simp add: pt_grow_def kmap_counts_rows [OF nd(5,2)])
  ultimately show ?thesis by blast
qed

theorem setupkvm_spec:
  assumes "free_pages s vs" and "65 \<le> length vs" and "data_ok s"
  shows "\<exists>t ws. setupkvm s = Ret (hd vs) t \<and> pt_inv t (hd vs) ws \<and>
           pte_val t (hd vs) = kernel_pte (k_data s) \<and>
           refcounts t = kmap_counts (use_lock s) (refcounts s) \<and>
           (\<exists>us. tl vs = us @ ws \<and> pt_frames t (hd vs) = kfn ` set (hd vs # us)) \<and>
           (\<forall>g. g \<notin> pt_frames t (hd vs) \<longrightarrow> mem t g = mem s g) \<and>
           use_lock t = use_lock s \<and> k_end t = k_end s \<and> k_data t = k_data s \<and> mm.more t = mm.more s"
proof -
  obtain v us where vs: "vs = v # us" using assms(2) by (cases vs) auto
  let ?s = "set_page (kfn v) (\<lambda>_. 0) (s\<lparr>freelist := mem s (kfn v) 0\<rparr>)"
  note f = fresh_dir [OF assms(1) [unfolded vs]]
  have "data_ok ?s" using assms(3) by (simp add: data_ok_def f)
  then obtain t ws where t: "setupkvm_loop v (kmap ?s) ?s = Ret v t" "pt_grow v ?s us t ws"
      "pte_val t v = kernel_pte (k_data s)" "refcounts t = kmap_counts (use_lock s) (refcounts s)"
    using setupkvm_rows [OF f(1) f(2) f(3)] assms(2) by (auto simp: vs f)
  have "v \<noteq> 0" using assms(1) by (auto simp: vs free_pages_def)
  then have "setupkvm s = Ret v t"
    using t(1) free_pages_alloc(1) [OF assms(1) [unfolded vs]] by (simp add: setupkvm_def P2V_def)
  moreover have "\<forall>g. g \<notin> pt_frames t v \<longrightarrow> mem t g = mem s g"
  proof (intro allI impI)
    fix g assume g: "g \<notin> pt_frames t v"
    then have "g \<noteq> kfn v" by (auto simp: pt_frames_def)
    with g t(2) f(9) show "mem t g = mem s g" by (auto simp: pt_grow_def)
  qed
  ultimately show ?thesis
    using t(2-4) by (auto simp: vs pt_grow_def f)
qed

end
