(* ===== verification/Mem_Props.thy ===== *)
theory Mem_Props
  imports Vm_Kernel
begin

section \<open>Properties of the allocator and of the kernel mapping\<close>

text \<open>
  The statements about kalloc.c and vm.c that the rest of the kernel relies on, as
  consequences of the component lemmas, each with an instance at a machine state that the
  boot code produces.
\<close>

subsection \<open>A booted machine\<close>

definition boot_mm :: mm where
  "boot_mm = \<lparr>mem = (\<lambda>_ _. 0), use_lock = False, freelist = 0, refcounts = (\<lambda>_. 0),
              k_end = 0x80110000, k_data = 0x80108000\<rparr>"

lemma boot_free_pages: "free_pages boot_mm []"
  by (simp add: free_pages_def boot_mm_def)

lemma PGROUNDUP_aligned: "pg_aligned (PGROUNDUP a)"
proof -
  have "unat (PGROUNDUP a) = (unat (a + 0xFFF) div 4096) * 4096"
    using unat_PGROUNDDOWN [of "a + 0xFFF"]
    by (simp add: PGROUNDUP_def PGROUNDDOWN_def minus_mod_eq_div_mult algebra_simps)
  then show ?thesis by (simp add: pg_aligned_def)
qed

lemma freerange_fills:
  assumes "free_pages s vs" and "k_end s \<le> PGROUNDUP vstart" and "KERNBASE \<le> PGROUNDUP vstart"
    and "PGROUNDUP vstart \<le> vend" and "vend \<le> P2V PHYSTOP"
    and "n = (unat vend - unat (PGROUNDUP vstart)) div 4096"
    and "set (pages_from (PGROUNDUP vstart) n) \<inter> set vs = {}"
  shows "\<exists>t. freerange vstart vend s = Ret () t \<and>
      free_pages t (rev (pages_from (PGROUNDUP vstart) n) @ vs) \<and> use_lock t = use_lock s"
proof -
  let ?p = "PGROUNDUP vstart"
  have le: "unat ?p \<le> unat vend" "unat vend \<le> 0x8E000000"
    using assms(4,5) by (simp_all add: word_le_nat_alt P2V_def)
  then have "unat ?p + 4096 * n \<le> unat vend" "unat vend < unat ?p + 4096 * n + 4096"
    using assms(6) by linarith+
  then show ?thesis
    using freerange_loop_fills [OF assms(1) PGROUNDUP_aligned assms(2) _ _ _ le(2) assms(7)] assms(3)
    by (auto simp: freerange_def word_le_nat_alt)
qed

text \<open>The free list after \<open>kinit1\<close> on the first 960 KiB past the kernel.\<close>

lemma boot_pool:
  obtains s where "kinit1 0x80110000 0x80200000 boot_mm = Ret () s" "free_pages s (rev (pages_from 0x80110000 240))"
proof -
  have r: "PGROUNDUP 0x80110000 = 0x80110000" by (simp add: PGROUNDUP_def)
  have "free_pages (boot_mm\<lparr>use_lock := False\<rparr>) []" using boot_free_pages by (simp add: boot_mm_def)
  from freerange_fills [OF this, where vstart = "0x80110000" and vend = "0x80200000" and n = 240] r
  show ?thesis by (auto simp: boot_mm_def P2V_def kinit1_def intro: that)
qed

subsection \<open>The allocator\<close>

text \<open>
  (C31) Boot: \<open>kinit2\<close> turns every whole page of the range it is given into a free page, exactly
  once. Starting from an allocator with \<open>m\<close> free pages, as many calls of \<open>kalloc\<close> as the range
  has pages succeed, all with different page-aligned addresses of the range, and what
  remains is the old free list; reference counting is on from then on.
\<close>

theorem kinit2_pages_allocatable:
  assumes "free_pages s vs" and "k_end s \<le> PGROUNDUP vstart" and "KERNBASE \<le> PGROUNDUP vstart"
    and "PGROUNDUP vstart \<le> vend" and "vend \<le> P2V PHYSTOP"
    and "n = (unat vend - unat (PGROUNDUP vstart)) div 4096"
    and "set (pages_from (PGROUNDUP vstart) n) \<inter> set vs = {}"
  shows "\<exists>t u. kinit2 vstart vend s = Ret () t \<and> use_lock t \<and>
      take_pages kalloc n t = (rev (pages_from (PGROUNDUP vstart) n), u) \<and>
      distinct (pages_from (PGROUNDUP vstart) n) \<and> free_pages u vs"
proof -
  let ?l = "rev (pages_from (PGROUNDUP vstart) n)"
  obtain t where t: "freerange vstart vend s = Ret () t" "free_pages t (?l @ vs)"
    using freerange_fills [OF assms] by auto
  have "free_pages (t\<lparr>use_lock := True\<rparr>) (?l @ vs)"
    using t(2) by (simp add: free_pages_def heap_page_def)
  moreover have "length ?l = n" by (simp add: pages_from_def)
  ultimately have "\<exists>u. take_pages kalloc n (t\<lparr>use_lock := True\<rparr>) = (?l, u) \<and> free_pages u vs"
    using kp.take_pages_prefix [of "t\<lparr>use_lock := True\<rparr>" "?l @ vs" n] by simp
  moreover have "distinct (pages_from (PGROUNDUP vstart) n)" using t(2) by (simp add: free_pages_def)
  ultimately show ?thesis using t(1) by (auto simp: kinit2_def)
qed

theorem kinit2_pages_allocatable_witness:
  "\<exists>t u. kinit2 0x80110001 0x80200000 boot_mm = Ret () t \<and>
     take_pages kalloc 239 t = (rev (pages_from 0x80111000 239), u) \<and> free_pages u []"
proof -
  have r: "PGROUNDUP 0x80110001 = 0x80111000" by (simp add: PGROUNDUP_def)
  from kinit2_pages_allocatable [OF boot_free_pages, where vstart = "0x80110001" and vend = "0x80200000"
      and n = 239] r
  show ?thesis by (auto simp: boot_mm_def P2V_def)
qed

text \<open>
  (C32) \<open>kfree\<close> panics exactly on what is not a page of the heap (unaligned, below \<open>end\<close>, or past
  \<open>PHYSTOP\<close>, also when the subtraction of \<open>V2P\<close> wraps around), and otherwise pushes the
  page: the next \<open>kalloc\<close> returns it and restores the free list.
\<close>

theorem kfree_kalloc:
  "kfree v s = Panic ''kfree'' \<and> \<not> heap_page s v \<or>
   (\<exists>t. kfree v s = Ret () t \<and> heap_page s v \<and> fst (kalloc t) = v \<and>
        freelist (snd (kalloc t)) = freelist s)"
proof (cases "heap_page s v")
  case True
  then show ?thesis
    using kfree_heap_page [OF True] heap_page_nonzero [OF True] by (simp add: kalloc_def)
next
  case False
  then show ?thesis using kfree_panics by auto
qed

subsection \<open>Mapping pages\<close>

text \<open>
  (C30) \<open>mappages\<close> on a well-formed page directory and an unmapped range returns; on success every
  page of the range is mapped to consecutive frames with the given permissions, every other
  address keeps its entry, and each frame's count is incremented; on failure it has mapped
  a proper prefix and the free list is exhausted. The directory stays well formed.
\<close>

theorem mappages_maps_range:
  assumes "pt_inv s pgdir vs" and "pg_aligned va" and "sz = of_nat (4096 * Suc n)"
    and "unat va + 4096 * Suc n \<le> 4294967296" and "unat pa + 4096 * n < 4294967296"
    and "\<And>va'. pfn va \<le> pfn va' \<Longrightarrow> pfn va' \<le> pfn va + n \<Longrightarrow> \<not> has (pte_val s pgdir va') PTE_P"
  shows "\<exists>r t ws k. mappages pgdir va sz pa perm s = Ret r t \<and> pt_inv t pgdir ws \<and>
     (r = 0 \<and> k = Suc n \<or> r = -1 \<and> k \<le> n \<and> ws = []) \<and>
     (\<forall>va'. pte_val t pgdir va' =
        (if pfn va \<le> pfn va' \<and> pfn va' < pfn va + k
         then (pa + of_nat (4096 * (pfn va' - pfn va))) OR perm OR PTE_P else pte_val s pgdir va')) \<and>
     (\<forall>i. refcounts t i =
        (if use_lock s \<and> pfn pa \<le> i \<and> i < pfn pa + k then refcounts s i + 1 else refcounts s i))"
proof -
  obtain r t where m: "mappages pgdir va sz pa perm s = Ret r t" "mapped_upto pgdir va n pa perm s vs r t"
    using mappages_spec [OF assms] by blast
  then obtain ws k where "pt_grow pgdir s vs t ws"
      "r = 0 \<and> k = Suc n \<or> r = -1 \<and> k \<le> n \<and> ws = []"
      "pte_val t pgdir = map_range va k pa perm (pte_val s pgdir)"
      "refcounts t = count_range (use_lock s) pa k (refcounts s)"
    unfolding mapped_upto_def by blast
  then show ?thesis
    using m(1) pt_grow_inv by (intro exI [of _ r] exI [of _ t] exI [of _ ws] exI [of _ k])
      (auto simp: map_range_def count_range_def)
qed

text \<open>Mapping one page into a fresh directory taken from the booted free list.\<close>

lemma boot_fresh_dir:
  obtains s :: mm and v vs where "pt_inv s v vs" "pte_val s v = (\<lambda>_. 0)" "\<not> use_lock s" "length vs = 239"
proof -
  obtain s :: mm where "free_pages s (rev (pages_from 0x80110000 240))" "\<not> use_lock s"
  proof -
    have r: "PGROUNDUP 0x80110000 = 0x80110000" by (simp add: PGROUNDUP_def)
    from freerange_fills [OF boot_free_pages, where vstart = "0x80110000" and vend = "0x80200000" and n = 240] r
    show ?thesis by (auto simp: boot_mm_def P2V_def intro: that)
  qed
  moreover obtain v vs where "rev (pages_from 0x80110000 240) = v # vs" "length vs = 239"
    by (cases "rev (pages_from 0x80110000 240)") (auto simp: pages_from_def dest: arg_cong [where f = length])
  ultimately have "free_pages s (v # vs)" "\<not> use_lock s" by simp_all
  from fresh_dir [OF this(1)] this(2) \<open>length vs = 239\<close> show ?thesis by (auto intro: that)
qed

theorem mappages_maps_range_witness:
  "\<exists>(s :: mm) pgdir vs. pt_inv s pgdir vs \<and>
     (\<exists>r t. mappages pgdir 0x60000000 4096 0x200000 6 s = Ret r t \<and>
        (r = 0 \<and> pte_val t pgdir 0x60000ABC = 0x200007 \<or> r = -1))"
proof -
  obtain s :: mm and v vs where s: "pt_inv s v vs" "pte_val s v = (\<lambda>_. 0)" by (rule boot_fresh_dir)
  have al: "pg_aligned 0x60000000" by (simp add: pg_aligned_def)
  have pf: "pfn 0x60000000 = 0x60000" "pfn 0x60000ABC = 0x60000" by (simp_all add: pfn_def)
  obtain r t ws k where m: "mappages v 0x60000000 (of_nat (4096 * Suc 0)) 0x200000 6 s = Ret r t"
    "r = 0 \<and> k = Suc 0 \<or> r = -1 \<and> k \<le> 0 \<and> ws = []"
    "\<forall>va'. pte_val t v va' = (if pfn 0x60000000 \<le> pfn va' \<and> pfn va' < pfn 0x60000000 + k
         then (0x200000 + of_nat (4096 * (pfn va' - pfn 0x60000000))) OR 6 OR PTE_P else pte_val s v va')"
    using mappages_maps_range [OF s(1) al refl, of 0 "0x200000" 6] s(2) by auto
  have "r = 0 \<and> pte_val t v 0x60000ABC = 0x200007 \<or> r = -1"
    using m(2) m(3) [rule_format, of "0x60000ABC"] by (auto simp: pf)
  then show ?thesis using s(1) m(1) by auto
qed

subsection \<open>The kernel half of every address space\<close>

lemma pg_aligned_V2P: "pg_aligned a \<Longrightarrow> pg_aligned (V2P a)"
  by (auto simp: pg_aligned_def mod_eq_0_iff_dvd V2P_def unat_sub_if_size word_size
      intro: dvd_diff_nat dvd_add)

text \<open>
  (C29) \<open>setupkvm\<close> with at least 65 free pages returns a new directory that maps exactly what the
  comment above \<open>kmap\<close> promises: nothing below \<open>KERNBASE\<close> and between \<open>PHYSTOP\<close> and
  \<open>DEVSPACE\<close>, all of physical memory at \<open>KERNBASE\<close> (kernel text and read-only data without
  \<open>PTE_W\<close>), devices identically, and no entry with \<open>PTE_U\<close>; memory outside the pages it took
  is unchanged.
\<close>

theorem setupkvm_maps_kernel:
  assumes "free_pages s vs" and "65 \<le> length vs" and "data_ok s"
  shows "\<exists>t ws. setupkvm s = Ret (hd vs) t \<and> pt_inv t (hd vs) ws \<and>
     (\<forall>va. pte_val t (hd vs) va = kernel_pte (k_data s) va \<and> \<not> has (pte_val t (hd vs) va) PTE_U) \<and>
     (\<forall>g. g \<notin> pt_frames t (hd vs) \<longrightarrow> mem t g = mem s g)"
proof -
  have "\<not> has (kernel_pte (k_data s) va) PTE_U" for va
    by (auto simp: kernel_pte_def has_aligned pg_aligned_V2P) (simp_all add: has_def)
  then show ?thesis using setupkvm_spec [OF assms] by auto
qed

lemma boot_setupkvm_ready:
  obtains s :: mm and vs where "free_pages s vs" "65 \<le> length vs" "data_ok s" "use_lock s" "refcounts s = (\<lambda>_. 0)"
proof -
  have r: "PGROUNDUP 0x80110000 = 0x80110000" by (simp add: PGROUNDUP_def)
  have p: "free_pages (boot_mm\<lparr>use_lock := True\<rparr>) []" by (simp add: free_pages_def boot_mm_def)
  obtain s where s: "freerange_loop 0x80110000 0x80200000 (boot_mm\<lparr>use_lock := True\<rparr>) = Ret () s"
      "free_pages s (rev (pages_from 0x80110000 240))" "use_lock s"
    using freerange_fills [OF p, where vstart = "0x80110000" and vend = "0x80200000" and n = 240] r
    by (auto simp: boot_mm_def P2V_def freerange_def)
  have fr: "k_data t = k_data u \<and> refcounts t = refcounts u" if "freerange_loop q e u = Ret () t" for q e and t u :: mm
    using that
  proof (induction q e u rule: freerange_loop.induct)
    case (1 q e u)
    then show ?case
      by (subst (asm) (2) freerange_loop.simps)
         (auto simp: bindr_eq_Ret kfree_def Let_def set_page_def set_word_def split: if_splits)
  qed
  have "data_ok s" using fr [OF s(1)] by (simp add: data_ok_def boot_mm_def pg_aligned_def P2V_def)
  moreover have "refcounts s = (\<lambda>_. 0)" using fr [OF s(1)] by (simp add: boot_mm_def)
  ultimately show ?thesis using s(2,3) by (intro that) (auto simp: pages_from_def)
qed

theorem setupkvm_maps_kernel_witness:
  "\<exists>(s :: mm) d t. setupkvm s = Ret d t \<and> pte_val t d 0x60000000 = 0 \<and> pte_val t d 0xFE000123 = 0xFE000003"
proof -
  obtain s :: mm and vs where s: "free_pages s vs" "65 \<le> length vs" "data_ok s"
    by (rule boot_setupkvm_ready)
  from setupkvm_maps_kernel [OF s] obtain t where
    t: "setupkvm s = Ret (hd vs) t" "\<forall>va. pte_val t (hd vs) va = kernel_pte (k_data s) va" by auto
  have "kernel_pte d 0x60000000 = 0" "kernel_pte d 0xFE000123 = 0xFE000003" for d
    by (simp_all add: kernel_pte_def P2V_def PGROUNDDOWN_def)
  then show ?thesis using t by (intro exI [of _ s] exI [of _ "hd vs"] exI [of _ t]) simp
qed



end
