(* ===== verification/Str.thy ===== *)
theory Str
  imports Xv6_Prelude
begin

section \<open>Bytes and C strings: string.c and ulib.c\<close>

text \<open>
  The routines that write take the whole byte memory, a function of the 32-bit address, so
  that source and destination may overlap; the routines that only read take a string as
  the function of the offset that \<open>p[i]\<close> is. A \<open>uint\<close> count of a \<open>while(n-- > 0)\<close> loop is
  its value as a natural number, an \<open>int\<close> count is an integer. A loop that looks for a NUL
  byte need not end; it is a partial function, and \<open>None\<close> means that it does not return.
  The lemmas show that \<open>memset\<close> and \<open>memmove\<close> implement their textbook meaning (also when
  the areas overlap), and relate the string routines to the list of bytes before the NUL.
\<close>

type_synonym bmem = "u32 \<Rightarrow> u8"
type_synonym cstring = "nat \<Rightarrow> u8"

subsection \<open>memset and memmove\<close>

fun stosb :: "u32 \<Rightarrow> u8 \<Rightarrow> nat \<Rightarrow> bmem \<Rightarrow> bmem" where
  "stosb a c 0 m = m"
| "stosb a c (Suc n) m = stosb (a + 1) c n (m(a := c))"

fun stosl :: "u32 \<Rightarrow> u32 \<Rightarrow> nat \<Rightarrow> bmem \<Rightarrow> bmem" where
  "stosl a w 0 m = m"
| "stosl a w (Suc n) m =
     stosl (a + 4) w n
       (m(a := ucast w, a + 1 := ucast (drop_bit 8 w),
          a + 2 := ucast (drop_bit 16 w), a + 3 := ucast (drop_bit 24 w)))"

definition memset :: "u32 \<Rightarrow> u32 \<Rightarrow> u32 \<Rightarrow> bmem \<Rightarrow> bmem" where
  "memset dst c n m =
     (if unat dst mod 4 = 0 \<and> unat n mod 4 = 0
      then let c = c AND 0xFF
           in stosl dst (push_bit 24 c OR push_bit 16 c OR push_bit 8 c OR c) (unat n div 4) m
      else stosb dst (ucast c) (unat n) m)"

fun move_down :: "u32 \<Rightarrow> u32 \<Rightarrow> nat \<Rightarrow> bmem \<Rightarrow> bmem" where
  "move_down d s 0 m = m"
| "move_down d s (Suc n) m = move_down (d - 1) (s - 1) n (m(d - 1 := m (s - 1)))"

fun move_up :: "u32 \<Rightarrow> u32 \<Rightarrow> nat \<Rightarrow> bmem \<Rightarrow> bmem" where
  "move_up d s 0 m = m"
| "move_up d s (Suc n) m = move_up (d + 1) (s + 1) n (m(d := m s))"

definition memmove :: "u32 \<Rightarrow> u32 \<Rightarrow> u32 \<Rightarrow> bmem \<Rightarrow> bmem" where
  "memmove dst src n m =
     (if src < dst \<and> src + n > dst then move_down (dst + n) (src + n) (unat n) m
      else move_up dst src (unat n) m)"

text \<open>The user library's copy, which always runs upwards.\<close>

definition ulib_memmove :: "u32 \<Rightarrow> u32 \<Rightarrow> int \<Rightarrow> bmem \<Rightarrow> bmem" where
  "ulib_memmove vdst vsrc n m = move_up vdst vsrc (nat n) m"

subsection \<open>Comparison and length\<close>

fun memcmp :: "cstring \<Rightarrow> cstring \<Rightarrow> nat \<Rightarrow> int" where
  "memcmp s1 s2 0 = 0"
| "memcmp s1 s2 (Suc n) =
     (if s1 0 \<noteq> s2 0 then uint (s1 0) - uint (s2 0)
      else memcmp (\<lambda>i. s1 (Suc i)) (\<lambda>i. s2 (Suc i)) n)"

fun strncmp :: "cstring \<Rightarrow> cstring \<Rightarrow> nat \<Rightarrow> int" where
  "strncmp p q 0 = 0"
| "strncmp p q (Suc n) =
     (if p 0 \<noteq> 0 \<and> p 0 = q 0 then strncmp (\<lambda>i. p (Suc i)) (\<lambda>i. q (Suc i)) n
      else uint (p 0) - uint (q 0))"

partial_function (option) strlen_loop :: "cstring \<Rightarrow> nat \<Rightarrow> nat option" where
  "strlen_loop s n = (if s n \<noteq> 0 then strlen_loop s (Suc n) else Some n)"

definition strlen :: "cstring \<Rightarrow> nat option" where
  "strlen s = strlen_loop s 0"

partial_function (option) strcmp :: "cstring \<Rightarrow> cstring \<Rightarrow> int option" where
  "strcmp p q =
     (if p 0 \<noteq> 0 \<and> p 0 = q 0 then strcmp (\<lambda>i. p (Suc i)) (\<lambda>i. q (Suc i))
      else Some (uint (p 0) - uint (q 0)))"

text \<open>\<open>strchr\<close> gives the offset of the character, or \<open>None\<close> inside for the null pointer.\<close>

partial_function (option) strchr_loop :: "cstring \<Rightarrow> nat \<Rightarrow> u8 \<Rightarrow> nat option option" where
  "strchr_loop s n c =
     (if s n \<noteq> 0 then if s n = c then Some (Some n) else strchr_loop s (Suc n) c
      else Some None)"

definition strchr :: "cstring \<Rightarrow> u8 \<Rightarrow> nat option option" where
  "strchr s c = strchr_loop s 0 c"

text \<open>The sum of \<open>atoi\<close> is an \<open>int\<close>, kept here as a 32-bit word.\<close>

partial_function (option) atoi_loop :: "cstring \<Rightarrow> nat \<Rightarrow> u32 \<Rightarrow> u32 option" where
  "atoi_loop s i n =
     (if 48 \<le> s i \<and> s i \<le> 57 then atoi_loop s (Suc i) (n * 10 + ucast (s i) - 48) else Some n)"

definition atoi :: "cstring \<Rightarrow> u32 option" where
  "atoi s = atoi_loop s 0 0"

subsection \<open>Copying strings\<close>

text \<open>
  The first loop of \<open>strncpy\<close> gives the memory, the advanced \<open>s\<close> and the count that is left
  for the second loop.
\<close>

fun strncpy_copy :: "u32 \<Rightarrow> u32 \<Rightarrow> nat \<Rightarrow> bmem \<Rightarrow> bmem \<times> u32 \<times> nat" where
  "strncpy_copy s t 0 m = (m, s, 0)"
| "strncpy_copy s t (Suc n) m =
     (let m' = m(s := m t)
      in if m t \<noteq> 0 then strncpy_copy (s + 1) (t + 1) n m' else (m', s + 1, n))"

definition strncpy :: "u32 \<Rightarrow> u32 \<Rightarrow> int \<Rightarrow> bmem \<Rightarrow> bmem" where
  "strncpy s t n m = (let (m1, s1, k) = strncpy_copy s t (nat n) m in stosb s1 0 k m1)"

fun safestrcpy_copy :: "u32 \<Rightarrow> u32 \<Rightarrow> nat \<Rightarrow> bmem \<Rightarrow> bmem" where
  "safestrcpy_copy s t 0 m = m(s := 0)"
| "safestrcpy_copy s t (Suc n) m =
     (let m' = m(s := m t)
      in if m t \<noteq> 0 then safestrcpy_copy (s + 1) (t + 1) n m' else m'(s + 1 := 0))"

definition safestrcpy :: "u32 \<Rightarrow> u32 \<Rightarrow> int \<Rightarrow> bmem \<Rightarrow> bmem" where
  "safestrcpy s t n m = (if n \<le> 0 then m else safestrcpy_copy s t (nat (n - 1)) m)"

partial_function (option) strcpy :: "u32 \<Rightarrow> u32 \<Rightarrow> bmem \<Rightarrow> bmem option" where
  "strcpy s t m =
     (let m' = m(s := m t) in if m t \<noteq> 0 then strcpy (s + 1) (t + 1) m' else Some m')"

subsection \<open>What memset and memmove do\<close>

text \<open>The addresses from \<open>a\<close> on, \<open>n\<close> of them; \<open>no_wrap\<close> says that they do not wrap around.\<close>

definition in_area :: "u32 \<Rightarrow> nat \<Rightarrow> u32 \<Rightarrow> bool" where
  "in_area a n x \<longleftrightarrow> unat a \<le> unat x \<and> unat x < unat a + n"

definition no_wrap :: "u32 \<Rightarrow> nat \<Rightarrow> bool" where
  "no_wrap a n \<longleftrightarrow> unat a + n \<le> 4294967296"

lemma in_area_0 [simp]: "\<not> in_area a 0 x"
  by (simp add: in_area_def)

lemma unat_plus_small:
  "unat a + k < 4294967296 \<Longrightarrow> unat (a + of_nat k :: u32) = unat a + k"
  by (simp add: unat_word_ariths unat_of_nat)

lemma unat_Suc_word: "unat a + 1 < 4294967296 \<Longrightarrow> unat (a + 1 :: u32) = unat a + 1"
  using unat_plus_small [of a 1] by simp

lemma stosb_spec:
  assumes "no_wrap a n"
  shows "stosb a c n m = (\<lambda>x. if in_area a n x then c else m x)"
  using assms
proof (induction n arbitrary: a m)
  case (Suc n)
  show ?case
  proof (cases n)
    case 0
    then show ?thesis by (auto simp: fun_eq_iff in_area_def word_unat_eq_iff)
  next
    case (Suc k)
    then have u: "unat (a + 1) = unat a + 1"
      using \<open>no_wrap a (Suc n)\<close> by (intro unat_Suc_word) (simp add: no_wrap_def)
    then have "no_wrap (a + 1) n" using \<open>no_wrap a (Suc n)\<close> by (simp add: no_wrap_def)
    then show ?thesis
      by (auto simp: Suc.IH fun_eq_iff in_area_def u word_unat_eq_iff)
  qed
qed (simp add: fun_eq_iff)

lemma stosl_stosb:
  assumes "w = push_bit 24 (ucast c) OR push_bit 16 (ucast c) OR push_bit 8 (ucast c) OR ucast c"
  shows "stosl a w n m = stosb a c (4 * n) m"
proof -
  have h: "\<not> bit c (8 + i)" "\<not> bit c (16 + i)" "\<not> bit c (24 + i)" for i
    using bit_imp_le_length [of c "8 + i"] bit_imp_le_length [of c "16 + i"]
      bit_imp_le_length [of c "24 + i"] by auto
  have b: "ucast w = c" "ucast (drop_bit 8 w) = c" "ucast (drop_bit 16 w) = c"
    "ucast (drop_bit 24 w) = c"
    unfolding assms by (auto intro!: bit_word_eqI simp: bit_simps h)
  have st: "stosb a c (Suc (Suc (Suc (Suc k)))) m =
    stosb (a + 4) c k (m(a := c, a + 1 := c, a + 2 := c, a + 3 := c))" for k a and m :: bmem
    by (simp add: add.assoc)
  have "4 * Suc k = Suc (Suc (Suc (Suc (4 * k))))" for k :: nat by simp
  then show ?thesis
    by (induction n arbitrary: a m) (simp_all only: stosl.simps st b mult_0_right stosb.simps(1))
qed

lemma memset_stosb: "memset dst c n m = stosb dst (ucast c) (unat n) m"
proof (cases "unat dst mod 4 = 0 \<and> unat n mod 4 = 0")
  case True
  have "(0xFF :: u32) = mask 8" by (simp add: mask_eq_exp_minus_1)
  from arg_cong [OF this, of "\<lambda>m. c AND m"] have e: "c AND 0xFF = ucast (ucast c :: u8)"
    by (simp only:) (auto intro!: bit_word_eqI simp: bit_simps)
  have "4 * (unat n div 4) = unat n" using True by auto
  then show ?thesis
    using True stosl_stosb [OF refl, of dst "ucast c" "unat n div 4" m]
    by (simp add: memset_def Let_def e)
qed (auto simp: memset_def)

text \<open>Both directions of copying.\<close>

definition moved :: "u32 \<Rightarrow> u32 \<Rightarrow> nat \<Rightarrow> bmem \<Rightarrow> bmem" where
  "moved d s n m x = (if in_area d n x then m (s + (x - d)) else m x)"

lemma unat_in_area: "in_area d n x \<Longrightarrow> unat (x - d) = unat x - unat d"
  by (simp add: in_area_def unat_sub word_le_nat_alt)

lemma move_up_spec:
  assumes "no_wrap d n" "no_wrap s n" and "unat d \<le> unat s \<or> unat s + n \<le> unat d"
  shows "move_up d s n m = moved d s n m"
  using assms
proof (induction n arbitrary: d s m)
  case (Suc n)
  show ?case
  proof (cases n)
    case 0
    then have "in_area d (Suc n) x \<longleftrightarrow> x = d" for x by (auto simp: in_area_def word_unat_eq_iff)
    then show ?thesis using 0 by (auto simp: fun_eq_iff moved_def)
  next
    case (Suc k)
    have u: "unat (d + 1) = unat d + 1" "unat (s + 1) = unat s + 1"
      using Suc.prems Suc unat_Suc_word [of d] unat_Suc_word [of s] by (auto simp: no_wrap_def)
    have ih: "move_up (d + 1) (s + 1) n m' = moved (d + 1) (s + 1) n m'" for m'
      using Suc.prems u by (intro Suc.IH) (auto simp: no_wrap_def)
    show ?thesis
    proof
      fix x
      have c: "s + 1 + (x - (d + 1)) = s + (x - d)" by simp
      have "s + (x - d) \<noteq> d" if "in_area (d + 1) n x"
      proof -
        have "unat (s + (x - d)) = unat s + (unat x - unat d)"
          using that Suc.prems u
          by (subst unat_word_ariths) (auto simp: in_area_def no_wrap_def unat_sub word_le_nat_alt)
        then have "unat (s + (x - d)) \<noteq> unat d"
          using that Suc.prems u by (auto simp: in_area_def)
        then show ?thesis by metis
      qed
      then show "move_up d s (Suc n) m x = moved d s (Suc n) m x"
        by (auto simp: ih moved_def c, auto simp: in_area_def u word_unat_eq_iff)
    qed
  qed
qed (simp add: fun_eq_iff moved_def)

lemma move_down_spec:
  assumes "no_wrap d n" "no_wrap s n" and "unat s \<le> unat d"
  shows "move_down (d + of_nat n) (s + of_nat n) n m = moved d s n m"
  using assms
proof (induction n arbitrary: m)
  case (Suc n)
  have e: "d + of_nat (Suc n) - 1 = d + of_nat n" "s + of_nat (Suc n) - 1 = s + of_nat n" by simp_all
  have u: "unat (d + of_nat n) = unat d + n" "unat (s + of_nat n) = unat s + n"
    using Suc.prems by (auto intro!: unat_plus_small simp: no_wrap_def)
  have ih: "move_down (d + of_nat n) (s + of_nat n) n m' = moved d s n m'" for m'
    using Suc.prems by (intro Suc.IH) (auto simp: no_wrap_def)
  show ?case
  proof
    fix x
    have "s + (x - d) \<noteq> d + of_nat n" if "in_area d n x"
    proof -
      have "unat (s + (x - d)) = unat s + (unat x - unat d)"
        using that Suc.prems
        by (subst unat_word_ariths) (auto simp: in_area_def no_wrap_def unat_sub word_le_nat_alt)
      then have "unat (s + (x - d)) \<noteq> unat (d + of_nat n)"
        using that Suc.prems u by (auto simp: in_area_def)
      then show ?thesis by metis
    qed
    moreover have "in_area d (Suc n) x \<longleftrightarrow> in_area d n x \<or> x = d + of_nat n"
      "\<not> in_area d n (d + of_nat n)"
      by (auto simp: in_area_def u word_unat_eq_iff)
    ultimately show "move_down (d + of_nat (Suc n)) (s + of_nat (Suc n)) (Suc n) m x =
        moved d s (Suc n) m x"
      unfolding move_down.simps e ih moved_def by (cases "x = d + of_nat n") auto
  qed
qed (simp add: fun_eq_iff moved_def)

text \<open>
  (C26) \<open>memmove\<close> is a simultaneous copy, also between overlapping areas in either direction: byte
  \<open>i\<close> of the destination gets what byte \<open>i\<close> of the source held before the call, and no other
  byte changes. Neither area may wrap around the address space.
\<close>

theorem memmove_moved:
  assumes "no_wrap dst (unat n)" "no_wrap src (unat n)"
  shows "memmove dst src n m = moved dst src (unat n) m"
proof (cases "src < dst \<and> src + n > dst")
  case True
  then show ?thesis
    using move_down_spec [OF assms] by (simp add: memmove_def word_less_nat_alt)
next
  case False
  have "unat dst \<le> unat src \<or> unat src + unat n \<le> unat dst"
  proof (cases "unat src + unat n < 4294967296")
    case True
    then have "unat (src + n) = unat src + unat n" by (simp add: unat_word_ariths)
    then show ?thesis using False by (auto simp: word_less_nat_alt)
  next
    case wrap: False
    then have "unat src + unat n = 4294967296" using assms by (simp add: no_wrap_def)
    moreover have "n \<noteq> 0" "unat n > 0" using wrap by (auto simp: unat_gt_0 intro!: gr0I)
    ultimately show ?thesis using assms by (simp add: no_wrap_def)
  qed
  then have "move_up dst src (unat n) m = moved dst src (unat n) m"
    by (intro move_up_spec assms)
  then show ?thesis using False by (auto simp: memmove_def)
qed

text \<open>Three bytes moved up by one place.\<close>

theorem memmove_moved_witness:
  "map (memmove 101 100 3 (\<lambda>a. ucast a)) [99, 100, 101, 102, 103, 104] = [99, 100, 100, 101, 102, 104] \<and>
   memmove 101 100 3 (\<lambda>a. ucast a) = moved 101 100 3 (\<lambda>a. ucast a)"
proof -
  have "memmove 101 100 3 (\<lambda>a. ucast a) = moved 101 100 (unat (3 :: u32)) (\<lambda>a. ucast a)"
    by (rule memmove_moved) (simp_all add: no_wrap_def)
  then show ?thesis by (simp add: moved_def in_area_def)
qed

text \<open>
  (C27) \<open>memset\<close> fills exactly the \<open>n\<close> bytes at \<open>dst\<close> with the low byte of \<open>c\<close>, whether it stores
  words (aligned address and length) or bytes.
\<close>

theorem memset_fills:
  assumes "no_wrap dst (unat n)"
  shows "memset dst c n m = (\<lambda>x. if in_area dst (unat n) x then ucast c else m x)"
  by (simp add: memset_stosb stosb_spec [OF assms])

theorem memset_fills_witness:
  "map (memset 100 0x1FF 8 (\<lambda>_. 0)) [99, 100, 107, 108] = [0, 255, 255, 0] \<and>
   map (memset 101 0x1FF 2 (\<lambda>_. 0)) [100, 101, 102, 103] = [0, 255, 255, 0]"
proof -
  have "memset 100 0x1FF 8 (\<lambda>_. 0) = (\<lambda>x. if in_area 100 (unat (8 :: u32)) x then ucast (0x1FF :: u32) else 0)"
    by (rule memset_fills) (simp add: no_wrap_def)
  moreover have "memset 101 0x1FF 2 (\<lambda>_. 0) =
      (\<lambda>x. if in_area 101 (unat (2 :: u32)) x then ucast (0x1FF :: u32) else 0)"
    by (rule memset_fills) (simp add: no_wrap_def)
  ultimately show ?thesis by (simp add: in_area_def)
qed

subsection \<open>The bytes before the NUL\<close>

definition is_cstr :: "cstring \<Rightarrow> u8 list \<Rightarrow> bool" where
  "is_cstr p xs \<longleftrightarrow> (\<forall>i < length xs. p i = xs ! i \<and> xs ! i \<noteq> 0) \<and> p (length xs) = 0"

lemma is_cstr_Nil [simp]: "is_cstr p [] \<longleftrightarrow> p 0 = 0"
  by (simp add: is_cstr_def)

lemma is_cstr_Cons [simp]:
  "is_cstr p (x # xs) \<longleftrightarrow> p 0 = x \<and> x \<noteq> 0 \<and> is_cstr (\<lambda>i. p (Suc i)) xs"
  by (auto simp: is_cstr_def All_less_Suc2)

lemma strlen_cstr:
  assumes "is_cstr s xs" shows "strlen s = Some (length xs)"
proof -
  have "strlen_loop s (length xs - k) = Some (length xs)" if "k \<le> length xs" for k
    using that
  proof (induction k)
    case 0
    show ?case using assms by (subst strlen_loop.simps) (simp add: is_cstr_def)
  next
    case (Suc k)
    then have "Suc (length xs - Suc k) = length xs - k" by simp
    then show ?case
      using assms Suc by (subst strlen_loop.simps) (simp add: is_cstr_def)
  qed
  from this [of "length xs"] show ?thesis by (simp add: strlen_def)
qed

lemma strncmp_cstr:
  assumes "is_cstr p xs" "is_cstr q ys"
  shows "strncmp p q n = 0 \<longleftrightarrow> take n xs = take n ys"
  using assms
proof (induction n arbitrary: p q xs ys)
  case (Suc n)
  then show ?case
    by (cases xs; cases ys) (auto simp: word_uint_eq_iff)
qed simp

lemma strcmp_cstr:
  assumes "is_cstr p xs" "is_cstr q ys"
  shows "\<exists>r. strcmp p q = Some r \<and> (r = 0 \<longleftrightarrow> xs = ys)"
  using assms
proof (induction xs arbitrary: p q ys)
  case Nil
  then show ?case by (cases ys) (auto simp: strcmp.simps [of p] word_uint_eq_iff)
next
  case (Cons x xs)
  show ?case
  proof (cases "q 0 = x")
    case True
    then obtain ys' where ys: "ys = x # ys'" using Cons.prems by (cases ys) auto
    with Cons.prems Cons.IH [of "\<lambda>i. p (Suc i)" "\<lambda>i. q (Suc i)" ys']
    show ?thesis by (auto simp: strcmp.simps [of p])
  next
    case False
    then have "uint x - uint (q 0) \<noteq> 0" by (simp add: word_uint_eq_iff)
    then show ?thesis using False Cons.prems by (cases ys) (auto simp: strcmp.simps [of p])
  qed
qed

lemma memcmp_eq_0: "memcmp s1 s2 n = 0 \<longleftrightarrow> (\<forall>i < n. s1 i = s2 i)"
  by (induction n arbitrary: s1 s2) (auto simp: All_less_Suc2 word_uint_eq_iff)

definition disjoint_areas :: "u32 \<Rightarrow> u32 \<Rightarrow> nat \<Rightarrow> bool" where
  "disjoint_areas s t n \<longleftrightarrow> unat s + n \<le> unat t \<or> unat t + n \<le> unat s"

text \<open>The first \<open>n\<close> bytes of a string, as a string.\<close>

definition cut :: "nat \<Rightarrow> cstring \<Rightarrow> cstring" where
  "cut n p i = (if i < n then p i else 0)"

lemma is_cstr_cut: "is_cstr p xs \<Longrightarrow> is_cstr (cut n p) (take n xs)"
  by (auto simp: is_cstr_def cut_def min_def)

lemma cut_Suc: "(\<lambda>i. cut (Suc n) p (Suc i)) = cut n (\<lambda>i. p (Suc i))"
  by (auto simp: cut_def)

text \<open>The area \<open>s\<close> of \<open>n + 1\<close> bytes without its first byte.\<close>

lemma area_tail:
  assumes "no_wrap s (Suc (Suc n))"
  shows "unat (s + 1) = unat s + 1" "no_wrap (s + 1) (Suc n)"
    "in_area s (Suc (Suc n)) x \<longleftrightarrow> x = s \<or> in_area (s + 1) (Suc n) x" "\<not> in_area (s + 1) (Suc n) s"
proof -
  show u: "unat (s + 1) = unat s + 1" using assms by (intro unat_Suc_word) (simp add: no_wrap_def)
  then show "no_wrap (s + 1) (Suc n)" using assms by (simp add: no_wrap_def)
  show "in_area s (Suc (Suc n)) x \<longleftrightarrow> x = s \<or> in_area (s + 1) (Suc n) x" "\<not> in_area (s + 1) (Suc n) s"
    using u by (auto simp: in_area_def word_unat_eq_iff)
qed

lemma src_unchanged:
  assumes "no_wrap t (Suc n)" "disjoint_areas s t (Suc n)" "i \<le> n"
  shows "t + of_nat i \<noteq> s"
proof -
  have "unat (t + of_nat i) = unat t + i"
    using assms by (intro unat_plus_small) (simp add: no_wrap_def)
  then have "unat (t + of_nat i) \<noteq> unat s" using assms by (auto simp: disjoint_areas_def)
  then show ?thesis by metis
qed

lemma cut_tail:
  assumes "no_wrap t (Suc (Suc n))" "disjoint_areas s t (Suc (Suc n))"
  shows "cut n (\<lambda>i. (m(s := x)) (t + 1 + of_nat i)) = cut n (\<lambda>i. m (t + of_nat (Suc i)))"
proof -
  have "t + 1 + of_nat i \<noteq> s" if "i < n" for i
    using src_unchanged [OF assms, of "Suc i"] that by (simp add: add.assoc)
  then show ?thesis by (auto simp: cut_def fun_eq_iff add.assoc)
qed

lemma disjoint_tail:
  assumes "no_wrap s (Suc (Suc n))" "no_wrap t (Suc (Suc n))" "disjoint_areas s t (Suc (Suc n))"
  shows "disjoint_areas (s + 1) (t + 1) (Suc n)"
  using assms area_tail(1) [OF assms(1)] area_tail(1) [OF assms(2)]
  by (auto simp: disjoint_areas_def)

lemma safestrcpy_copy_spec:
  assumes "no_wrap s (Suc n)" "no_wrap t (Suc n)" "disjoint_areas s t (Suc n)"
    and "is_cstr (cut n (\<lambda>i. m (t + of_nat i))) ys"
  shows "is_cstr (\<lambda>i. safestrcpy_copy s t n m (s + of_nat i)) ys \<and>
    (\<forall>x. \<not> in_area s (Suc n) x \<longrightarrow> safestrcpy_copy s t n m x = m x)"
  using assms
proof (induction n arbitrary: s t m ys)
  case 0
  then have "ys = []" by (cases ys) (auto simp: cut_def)
  then show ?case by (auto simp: in_area_def)
next
  case (Suc n)
  note a = area_tail [OF Suc.prems(1)]
  show ?case
  proof (cases ys)
    case Nil
    then have "m t = 0" using Suc.prems(4) by (simp add: cut_def)
    then show ?thesis
      using Nil a(1) by (auto simp: in_area_def Let_def)
  next
    case (Cons y ys')
    let ?m = "m(s := y)"
    have y: "m t = y" "y \<noteq> 0" and ys': "is_cstr (cut n (\<lambda>i. m (t + of_nat (Suc i)))) ys'"
      using Suc.prems(4) Cons by (auto simp: cut_Suc) (simp_all add: cut_def)
    have ih: "is_cstr (\<lambda>i. safestrcpy_copy (s + 1) (t + 1) n ?m (s + 1 + of_nat i)) ys' \<and>
        (\<forall>x. \<not> in_area (s + 1) (Suc n) x \<longrightarrow> safestrcpy_copy (s + 1) (t + 1) n ?m x = ?m x)"
      using ys' cut_tail [OF Suc.prems(2,3), of m y]
      by (intro Suc.IH a(2) area_tail(2) [OF Suc.prems(2)] disjoint_tail [OF Suc.prems(1-3)]) simp
    then have "safestrcpy_copy (s + 1) (t + 1) n ?m s = y" using a(4) by simp
    then show ?thesis
      using ih y Cons a(3) by (auto simp: Let_def add.assoc)
  qed
qed


definition abc_mem :: bmem where
  "abc_mem a = (if a = 200 then 97 else if a = 201 then 98 else if a = 202 then 99 else 0)"


end
