(* ===== verification/Locks.thy ===== *)
theory Locks
  imports Xv6_Prelude
begin

section \<open>Spin locks: spinlock.c\<close>

text \<open>
  Spin locks on several processors. Every processor \<open>c\<close> has its interrupt flag and its
  \<open>struct cpu\<close>; a lock is named by a value of a type \<open>'l\<close>. The sequential definitions
  follow the C functions; \<open>acquire\<close> and \<open>release\<close> are also cut at their atomic accesses
  (the \<open>xchg\<close>, the store of 0) into the steps of an interleaving relation \<open>lk_step\<close>, in
  which any processor may move next. The invariant of that relation gives mutual exclusion
  and that a processor holding a lock runs with interrupts off. The call stack kept in
  \<open>pcs\<close> is not modelled.
\<close>

subsection \<open>State\<close>

record spinlock =
  locked :: u32
  lname :: string
  lcpu :: "nat option"

record cpu =
  apicid :: u8
  ncli :: int
  intena :: bool

record 'l machine =
  cpus :: "cpu list"
  fl_if :: "nat \<Rightarrow> bool"
  lapic :: "nat \<Rightarrow> u8"
  locks :: "'l \<Rightarrow> spinlock"

text \<open>Every operation has the processor that runs it as its first argument.\<close>

fun find_cpu :: "u8 \<Rightarrow> nat \<Rightarrow> cpu list \<Rightarrow> nat option" where
  "find_cpu a i [] = None"
| "find_cpu a i (c # cs) = (if apicid c = a then Some i else find_cpu a (Suc i) cs)"

definition mycpu :: "nat \<Rightarrow> 'l machine \<Rightarrow> (nat, 'l machine) res" where
  "mycpu c s =
     (if fl_if s c then Panic ''mycpu called with interrupts enabled''
      else case find_cpu (lapic s c) 0 (cpus s) of
             Some i \<Rightarrow> Ret i s
           | None \<Rightarrow> Panic ''unknown apicid'')"

definition set_cpu :: "nat \<Rightarrow> (cpu \<Rightarrow> cpu) \<Rightarrow> 'l machine \<Rightarrow> 'l machine" where
  "set_cpu i f s = s\<lparr>cpus := (cpus s)[i := f (cpus s ! i)]\<rparr>"

definition set_if :: "nat \<Rightarrow> bool \<Rightarrow> 'l machine \<Rightarrow> 'l machine" where
  "set_if c b s = s\<lparr>fl_if := (fl_if s)(c := b)\<rparr>"

definition set_lock :: "'l \<Rightarrow> (spinlock \<Rightarrow> spinlock) \<Rightarrow> 'l machine \<Rightarrow> 'l machine" where
  "set_lock l f s = s\<lparr>locks := (locks s)(l := f (locks s l))\<rparr>"

subsection \<open>The functions of spinlock.c\<close>

definition initlock :: "'l \<Rightarrow> string \<Rightarrow> 'l machine \<Rightarrow> 'l machine" where
  "initlock l nm s = set_lock l (\<lambda>_. \<lparr>locked = 0, lname = nm, lcpu = None\<rparr>) s"

definition pushcli :: "nat \<Rightarrow> 'l machine \<Rightarrow> (unit, 'l machine) res" where
  "pushcli c s =
     (let eflags = fl_if s c
      in bindr (mycpu c (set_if c False s)) (\<lambda>i s1.
           let s2 = (if ncli (cpus s1 ! i) = 0 then set_cpu i (\<lambda>k. k\<lparr>intena := eflags\<rparr>) s1 else s1)
           in Ret () (set_cpu i (\<lambda>k. k\<lparr>ncli := ncli k + 1\<rparr>) s2)))"

definition popcli :: "nat \<Rightarrow> 'l machine \<Rightarrow> (unit, 'l machine) res" where
  "popcli c s =
     (if fl_if s c then Panic ''popcli - interruptible''
      else bindr (mycpu c s) (\<lambda>i s1.
        let s2 = set_cpu i (\<lambda>k. k\<lparr>ncli := ncli k - 1\<rparr>) s1
        in if ncli (cpus s2 ! i) < 0 then Panic ''popcli''
           else if ncli (cpus s2 ! i) = 0 \<and> intena (cpus s2 ! i) then Ret () (set_if c True s2)
           else Ret () s2))"

definition holding :: "nat \<Rightarrow> 'l \<Rightarrow> 'l machine \<Rightarrow> (bool, 'l machine) res" where
  "holding c l s =
     bindr (pushcli c s) (\<lambda>_ s1.
     bindr (mycpu c s1) (\<lambda>i s2.
       let r = (locked (locks s2 l) \<noteq> 0 \<and> lcpu (locks s2 l) = Some i)
       in bindr (popcli c s2) (\<lambda>_ s3. Ret r s3)))"

text \<open>The three parts of \<open>acquire\<close>: up to the loop, one \<open>xchg\<close>, and the record after it.\<close>

definition acquire_enter :: "nat \<Rightarrow> 'l \<Rightarrow> 'l machine \<Rightarrow> (unit, 'l machine) res" where
  "acquire_enter c l s =
     bindr (pushcli c s) (\<lambda>_ s1.
     bindr (holding c l s1) (\<lambda>h s2. if h then Panic ''acquire'' else Ret () s2))"

definition xchg :: "'l \<Rightarrow> u32 \<Rightarrow> 'l machine \<Rightarrow> u32 \<times> 'l machine" where
  "xchg l v s = (locked (locks s l), set_lock l (\<lambda>k. k\<lparr>locked := v\<rparr>) s)"

definition acquire_record :: "nat \<Rightarrow> 'l \<Rightarrow> 'l machine \<Rightarrow> (unit, 'l machine) res" where
  "acquire_record c l s =
     bindr (mycpu c s) (\<lambda>i s1. Ret () (set_lock l (\<lambda>k. k\<lparr>lcpu := Some i\<rparr>) s1))"

text \<open>Alone on the machine, a processor that finds the lock taken spins for ever.\<close>

definition acquire :: "nat \<Rightarrow> 'l \<Rightarrow> 'l machine \<Rightarrow> (unit, 'l machine) res" where
  "acquire c l s =
     bindr (acquire_enter c l s) (\<lambda>_ s1.
       let (old, s2) = xchg l 1 s1 in if old \<noteq> 0 then Diverge else acquire_record c l s2)"

text \<open>The parts of \<open>release\<close>: up to the store, the store, and the \<open>popcli\<close>.\<close>

definition release_enter :: "nat \<Rightarrow> 'l \<Rightarrow> 'l machine \<Rightarrow> (unit, 'l machine) res" where
  "release_enter c l s =
     bindr (holding c l s) (\<lambda>h s1.
       if \<not> h then Panic ''release'' else Ret () (set_lock l (\<lambda>k. k\<lparr>lcpu := None\<rparr>) s1))"

definition release_store :: "'l \<Rightarrow> 'l machine \<Rightarrow> 'l machine" where
  "release_store l s = set_lock l (\<lambda>k. k\<lparr>locked := 0\<rparr>) s"

definition release :: "nat \<Rightarrow> 'l \<Rightarrow> 'l machine \<Rightarrow> (unit, 'l machine) res" where
  "release c l s =
     bindr (release_enter c l s) (\<lambda>_ s1. popcli c (release_store l s1))"

subsection \<open>Interleaved processors\<close>

text \<open>
  Where a processor is: outside (\<open>Run\<close>), before the next \<open>xchg\<close> of \<open>acquire\<close>, between
  the successful \<open>xchg\<close> and the record, before the store of \<open>release\<close>, and before its
  \<open>popcli\<close>. \<open>held\<close> is the set of locks a processor has taken by \<open>xchg\<close> and not yet stored
  0 into; it is not part of the code's state and no step depends on it.
\<close>

datatype 'l pc = Run | Spin 'l | Taken 'l | Letgo 'l | Pop

record 'l conf =
  mach :: "'l machine"
  pc :: "nat \<Rightarrow> 'l pc"
  held :: "nat \<Rightarrow> 'l set"

inductive lk_step :: "'l conf \<Rightarrow> 'l conf \<Rightarrow> bool" where
  s_enter: "\<lbrakk> c < length (cpus (mach k)); pc k c = Run; acquire_enter c l (mach k) = Ret () m \<rbrakk> \<Longrightarrow>
     lk_step k (k\<lparr>mach := m, pc := (pc k)(c := Spin l)\<rparr>)"
| s_spin: "\<lbrakk> c < length (cpus (mach k)); pc k c = Spin l; xchg l 1 (mach k) = (old, m); old \<noteq> 0 \<rbrakk> \<Longrightarrow>
     lk_step k (k\<lparr>mach := m\<rparr>)"
| s_take: "\<lbrakk> c < length (cpus (mach k)); pc k c = Spin l; xchg l 1 (mach k) = (old, m); old = 0 \<rbrakk> \<Longrightarrow>
     lk_step k (k\<lparr>mach := m, pc := (pc k)(c := Taken l), held := (held k)(c := insert l (held k c))\<rparr>)"
| s_record: "\<lbrakk> c < length (cpus (mach k)); pc k c = Taken l; acquire_record c l (mach k) = Ret () m \<rbrakk> \<Longrightarrow>
     lk_step k (k\<lparr>mach := m, pc := (pc k)(c := Run)\<rparr>)"
| s_leave: "\<lbrakk> c < length (cpus (mach k)); pc k c = Run; release_enter c l (mach k) = Ret () m \<rbrakk> \<Longrightarrow>
     lk_step k (k\<lparr>mach := m, pc := (pc k)(c := Letgo l)\<rparr>)"
| s_store: "\<lbrakk> c < length (cpus (mach k)); pc k c = Letgo l; release_store l (mach k) = m \<rbrakk> \<Longrightarrow>
     lk_step k (k\<lparr>mach := m, pc := (pc k)(c := Pop), held := (held k)(c := held k c - {l})\<rparr>)"
| s_pop: "\<lbrakk> c < length (cpus (mach k)); pc k c = Pop; popcli c (mach k) = Ret () m \<rbrakk> \<Longrightarrow>
     lk_step k (k\<lparr>mach := m, pc := (pc k)(c := Run)\<rparr>)"
| s_sti: "\<lbrakk> c < length (cpus (mach k)); pc k c = Run; ncli (cpus (mach k) ! c) = 0 \<rbrakk> \<Longrightarrow>
     lk_step k (k\<lparr>mach := set_if c True (mach k)\<rparr>)"

subsection \<open>Nesting of pushcli and popcli\<close>

lemma machine_simps [simp]:
  "cpus (set_if c b s) = cpus s" "fl_if (set_if c b s) = (fl_if s)(c := b)"
  "lapic (set_if c b s) = lapic s" "locks (set_if c b s) = locks s"
  "cpus (set_cpu i f s) = (cpus s)[i := f (cpus s ! i)]" "fl_if (set_cpu i f s) = fl_if s"
  "lapic (set_cpu i f s) = lapic s" "locks (set_cpu i f s) = locks s"
  "cpus (set_lock l g s) = cpus s" "fl_if (set_lock l g s) = fl_if s"
  "lapic (set_lock l g s) = lapic s" "locks (set_lock l g s) = (locks s)(l := g (locks s l))"
  by (simp_all add: set_if_def set_cpu_def set_lock_def)

text \<open>Every processor finds its own entry in \<open>cpus[]\<close>.\<close>

definition ids_ok :: "'l machine \<Rightarrow> bool" where
  "ids_ok s \<longleftrightarrow> (\<forall>c < length (cpus s). find_cpu (lapic s c) 0 (cpus s) = Some c)"

lemma find_cpu_update:
  assumes "\<And>k. apicid (f k) = apicid k"
  shows "find_cpu a j (cs[i := f (cs ! i)]) = find_cpu a j cs"
  using assms
proof (induction cs arbitrary: i j)
  case (Cons c cs)
  then show ?case by (cases i) auto
qed simp

lemma ids_ok_simps [simp]:
  "ids_ok (set_if c b s) \<longleftrightarrow> ids_ok s" "ids_ok (set_lock l g s) \<longleftrightarrow> ids_ok s"
  by (simp_all add: ids_ok_def)

lemma ids_ok_set_cpu [simp]:
  "(\<And>k. apicid (f k) = apicid k) \<Longrightarrow> ids_ok (set_cpu i f s) \<longleftrightarrow> ids_ok s"
  by (simp add: ids_ok_def find_cpu_update)

lemma mycpu_self:
  "\<lbrakk> ids_ok s; c < length (cpus s); \<not> fl_if s c \<rbrakk> \<Longrightarrow> mycpu c s = Ret c s"
  by (simp add: mycpu_def ids_ok_def)

definition pushed :: "nat \<Rightarrow> 'l machine \<Rightarrow> 'l machine" where
  "pushed c s = set_cpu c (\<lambda>k. k\<lparr>intena := (if ncli k = 0 then fl_if s c else intena k),
     ncli := ncli k + 1\<rparr>) (set_if c False s)"

definition popped :: "nat \<Rightarrow> 'l machine \<Rightarrow> 'l machine" where
  "popped c s = (let s1 = set_cpu c (\<lambda>k. k\<lparr>ncli := ncli k - 1\<rparr>) s
     in if ncli (cpus s ! c) = 1 \<and> intena (cpus s ! c) then set_if c True s1 else s1)"

lemma pushcli_eq:
  assumes "ids_ok s" "c < length (cpus s)"
  shows "pushcli c s = Ret () (pushed c s)"
  using assms
  by (simp add: pushcli_def mycpu_self Let_def pushed_def set_cpu_def)

lemma popcli_eq:
  assumes "ids_ok s" "c < length (cpus s)" "\<not> fl_if s c" "1 \<le> ncli (cpus s ! c)"
  shows "popcli c s = Ret () (popped c s)"
  using assms by (simp add: popcli_def mycpu_self Let_def popped_def)

lemma popcli_Ret:
  assumes "ids_ok s" "c < length (cpus s)" "popcli c s = Ret () t"
  shows "\<not> fl_if s c" "1 \<le> ncli (cpus s ! c)" "t = popped c s"
  using assms by (auto simp: popcli_def mycpu_self Let_def popped_def split: if_splits)

text \<open>
  With interrupts off whenever the count is positive, a \<open>pushcli\<close>/\<open>popcli\<close> pair leaves the
  interrupt flag and the count as they were; only \<open>intena\<close> may be refreshed.
\<close>

definition cli_ok :: "nat \<Rightarrow> 'l machine \<Rightarrow> bool" where
  "cli_ok c s \<longleftrightarrow> 0 \<le> ncli (cpus s ! c) \<and> (0 < ncli (cpus s ! c) \<longrightarrow> \<not> fl_if s c)"

definition refreshed :: "nat \<Rightarrow> 'l machine \<Rightarrow> 'l machine" where
  "refreshed c s = set_cpu c (\<lambda>k. k\<lparr>intena := (if ncli k = 0 then fl_if s c else intena k)\<rparr>) s"

lemma push_pop:
  assumes "c < length (cpus s)" "cli_ok c s"
  shows "popped c (pushed c s) = refreshed c s"
  using assms
  by (auto simp: popped_def pushed_def refreshed_def cli_ok_def set_cpu_def set_if_def Let_def fun_eq_iff)

lemma pushed_simps [simp]:
  "c < length (cpus s) \<Longrightarrow> ncli (cpus (pushed c s) ! c) = ncli (cpus s ! c) + 1"
  "length (cpus (pushed c s)) = length (cpus s)" "\<not> fl_if (pushed c s) c"
  "ids_ok (pushed c s) \<longleftrightarrow> ids_ok s" "locks (pushed c s) = locks s"
  by (simp_all add: pushed_def)

lemma holding_eq:
  assumes "ids_ok s" "c < length (cpus s)" "cli_ok c s"
  shows "holding c l s = Ret (locked (locks s l) \<noteq> 0 \<and> lcpu (locks s l) = Some c) (refreshed c s)"
  using assms
  by (simp add: holding_def pushcli_eq mycpu_self Let_def popcli_eq push_pop cli_ok_def)

subsection \<open>Mutual exclusion\<close>

text \<open>The \<open>pushcli\<close> calls in progress at a point of \<open>acquire\<close> or \<open>release\<close>, besides one per held lock.\<close>

fun pending :: "'l pc \<Rightarrow> int" where
  "pending (Spin l) = 1"
| "pending Pop = 1"
| "pending _ = 0"

fun marked :: "'l pc \<Rightarrow> 'l \<Rightarrow> bool" where
  "marked (Taken l) l' = (l \<noteq> l')"
| "marked (Letgo l) l' = (l \<noteq> l')"
| "marked _ l' = True"

fun pc_held :: "'l pc \<Rightarrow> 'l set \<Rightarrow> bool" where
  "pc_held (Spin l) h = (l \<notin> h)"
| "pc_held (Taken l) h = (l \<in> h)"
| "pc_held (Letgo l) h = (l \<in> h)"
| "pc_held _ h = True"

definition cpu_inv :: "'l conf \<Rightarrow> nat \<Rightarrow> bool" where
  "cpu_inv k c \<longleftrightarrow>
     finite (held k c) \<and> pc_held (pc k c) (held k c) \<and>
     ncli (cpus (mach k) ! c) = int (card (held k c)) + pending (pc k c) \<and>
     (0 < ncli (cpus (mach k) ! c) \<longrightarrow> \<not> fl_if (mach k) c)"

definition lock_inv :: "'l conf \<Rightarrow> 'l \<Rightarrow> bool" where
  "lock_inv k l \<longleftrightarrow>
     (locked (locks (mach k) l) \<noteq> 0 \<longleftrightarrow> (\<exists>c < length (cpus (mach k)). l \<in> held k c)) \<and>
     (\<forall>c < length (cpus (mach k)). l \<in> held k c \<longrightarrow>
        (\<forall>d < length (cpus (mach k)). l \<in> held k d \<longrightarrow> c = d)) \<and>
     (\<forall>c < length (cpus (mach k)). (lcpu (locks (mach k) l) = Some c) =
        (l \<in> held k c \<and> marked (pc k c) l))"

definition lk_inv :: "'l conf \<Rightarrow> bool" where
  "lk_inv k \<longleftrightarrow> ids_ok (mach k) \<and> (\<forall>c < length (cpus (mach k)). cpu_inv k c) \<and> (\<forall>l. lock_inv k l)"

text \<open>Power-on: no lock is taken, no processor is inside an operation, the counts are 0.\<close>

definition lk_init :: "'l conf \<Rightarrow> bool" where
  "lk_init k \<longleftrightarrow> ids_ok (mach k) \<and>
     (\<forall>c < length (cpus (mach k)). ncli (cpus (mach k) ! c) = 0) \<and>
     (\<forall>l. locked (locks (mach k) l) = 0 \<and> lcpu (locks (mach k) l) = None) \<and>
     (\<forall>c. pc k c = Run \<and> held k c = {})"

lemma lk_init_inv: "lk_init k \<Longrightarrow> lk_inv k"
  by (auto simp: lk_init_def lk_inv_def cpu_inv_def lock_inv_def)

lemma pending_nonneg [simp]: "0 \<le> pending p"
  by (cases p) auto

lemma cpu_inv_cli_ok: "cpu_inv k c \<Longrightarrow> cli_ok c (mach k)"
  by (simp add: cpu_inv_def cli_ok_def)

lemma acquire_enter_Ret:
  assumes "lk_inv k" "c < length (cpus (mach k))" "acquire_enter c l (mach k) = Ret () m"
  shows "m = refreshed c (pushed c (mach k))"
    and "locked (locks (mach k) l) = 0 \<or> lcpu (locks (mach k) l) \<noteq> Some c"
proof -
  have ok: "ids_ok (mach k)" "cli_ok c (mach k)"
    using assms(1,2) by (auto simp: lk_inv_def intro: cpu_inv_cli_ok)
  moreover have "cli_ok c (pushed c (mach k))"
    using ok assms(2) by (simp add: cli_ok_def)
  ultimately show "m = refreshed c (pushed c (mach k))"
    "locked (locks (mach k) l) = 0 \<or> lcpu (locks (mach k) l) \<noteq> Some c"
    using assms(2,3) by (auto simp: acquire_enter_def pushcli_eq holding_eq split: if_splits)
qed

lemma release_enter_Ret:
  assumes "lk_inv k" "c < length (cpus (mach k))" "release_enter c l (mach k) = Ret () m"
  shows "m = set_lock l (\<lambda>k. k\<lparr>lcpu := None\<rparr>) (refreshed c (mach k))"
    and "lcpu (locks (mach k) l) = Some c"
  using assms cpu_inv_cli_ok [of k c]
  by (auto simp: lk_inv_def release_enter_def holding_eq split: if_splits)

lemma refreshed_simps [simp]:
  "length (cpus (refreshed c s)) = length (cpus s)" "fl_if (refreshed c s) = fl_if s"
  "locks (refreshed c s) = locks s" "ids_ok (refreshed c s) \<longleftrightarrow> ids_ok s"
  "d < length (cpus s) \<Longrightarrow> ncli (cpus (refreshed c s) ! d) = ncli (cpus s ! d)"
  by (simp_all add: refreshed_def) (cases "d = c"; simp)

lemma pushed_other [simp]:
  "d \<noteq> c \<Longrightarrow> cpus (pushed c s) ! d = cpus s ! d" "d \<noteq> c \<Longrightarrow> fl_if (pushed c s) d = fl_if s d"
  by (simp_all add: pushed_def)

lemma popped_simps:
  "length (cpus (popped c s)) = length (cpus s)" "locks (popped c s) = locks s"
  "ids_ok (popped c s) \<longleftrightarrow> ids_ok s"
  "c < length (cpus s) \<Longrightarrow> ncli (cpus (popped c s) ! c) = ncli (cpus s ! c) - 1"
  "d \<noteq> c \<Longrightarrow> cpus (popped c s) ! d = cpus s ! d" "d \<noteq> c \<Longrightarrow> fl_if (popped c s) d = fl_if s d"
  "ncli (cpus s ! c) \<noteq> 1 \<Longrightarrow> fl_if (popped c s) c = fl_if s c"
  by (auto simp: popped_def Let_def)

text \<open>A step touches its own processor only, and the lock it works on.\<close>

lemma lk_inv_step:
  assumes inv: "lk_inv k" and ids: "ids_ok (mach k')"
    and len: "length (cpus (mach k')) = length (cpus (mach k))"
    and other: "\<And>d. d \<noteq> c \<Longrightarrow> held k' d = held k d \<and> pc k' d = pc k d \<and>
        cpus (mach k') ! d = cpus (mach k) ! d \<and> fl_if (mach k') d = fl_if (mach k) d"
    and own: "cpu_inv k' c"
    and locks: "\<And>l'. l' \<noteq> l \<Longrightarrow> locks (mach k') l' = locks (mach k) l' \<and>
        (l' \<in> held k' c \<longleftrightarrow> l' \<in> held k c) \<and> marked (pc k' c) l' = marked (pc k c) l'"
    and lock: "lock_inv k' l"
  shows "lk_inv k'"
proof -
  have "cpu_inv k' d" if "d < length (cpus (mach k'))" for d
  proof (cases "d = c")
    case False
    then show ?thesis using other [OF False] inv that by (simp add: lk_inv_def cpu_inv_def len)
  qed (simp add: own)
  moreover have "lock_inv k' l'" for l'
  proof (cases "l' = l")
    case False
    have "(l' \<in> held k' d \<longleftrightarrow> l' \<in> held k d) \<and> marked (pc k' d) l' = marked (pc k d) l'" for d
      using locks [OF False] other by (cases "d = c") auto
    then show ?thesis using locks [OF False] inv by (simp add: lk_inv_def lock_inv_def len)
  qed (simp add: lock)
  ultimately show ?thesis using ids by (simp add: lk_inv_def)
qed

lemma lk_invD:
  assumes "lk_inv k"
  shows "ids_ok (mach k)" "c < length (cpus (mach k)) \<Longrightarrow> cpu_inv k c" "lock_inv k l"
  using assms by (simp_all add: lk_inv_def)

lemma sole_holder:
  assumes "lock_inv k l" "c < length (cpus (mach k))" "l \<in> held k c" "d < length (cpus (mach k))"
  shows "l \<in> held k d \<longleftrightarrow> d = c"
  using assms by (auto simp: lock_inv_def)

lemma inv_enter:
  assumes "lk_inv k" "c < length (cpus (mach k))" "pc k c = Run" "acquire_enter c l (mach k) = Ret () m"
  shows "lk_inv (k\<lparr>mach := m, pc := (pc k)(c := Spin l)\<rparr>)"
proof (rule lk_inv_step [OF assms(1), of _ c l])
  note e = acquire_enter_Ret [OF assms(1,2,4)]
  note i = lk_invD [OF assms(1)]
  have "l \<notin> held k c" using e(2) i(3) [of l] assms(2,3) by (auto simp: lock_inv_def)
  then show "cpu_inv (k\<lparr>mach := m, pc := (pc k)(c := Spin l)\<rparr>) c"
    using i(2) [OF assms(2)] assms(2,3) by (simp add: cpu_inv_def e(1))
  show "lock_inv (k\<lparr>mach := m, pc := (pc k)(c := Spin l)\<rparr>) l"
    using i(3) [of l] assms(3) by (simp add: lock_inv_def e(1))
qed (use acquire_enter_Ret(1) [OF assms(1,2,4)] lk_invD(1) [OF assms(1)] assms(3) in
      \<open>auto simp: refreshed_def\<close>)

lemma inv_spin:
  assumes "lk_inv k" "c < length (cpus (mach k))" "xchg l 1 (mach k) = (old, m)" "old \<noteq> 0"
  shows "lk_inv (k\<lparr>mach := m\<rparr>)"
proof (rule lk_inv_step [OF assms(1), of _ c l])
  show "lock_inv (k\<lparr>mach := m\<rparr>) l"
    using lk_invD(3) [OF assms(1), of l] assms(3,4) by (auto simp: lock_inv_def xchg_def)
  show "cpu_inv (k\<lparr>mach := m\<rparr>) c"
    using lk_invD(2) [OF assms(1,2)] assms(3) by (auto simp: cpu_inv_def xchg_def)
qed (use lk_invD(1) [OF assms(1)] assms(3) in \<open>auto simp: xchg_def\<close>)

lemma inv_take:
  assumes "lk_inv k" "c < length (cpus (mach k))" "pc k c = Spin l"
    and "xchg l 1 (mach k) = (old, m)" "old = 0"
  shows "lk_inv (k\<lparr>mach := m, pc := (pc k)(c := Taken l), held := (held k)(c := insert l (held k c))\<rparr>)"
    (is "lk_inv ?k")
proof (rule lk_inv_step [OF assms(1), of _ c l])
  note i = lk_invD [OF assms(1)]
  show "cpu_inv ?k c"
    using i(2) [OF assms(2)] assms(3,4) by (auto simp: cpu_inv_def xchg_def)
  have free: "l \<notin> held k d" if "d < length (cpus (mach k))" for d
    using i(3) [of l] assms(4,5) that by (auto simp: lock_inv_def xchg_def)
  then have "lcpu (locks (mach k) l) \<noteq> Some d" if "d < length (cpus (mach k))" for d
    using i(3) [of l] that by (auto simp: lock_inv_def)
  then show "lock_inv ?k l"
    using free assms(2,4) by (auto simp: lock_inv_def xchg_def)
qed (use lk_invD(1) [OF assms(1)] assms(3,4) in \<open>auto simp: xchg_def\<close>)

lemma inv_record:
  assumes "lk_inv k" "c < length (cpus (mach k))" "pc k c = Taken l"
    and "acquire_record c l (mach k) = Ret () m"
  shows "lk_inv (k\<lparr>mach := m, pc := (pc k)(c := Run)\<rparr>)" (is "lk_inv ?k")
proof -
  note i = lk_invD [OF assms(1)]
  have h: "l \<in> held k c" "cpu_inv k c" using i(2) [OF assms(2)] assms(3) by (auto simp: cpu_inv_def)
  then have "0 < card (held k c)" by (auto simp: cpu_inv_def card_gt_0_iff)
  then have "\<not> fl_if (mach k) c" using h assms(3) by (simp add: cpu_inv_def)
  then have m: "m = set_lock l (\<lambda>k. k\<lparr>lcpu := Some c\<rparr>) (mach k)"
    using assms i(1) by (auto simp: acquire_record_def mycpu_self)
  show ?thesis
  proof (rule lk_inv_step [OF assms(1), of _ c l])
    show "cpu_inv ?k c" using h assms(3) by (auto simp: cpu_inv_def m)
    show "lock_inv ?k l"
      using i(3) [of l] sole_holder [OF i(3) assms(2) h(1)] h(1) assms(2)
      by (auto simp: lock_inv_def m)
  qed (use i(1) assms(3) m in auto)
qed

lemma inv_leave:
  assumes "lk_inv k" "c < length (cpus (mach k))" "pc k c = Run" "release_enter c l (mach k) = Ret () m"
  shows "lk_inv (k\<lparr>mach := m, pc := (pc k)(c := Letgo l)\<rparr>)" (is "lk_inv ?k")
proof (rule lk_inv_step [OF assms(1), of _ c l])
  note e = release_enter_Ret [OF assms(1,2,4)]
  note i = lk_invD [OF assms(1)]
  have h: "l \<in> held k c" using i(3) [of l] e(2) assms(2) by (auto simp: lock_inv_def)
  show "cpu_inv ?k c" using i(2) [OF assms(2)] h assms(2,3) by (auto simp: cpu_inv_def e(1))
  show "lock_inv ?k l"
    using i(3) [of l] sole_holder [OF i(3) assms(2) h] h assms(2)
    by (auto simp: lock_inv_def e(1))
qed (use release_enter_Ret(1) [OF assms(1,2,4)] lk_invD(1) [OF assms(1)] assms(3) in
      \<open>auto simp: refreshed_def\<close>)

lemma inv_store:
  assumes "lk_inv k" "c < length (cpus (mach k))" "pc k c = Letgo l"
  shows "lk_inv (k\<lparr>mach := release_store l (mach k), pc := (pc k)(c := Pop),
    held := (held k)(c := held k c - {l})\<rparr>)" (is "lk_inv ?k")
proof (rule lk_inv_step [OF assms(1), of _ c l])
  note i = lk_invD [OF assms(1)]
  have h: "l \<in> held k c" "finite (held k c)"
    using i(2) [OF assms(2)] assms(3) by (auto simp: cpu_inv_def)
  then have "0 < card (held k c)" by (auto simp: card_gt_0_iff)
  then show "cpu_inv ?k c"
    using i(2) [OF assms(2)] assms(3) h
    by (simp add: cpu_inv_def release_store_def card_Diff_singleton_if of_nat_diff)
  show "lock_inv ?k l"
    using i(3) [of l] sole_holder [OF i(3) assms(2) h(1)] assms(2,3)
    by (auto simp: lock_inv_def release_store_def)
qed (use lk_invD(1) [OF assms(1)] assms(3) in \<open>auto simp: release_store_def\<close>)

lemma inv_pop:
  assumes "lk_inv k" "c < length (cpus (mach k))" "pc k c = Pop" "popcli c (mach k) = Ret () m"
  shows "lk_inv (k\<lparr>mach := m, pc := (pc k)(c := Run)\<rparr>)" (is "lk_inv ?k")
proof -
  note i = lk_invD [OF assms(1)]
  have m: "m = popped c (mach k)" using assms i(1) by (intro popcli_Ret(3)) auto
  show ?thesis
  proof (rule lk_inv_step [OF assms(1), of _ c undefined])
    show "cpu_inv ?k c"
      using i(2) [OF assms(2)] assms(2,3) popped_simps(7) [of "mach k" c]
      by (cases "ncli (cpus (mach k) ! c) = 1") (auto simp: cpu_inv_def m popped_simps)
    show "lock_inv ?k undefined"
      using i(3) [of undefined] assms(3) by (auto simp: lock_inv_def m popped_simps)
  qed (use i(1) assms(3) in \<open>auto simp: m popped_simps\<close>)
qed

lemma inv_sti:
  assumes "lk_inv k" "c < length (cpus (mach k))" "ncli (cpus (mach k) ! c) = 0"
  shows "lk_inv (k\<lparr>mach := set_if c True (mach k)\<rparr>)"
  using assms by (auto simp: lk_inv_def cpu_inv_def lock_inv_def)

theorem lk_step_inv: "lk_step k k' \<Longrightarrow> lk_inv k \<Longrightarrow> lk_inv k'"
proof (induction rule: lk_step.induct)
qed (auto intro: inv_enter inv_spin inv_take inv_record inv_leave inv_store inv_pop inv_sti)

lemma lk_reachable_inv: "lk_step\<^sup>*\<^sup>* k k' \<Longrightarrow> lk_init k \<Longrightarrow> lk_inv k'"
  by (induction rule: rtranclp_induct) (auto intro: lk_init_inv lk_step_inv)

subsection \<open>Properties\<close>

lemma acquire_enter_cases:
  assumes "lk_inv k" "c < length (cpus (mach k))" "pc k c = Run"
  shows "acquire_enter c l (mach k) =
     (if l \<in> held k c then Panic ''acquire'' else Ret () (refreshed c (pushed c (mach k))))"
proof -
  note i = lk_invD [OF assms(1)]
  have ok: "cli_ok c (mach k)" using i(2) [OF assms(2)] by (rule cpu_inv_cli_ok)
  then have "cli_ok c (pushed c (mach k))" using assms(2) by (simp add: cli_ok_def)
  moreover have "(locked (locks (mach k) l) \<noteq> 0 \<and> lcpu (locks (mach k) l) = Some c) \<longleftrightarrow> l \<in> held k c"
    using i(3) [of l] assms(2,3) by (auto simp: lock_inv_def)
  ultimately show ?thesis
    using ok i(1) assms(2) by (simp add: acquire_enter_def pushcli_eq holding_eq)
qed

lemma release_enter_cases:
  assumes "lk_inv k" "c < length (cpus (mach k))" "pc k c = Run"
  shows "release_enter c l (mach k) =
     (if l \<in> held k c then Ret () (set_lock l (\<lambda>k. k\<lparr>lcpu := None\<rparr>) (refreshed c (mach k)))
      else Panic ''release'')"
proof -
  note i = lk_invD [OF assms(1)]
  have "cli_ok c (mach k)" using i(2) [OF assms(2)] by (rule cpu_inv_cli_ok)
  moreover have "(locked (locks (mach k) l) \<noteq> 0 \<and> lcpu (locks (mach k) l) = Some c) \<longleftrightarrow> l \<in> held k c"
    using i(3) [of l] assms(2,3) by (auto simp: lock_inv_def)
  ultimately show ?thesis
    using i(1) assms(2) by (simp add: release_enter_def holding_eq)
qed

text \<open>A machine of two processors with one lock, and the run of processor 0 into it.\<close>

definition demo0 :: "unit conf" where
  "demo0 = \<lparr>mach = \<lparr>cpus = [\<lparr>apicid = 0, ncli = 0, intena = False\<rparr>, \<lparr>apicid = 1, ncli = 0, intena = False\<rparr>],
                     fl_if = (\<lambda>_. True), lapic = (\<lambda>c. of_nat c),
                     locks = (\<lambda>_. \<lparr>locked = 0, lname = [], lcpu = None\<rparr>)\<rparr>,
            pc = (\<lambda>_. Run), held = (\<lambda>_. {})\<rparr>"

definition demo1 :: "unit conf" where
  "demo1 = demo0\<lparr>mach := (mach demo0)\<lparr>cpus := [\<lparr>apicid = 0, ncli = 1, intena = True\<rparr>, \<lparr>apicid = 1, ncli = 0, intena = False\<rparr>],
                                       fl_if := (\<lambda>_. True)(0 := False)\<rparr>,
                 pc := (\<lambda>_. Run)(0 := Spin ())\<rparr>"

definition demo2 :: "unit conf" where
  "demo2 = demo1\<lparr>mach := snd (xchg () 1 (mach demo1)), pc := (pc demo1)(0 := Taken ()),
                 held := (held demo1)(0 := insert () (held demo1 0))\<rparr>"

lemma demo_init: "lk_init demo0"
  by (auto simp: lk_init_def demo0_def ids_ok_def less_Suc_eq)

lemma demo_run: "lk_step\<^sup>*\<^sup>* demo0 demo2"
proof -
  let ?m = "refreshed 0 (pushed 0 (mach demo0))"
  have e: "acquire_enter 0 () (mach demo0) = Ret () ?m"
    using acquire_enter_cases [OF lk_init_inv [OF demo_init], of 0 "()"] by (simp add: demo0_def)
  have d1: "demo1 = demo0\<lparr>mach := ?m, pc := (pc demo0)(0 := Spin ())\<rparr>"
    by (simp add: demo1_def demo0_def pushed_def refreshed_def set_cpu_def set_if_def fun_eq_iff)
  have "lk_step demo0 demo1"
    unfolding d1 by (rule s_enter [OF _ _ e]) (simp_all add: demo0_def)
  moreover have "lk_step demo1 demo2"
    unfolding demo2_def
    by (rule s_take [where old = 0]) (simp_all add: demo1_def demo0_def xchg_def)
  ultimately show ?thesis by simp
qed

text \<open>
  (C7) Mutual exclusion of spin locks: however the processors interleave the accesses of
  \<open>acquire\<close> and \<open>release\<close>, no two of them hold the same lock, and a processor that holds a
  lock runs with interrupts disabled and a positive \<open>ncli\<close>.
\<close>

theorem spinlock_mutual_exclusion:
  assumes "lk_init k" and "lk_step\<^sup>*\<^sup>* k k'"
    and "c < length (cpus (mach k'))" and "l \<in> held k' c"
  shows "\<not> fl_if (mach k') c \<and> 0 < ncli (cpus (mach k') ! c) \<and> locked (locks (mach k') l) \<noteq> 0 \<and>
    (\<forall>d < length (cpus (mach k')). l \<in> held k' d \<longrightarrow> d = c)"
proof -
  note i = lk_invD [OF lk_reachable_inv [OF assms(2,1)]]
  have "0 < card (held k' c)"
    using assms(4) i(2) [OF assms(3)] by (auto simp: cpu_inv_def card_gt_0_iff)
  then have "0 < int (card (held k' c)) + pending (pc k' c)"
    using pending_nonneg [of "pc k' c"] by linarith
  then show ?thesis
    using i(2) [OF assms(3)] i(3) [of l] assms(3,4) by (auto simp: cpu_inv_def lock_inv_def)
qed

theorem spinlock_mutual_exclusion_witness:
  "() \<in> held demo2 0 \<and> \<not> fl_if (mach demo2) 0 \<and> () \<notin> held demo2 1"
proof -
  have h: "() \<in> held demo2 0" "length (cpus (mach demo2)) = 2"
    by (simp_all add: demo2_def demo1_def demo0_def xchg_def)
  have a: "\<not> fl_if (mach demo2) 0" "\<And>d. d < 2 \<Longrightarrow> () \<in> held demo2 d \<Longrightarrow> d = 0"
    using spinlock_mutual_exclusion [OF demo_init demo_run, of 0 "()"] h by auto
  from a(2) [of 1] have "() \<notin> held demo2 1" by linarith
  with a(1) h(1) show ?thesis by blast
qed

text \<open>
  (C33) The self-checks of the spin locks are exact: in every reachable state, on a processor
  that is not inside a lock operation, \<open>acquire\<close> panics exactly when that processor already
  holds the lock, and \<open>release\<close> panics exactly when it does not.
\<close>

theorem spinlock_checks_exact:
  assumes "lk_init k" and "lk_step\<^sup>*\<^sup>* k k'" and "c < length (cpus (mach k'))" and "pc k' c = Run"
  shows "(acquire_enter c l (mach k') = Panic ''acquire'' \<longleftrightarrow> l \<in> held k' c) \<and>
    (release_enter c l (mach k') = Panic ''release'' \<longleftrightarrow> l \<notin> held k' c) \<and>
    (is_Ret (acquire_enter c l (mach k')) \<or> is_Ret (release_enter c l (mach k')))"
  using acquire_enter_cases [OF lk_reachable_inv [OF assms(2,1)] assms(3,4)]
    release_enter_cases [OF lk_reachable_inv [OF assms(2,1)] assms(3,4)]
  by simp

theorem spinlock_checks_exact_witness:
  "acquire_enter 1 () (mach demo2) \<noteq> Panic ''acquire'' \<and>
   release_enter 1 () (mach demo2) = Panic ''release''"
  using spinlock_checks_exact [OF demo_init demo_run, of 1 "()"]
  by (simp add: demo2_def demo1_def demo0_def xchg_def)

text \<open>
  Matched nesting: on a processor whose interrupts are off whenever its count is
  positive, \<open>acquire\<close> of a free lock followed by \<open>release\<close> returns, leaves the lock free, and
  restores both the interrupt flag and \<open>ncli\<close>, whatever they were.
\<close>

theorem acquire_release_restores:
  assumes "ids_ok s" and "c < length (cpus s)" and "cli_ok c s" and "locked (locks s l) = 0"
  shows "\<exists>t u. acquire c l s = Ret () t \<and> \<not> fl_if t c \<and> ncli (cpus t ! c) = ncli (cpus s ! c) + 1 \<and>
    release c l t = Ret () u \<and> fl_if u = fl_if s \<and> ncli (cpus u ! c) = ncli (cpus s ! c) \<and>
    locked (locks u l) = 0"
proof -
  let ?t = "set_lock l (\<lambda>k. k\<lparr>lcpu := Some c\<rparr>) (set_lock l (\<lambda>k. k\<lparr>locked := 1\<rparr>) (refreshed c (pushed c s)))"
  have p: "cli_ok c (pushed c s)" using assms(2,3) by (simp add: cli_ok_def)
  have a: "acquire c l s = Ret () ?t"
    using assms p by (simp add: acquire_def acquire_enter_def pushcli_eq holding_eq xchg_def
        acquire_record_def mycpu_self)
  have t: "ids_ok ?t" "c < length (cpus ?t)" "cli_ok c ?t" "\<not> fl_if ?t c"
      "ncli (cpus ?t ! c) = ncli (cpus s ! c) + 1"
    using assms p by (simp_all add: cli_ok_def)
  let ?v = "release_store l (set_lock l (\<lambda>k. k\<lparr>lcpu := None\<rparr>) (refreshed c ?t))"
  have v: "ids_ok ?v" "c < length (cpus ?v)" "\<not> fl_if ?v c" "ncli (cpus ?v ! c) = ncli (cpus s ! c) + 1"
      "intena (cpus ?v ! c) = (if ncli (cpus s ! c) = 0 then fl_if s c else intena (cpus s ! c))"
      "fl_if ?v = (fl_if s)(c := False)"
    using assms(1-3) t by (auto simp: release_store_def refreshed_def pushed_def cli_ok_def)
  have "release c l ?t = Ret () (popped c ?v)"
    using t assms(3) v by (simp add: release_def release_enter_def holding_eq popcli_eq cli_ok_def)
  moreover have "fl_if (popped c ?v) = fl_if s"
    using v assms(3) by (auto simp: popped_def Let_def cli_ok_def fun_eq_iff)
  moreover have "ncli (cpus (popped c ?v) ! c) = ncli (cpus s ! c)" "locked (locks (popped c ?v) l) = 0"
    using v by (simp_all add: popped_simps release_store_def)
  ultimately show ?thesis using a t(4,5) by blast
qed

theorem acquire_release_restores_witness:
  "\<exists>t u. acquire 1 () (mach demo0) = Ret () t \<and> \<not> fl_if t 1 \<and> release 1 () t = Ret () u \<and>
     fl_if u = (\<lambda>_. True) \<and> ncli (cpus u ! 1) = 0"
proof -
  have "ids_ok (mach demo0)" using demo_init by (simp add: lk_init_def)
  from acquire_release_restores [OF this, of 1 "()"] show ?thesis
    by (simp add: demo0_def cli_ok_def) blast
qed

end
