(* ===== verification/Sleeplock.thy ===== *)
theory Sleeplock
  imports Xv6_Prelude
begin

section \<open>Sleep locks: sleeplock.c\<close>

text \<open>
  A sleep lock is a flag and the pid of its holder, both guarded by a spin lock; an
  operation between \<open>acquire(&lk->lk)\<close> and \<open>release(&lk->lk)\<close> is one step here.
\<close>

record sleeplock =
  slocked :: bool
  sname :: string
  spid :: int

definition initsleeplock :: "string \<Rightarrow> sleeplock" where
  "initsleeplock nm = \<lparr>slocked = False, sname = nm, spid = 0\<rparr>"

text \<open>\<open>None\<close>: the caller sleeps on the lock.\<close>

definition acquiresleep :: "int \<Rightarrow> sleeplock \<Rightarrow> sleeplock option" where
  "acquiresleep pid lk = (if slocked lk then None else Some (lk\<lparr>slocked := True, spid := pid\<rparr>))"

definition releasesleep :: "sleeplock \<Rightarrow> sleeplock" where
  "releasesleep lk = lk\<lparr>slocked := False, spid := 0\<rparr>"

definition holdingsleep :: "int \<Rightarrow> sleeplock \<Rightarrow> bool" where
  "holdingsleep pid lk = (slocked lk \<and> spid lk = pid)"

end
