(* ===== verification/Ring.thy ===== *)
theory Ring
  imports Xv6_Prelude
begin

section \<open>Ring buffers with running indices\<close>

text \<open>
  Pipes and the console keep a byte array of \<open>N\<close> elements with two \<open>uint\<close> indices that only
  grow and wrap around at \<open>2^32\<close>; the array is addressed modulo \<open>N\<close>. This theory has the
  abstraction of such a buffer to the list of its bytes, and the interface \<open>fifo\<close> that its
  users rely on: what is taken out is, in order, what was put in.
\<close>

definition ring :: "'a list \<Rightarrow> u32 \<Rightarrow> u32 \<Rightarrow> 'a list" where
  "ring d r w = map (\<lambda>k. d ! (unat (r + of_nat k) mod length d)) [0..<unat (w - r)]"

lemma length_ring [simp]: "length (ring d r w) = unat (w - r)"
  by (simp add: ring_def)

lemma ring_empty_iff: "ring d r w = [] \<longleftrightarrow> r = w"
  by (auto simp: ring_def unat_eq_0)

lemma unat_diff_Suc:
  assumes "unat (w - r) < 4294967295" shows "unat (w + 1 - r :: u32) = Suc (unat (w - r))"
proof -
  have "unat ((w - r) + 1) = Suc (unat (w - r))"
    using assms by (subst unat_word_ariths) simp
  moreover have "w + 1 - r = (w - r) + 1" by simp
  ultimately show ?thesis by metis
qed

text \<open>Different offsets below \<open>N\<close> address different elements when \<open>N\<close> divides \<open>2^32\<close>.\<close>

lemma ring_index_inj:
  assumes "N dvd 4294967296" "j < k" "k - j < N" "k < 4294967296"
  shows "unat (r + of_nat j :: u32) mod N \<noteq> unat (r + of_nat k) mod N"
proof
  assume eq: "unat (r + of_nat j) mod N = unat (r + of_nat k) mod N"
  have m: "unat (r + of_nat i) mod N = (unat r + i) mod N" if "i < 4294967296" for i
    using that assms(1) by (simp add: unat_word_ariths unat_of_nat mod_mod_cancel)
  have "(unat r + j) mod N = (unat r + k) mod N" using eq m [of j] m [of k] assms by simp
  then have "N dvd (unat r + k) - (unat r + j)" by (metis mod_eq_dvd_iff_nat le_add_diff_inverse
      assms(2) less_imp_le nat_add_left_cancel_le)
  then have "N dvd k - j" by simp
  then show False using assms(2,3) by (auto dest: dvd_imp_le)
qed

lemma ring_put:
  assumes N: "length d = N" "0 < N" "N dvd 4294967296" "N < 4294967296"
    and room: "unat (w - r) < N"
  shows "ring (d[unat w mod N := a]) r (w + 1) = ring d r w @ [a]"
proof -
  let ?n = "unat (w - r)"
  have w: "w = r + of_nat ?n" by simp
  have "unat (w + 1 - r) = Suc ?n" using room N by (intro unat_diff_Suc) simp
  moreover have "d[unat w mod N := a] ! (unat (r + of_nat k) mod N) = d ! (unat (r + of_nat k) mod N)"
    if "k < ?n" for k
  proof -
    have "unat (r + of_nat k) mod N \<noteq> unat (r + of_nat ?n) mod N"
      using that room N by (intro ring_index_inj) auto
    then show ?thesis using w by simp
  qed
  moreover have "d[unat w mod N := a] ! (unat (r + of_nat ?n) mod N) = a"
    using N by simp
  ultimately show ?thesis using N by (simp add: ring_def)
qed

lemma ring_get:
  assumes "length d = N" "r \<noteq> w"
  shows "ring d r w = d ! (unat r mod N) # ring d (r + 1) w"
proof -
  have n: "unat (w - r) \<noteq> 0" using assms(2) by (simp add: unat_eq_0)
  have e: "w - (r + 1) = (w - r) - 1" by simp
  have "unat ((w - r) - 1) = unat (w - r) - 1"
    using n by (intro unat_minus_one) (auto simp: unat_eq_0)
  then have u: "unat (w - r) = Suc (unat (w - (r + 1)))" unfolding e using n by simp
  show ?thesis
    unfolding ring_def u map_upt_Suc by (simp add: assms(1) add.assoc)
qed

subsection \<open>The queue interface\<close>

locale fifo =
  fixes inv :: "'s \<Rightarrow> bool" and contents :: "'s \<Rightarrow> 'a list" and cap :: nat
    and put :: "'a \<Rightarrow> 's \<Rightarrow> 's" and get :: "'s \<Rightarrow> 'a \<times> 's"
  assumes put_ok: "inv s \<Longrightarrow> length (contents s) < cap \<Longrightarrow>
      inv (put a s) \<and> contents (put a s) = contents s @ [a]"
    and get_ok: "inv s \<Longrightarrow> contents s \<noteq> [] \<Longrightarrow>
      inv (snd (get s)) \<and> contents s = fst (get s) # contents (snd (get s))"
begin

fun put_all :: "'a list \<Rightarrow> 's \<Rightarrow> 's" where
  "put_all [] s = s"
| "put_all (a # as) s = put_all as (put a s)"

fun get_n :: "nat \<Rightarrow> 's \<Rightarrow> 'a list \<times> 's" where
  "get_n 0 s = ([], s)"
| "get_n (Suc n) s = (let (a, s1) = get s; (as, s2) = get_n n s1 in (a # as, s2))"

lemma put_all_ok:
  assumes "inv s" "length (contents s) + length as \<le> cap"
  shows "inv (put_all as s)" "contents (put_all as s) = contents s @ as"
  using assms
proof (induction as arbitrary: s)
  case (Cons a as)
  case 1 then show ?case using Cons put_ok [of s a] by simp
next
  case (Cons a as)
  case 2 then show ?case using Cons put_ok [of s a] by simp
qed simp_all

lemma get_n_ok:
  assumes "inv s" "n \<le> length (contents s)"
  shows "inv (snd (get_n n s))" "fst (get_n n s) = take n (contents s)"
    "contents (snd (get_n n s)) = drop n (contents s)"
proof -
  have "inv (snd (get_n n s)) \<and> fst (get_n n s) = take n (contents s) \<and>
    contents (snd (get_n n s)) = drop n (contents s)"
    using assms
  proof (induction n arbitrary: s)
    case (Suc n)
    obtain a s1 where g: "get s = (a, s1)" by (cases "get s")
    have "contents s \<noteq> []" using Suc.prems by auto
    then have "inv s1" "contents s = a # contents s1" using get_ok [of s] Suc.prems g by auto
    then show ?case using Suc.IH [of s1] Suc.prems g by (auto simp: split_beta)
  qed simp
  then show "inv (snd (get_n n s))" "fst (get_n n s) = take n (contents s)"
    "contents (snd (get_n n s)) = drop n (contents s)" by auto
qed

text \<open>Any run of puts into a buffer with room and gets from a non-empty one.\<close>

inductive run :: "'s \<Rightarrow> 'a list \<Rightarrow> 'a list \<Rightarrow> 's \<Rightarrow> bool" where
  r_init: "run s [] [] s"
| r_put: "run s ws rs s1 \<Longrightarrow> length (contents s1) < cap \<Longrightarrow> run s (ws @ [a]) rs (put a s1)"
| r_get: "run s ws rs s1 \<Longrightarrow> contents s1 \<noteq> [] \<Longrightarrow> run s ws (rs @ [fst (get s1)]) (snd (get s1))"

lemma run_fifo: "run s ws rs t \<Longrightarrow> inv s \<Longrightarrow> inv t \<and> contents s @ ws = rs @ contents t"
proof (induction rule: run.induct)
  case (r_put s ws rs s1 a)
  then show ?case using put_ok [of s1 a] by (simp flip: append_assoc)
next
  case (r_get s ws rs s1)
  then show ?case using get_ok [of s1] by simp
qed simp

lemma run_trans: "run s ws rs t \<Longrightarrow> run t ws' rs' u \<Longrightarrow> run s (ws @ ws') (rs @ rs') u"
  apply (rotate_tac 1)
  by (induction rule: run.induct) (auto intro: run.intros simp flip: append_assoc)

lemma run_put_all:
  assumes "inv s" "length (contents s) + length as \<le> cap"
  shows "run s as [] (put_all as s)"
proof -
  have "run s (take n as) [] (put_all (take n as) s)" if "n \<le> length as" for n
    using that
  proof (induction n)
    case (Suc n)
    have sp: "put_all (xs @ [a]) s' = put a (put_all xs s')" for xs a s'
      by (induction xs arbitrary: s') auto
    have "length (contents (put_all (take n as) s)) < cap"
      using put_all_ok(2) [OF assms(1), of "take n as"] assms(2) Suc.prems by simp
    then show ?case
      using Suc r_put by (simp add: take_Suc_conv_app_nth sp)
  qed (simp add: r_init)
  from this [of "length as"] show ?thesis by simp
qed

end

end
