(* ===== verification/Console.thy ===== *)
theory Console
  imports Ring
begin

section \<open>Console: console.c\<close>

text \<open>
  The input ring with its read, write and edit indices, the CGA text memory with its cursor,
  and the formatted output. The cursor position is what the CRT controller's two cursor
  registers hold. What \<open>uartputc\<close> sends to the serial port is recorded in \<open>uart\<close>.
  Interrupt-time input is the list of the codes that \<open>getc\<close> returns before -1.
\<close>

record console =
  cbuf :: "u8 list"
  cr :: u32
  cw :: u32
  ce :: u32
  crt :: "u16 list"
  cursor :: int
  uart :: "u8 list"
  locking :: bool
  panicked :: bool
  devsw_console :: bool

abbreviation "INPUT_BUF \<equiv> 128 :: nat"
abbreviation "BACKSPACE \<equiv> 0x100 :: int"

subsection \<open>Formatted output\<close>

text \<open>The characters of the digits, and the loop of \<open>printint\<close> that produces them from the lowest one.\<close>

definition digit_chars :: "nat list" where
  "digit_chars = [48,49,50,51,52,53,54,55,56,57,97,98,99,100,101,102]"

function printint_digits :: "nat \<Rightarrow> nat \<Rightarrow> int list" where
  "printint_digits base x =
     (if base < 2 then [] else
      int (digit_chars ! (x mod base)) # (if x div base \<noteq> 0 then printint_digits base (x div base) else []))"
  by pat_completeness auto
termination
proof (relation "measure (\<lambda>(base, x). x)", goal_cases)
  case (2 base x)
  then have "0 < x" by (cases x) auto
  then show ?case using 2 by (simp add: div_less_dividend)
qed simp

declare printint_digits.simps [simp del]

definition printint :: "u32 \<Rightarrow> nat \<Rightarrow> bool \<Rightarrow> int list" where
  "printint xx base sign =
     (let neg = (sign \<and> sint xx < 0);
          x = (if neg then - xx else xx)
      in rev (printint_digits base (unat x) @ (if neg then [45] else [])))"

text \<open>
  A variable argument is a word or a pointer to a string, null included. Reading an argument
  that was not passed, or of the wrong kind, is undefined behaviour: \<open>None\<close>.
\<close>

datatype parg = PInt u32 | PStr "u8 list option"

fun cprintf_chars :: "u8 list \<Rightarrow> parg list \<Rightarrow> int list option" where
  "cprintf_chars [] args = Some []"
| "cprintf_chars (c # fs) args =
     (if c \<noteq> 37 then map_option (Cons (uint c)) (cprintf_chars fs args)
      else case fs of
        [] \<Rightarrow> Some []
      | d # fs' \<Rightarrow>
          if d = 100 then
            (case args of PInt x # as \<Rightarrow> map_option (append (printint x 10 True)) (cprintf_chars fs' as)
             | _ \<Rightarrow> None)
          else if d = 120 \<or> d = 112 then
            (case args of PInt x # as \<Rightarrow> map_option (append (printint x 16 False)) (cprintf_chars fs' as)
             | _ \<Rightarrow> None)
          else if d = 115 then
            (case args of
               PStr s # as \<Rightarrow> map_option (append (case s of None \<Rightarrow> [40,110,117,108,108,41]
                                                   | Some cs \<Rightarrow> map sint cs)) (cprintf_chars fs' as)
             | _ \<Rightarrow> None)
          else if d = 37 then map_option (Cons 37) (cprintf_chars fs' args)
          else map_option (append [37, uint d]) (cprintf_chars fs' args))"

subsection \<open>The screen\<close>

definition cga_blank :: u16 where "cga_blank = 0x0720"

definition set_cell :: "int \<Rightarrow> u16 \<Rightarrow> console \<Rightarrow> console" where
  "set_cell pos v s = s\<lparr>crt := (crt s)[nat pos := v]\<rparr>"

definition cga_advance :: "int \<Rightarrow> console \<Rightarrow> int \<times> console" where
  "cga_advance c s =
     (let pos = cursor s
      in if c = 10 then (pos + (80 - pos mod 80), s)
         else if c = BACKSPACE then (if pos > 0 then pos - 1 else pos, s)
         else (pos + 1, set_cell pos ((of_int c AND 0xFF) OR 0x0700) s))"

text \<open>Rows 1 to 23 move up by one; the cells from the new position to the end of row 23 are cleared.\<close>

definition cga_scroll :: "int \<Rightarrow> console \<Rightarrow> int \<times> console" where
  "cga_scroll pos s =
     (if pos div 80 \<ge> 24 then
        let c1 = take (23 * 80) (drop 80 (crt s)) @ drop (23 * 80) (crt s);
            pos' = pos - 80
        in (pos', s\<lparr>crt := take (nat pos') c1 @ replicate (nat (24 * 80 - pos')) 0 @
                           drop (nat pos' + nat (24 * 80 - pos')) c1\<rparr>)
      else (pos, s))"

definition cgaputc :: "int \<Rightarrow> console \<Rightarrow> (unit, console) res" where
  "cgaputc c s =
     (let (pos, s1) = cga_advance c s
      in if pos < 0 \<or> pos > 25 * 80 then Panic ''pos under/overflow''
         else let (pos', s2) = cga_scroll pos s1
              in Ret () (set_cell pos' cga_blank (s2\<lparr>cursor := pos'\<rparr>)))"

definition consputc :: "int \<Rightarrow> console \<Rightarrow> (unit, console) res" where
  "consputc c s =
     (if panicked s then Diverge
      else cgaputc c (s\<lparr>uart := uart s @ (if c = BACKSPACE then [8, 32, 8] else [of_int c])\<rparr>))"

fun consputs :: "int list \<Rightarrow> console \<Rightarrow> (unit, console) res" where
  "consputs [] s = Ret () s"
| "consputs (c # cs) s = bindr (consputc c s) (\<lambda>_ s1. consputs cs s1)"

definition cprintf :: "u8 list \<Rightarrow> parg list \<Rightarrow> console \<Rightarrow> (unit, console) res option" where
  "cprintf fmt args s = map_option (\<lambda>cs. consputs cs s) (cprintf_chars fmt args)"

text \<open>
  \<open>dprintf\<close> prints only at or below \<open>DEBUG_LEVEL\<close>, after the process id when a process runs.
\<close>

definition dprintf :: "int option \<Rightarrow> int \<Rightarrow> u8 list \<Rightarrow> parg list \<Rightarrow> console \<Rightarrow> (unit, console) res option" where
  "dprintf pid level fmt args s =
     (if level > 0 then Some (Ret () s)
      else case cprintf_chars fmt args of
        None \<Rightarrow> None
      | Some cs \<Rightarrow>
          Some (consputs ((case pid of None \<Rightarrow> []
                           | Some p \<Rightarrow> [80, 73, 68, 58, 32] @ printint (of_int p) 10 True @ [32, 124, 32]) @ cs) s))"

subsection \<open>Keyboard input\<close>

definition in_put :: "u8 \<Rightarrow> console \<Rightarrow> console" where
  "in_put b s = s\<lparr>cbuf := (cbuf s)[unat (ce s) mod INPUT_BUF := b], ce := ce s + 1\<rparr>"

definition in_get :: "console \<Rightarrow> u8 \<times> console" where
  "in_get s = (cbuf s ! (unat (cr s) mod INPUT_BUF), s\<lparr>cr := cr s + 1\<rparr>)"

text \<open>What the screen code leaves alone.\<close>

definition cons_rest :: "console \<Rightarrow> u8 list \<times> u32 \<times> u32 \<times> u32 \<times> bool \<times> bool \<times> bool" where
  "cons_rest s = (cbuf s, cr s, cw s, ce s, locking s, panicked s, devsw_console s)"

lemma cga_rest:
  "cons_rest (set_cell pos v s) = cons_rest s" "cons_rest (snd (cga_advance c s)) = cons_rest s"
  "cons_rest (snd (cga_scroll pos s)) = cons_rest s" "cons_rest (s\<lparr>cursor := p\<rparr>) = cons_rest s"
  "cons_rest (s\<lparr>uart := u\<rparr>) = cons_rest s"
  by (simp_all add: cons_rest_def set_cell_def cga_advance_def cga_scroll_def Let_def)

lemma cgaputc_rest: "cgaputc c s = Ret x t \<Longrightarrow> cons_rest t = cons_rest s"
  using cga_rest(2) [of c s] cga_rest(3) [of "fst (cga_advance c s)" "snd (cga_advance c s)"]
  by (auto simp: cgaputc_def split_beta Let_def cga_rest split: if_splits)

lemma consputc_rest: "consputc c s = Ret x t \<Longrightarrow> cons_rest t = cons_rest s"
  by (auto simp: consputc_def cga_rest dest!: cgaputc_rest split: if_splits)

lemma cga_keeps_input:
  "consputc c s = Ret x t \<Longrightarrow> ce t = ce s \<and> cw t = cw s \<and> cr t = cr s \<and> cbuf t = cbuf s"
  by (drule consputc_rest) (simp add: cons_rest_def)

text \<open>The loop of Control-U; the difference of the indices bounds it.\<close>

function kill_line :: "console \<Rightarrow> (unit, console) res" where
  "kill_line s =
     (if ce s \<noteq> cw s \<and> cbuf s ! (unat (ce s - 1) mod INPUT_BUF) \<noteq> 10
      then bindr (consputc BACKSPACE (s\<lparr>ce := ce s - 1\<rparr>)) (\<lambda>_ s1. kill_line s1)
      else Ret () s)"
  by pat_completeness auto
termination
proof (relation "measure (\<lambda>s. unat (ce s - cw s))", goal_cases)
  case (2 s u t)
  have "consputc BACKSPACE (s\<lparr>ce := ce s - 1\<rparr>) = Ret () t" using 2(2) by simp
  from cga_keeps_input [OF this] have e: "ce t = ce s - 1" "cw t = cw s" by simp_all
  have ne: "ce s - cw s \<noteq> 0" using 2(1) by simp
  have u: "unat (ce s - cw s - 1) = unat (ce s - cw s) - 1" using ne by (rule unat_minus_one)
  have p: "0 < unat (ce s - cw s)" by (rule unat_gt_0 [THEN iffD2, OF ne])
  have d: "ce s - 1 - cw s = ce s - cw s - 1" by simp
  have "unat (ce t - cw t) < unat (ce s - cw s)" unfolding e d u using p by linarith
  then show ?case by (simp only: in_measure)
qed simp

declare kill_line.simps [simp del]

text \<open>
  One key of \<open>consoleintr\<close>. The result says whether the readers are woken up and whether the
  process listing was asked for.
\<close>

definition erase_char :: "console \<Rightarrow> (unit, console) res" where
  "erase_char s = (if ce s \<noteq> cw s then consputc BACKSPACE (s\<lparr>ce := ce s - 1\<rparr>) else Ret () s)"

definition store_char :: "int \<Rightarrow> console \<Rightarrow> (bool, console) res" where
  "store_char c s =
     (if c \<noteq> 0 \<and> ce s - cr s < 128 then
        let c1 = (if c = 13 then 10 else c)
        in bindr (consputc c1 (in_put (of_int c1) s)) (\<lambda>_ s1.
             if c1 = 10 \<or> c1 = 4 \<or> ce s1 = cr s1 + 128 then Ret True (s1\<lparr>cw := ce s1\<rparr>)
             else Ret False s1)
      else Ret False s)"

definition consoleintr_key :: "int \<Rightarrow> console \<Rightarrow> (bool \<times> bool, console) res" where
  "consoleintr_key c s =
     (if c = 16 then Ret (False, True) s
      else if c = 21 then bindr (kill_line s) (\<lambda>_ s1. Ret (False, False) s1)
      else if c = 8 \<or> c = 127 then bindr (erase_char s) (\<lambda>_ s1. Ret (False, False) s1)
      else bindr (store_char c s) (\<lambda>w s1. Ret (w, False) s1))"

fun consoleintr :: "int list \<Rightarrow> console \<Rightarrow> (bool \<times> bool, console) res" where
  "consoleintr [] s = Ret (False, False) s"
| "consoleintr (c # cs) s =
     bindr (consoleintr_key c s) (\<lambda>r1 s1.
     bindr (consoleintr cs s1) (\<lambda>r2 s2. Ret (fst r1 \<or> fst r2, snd r1 \<or> snd r2) s2))"

text \<open>
  The loop of \<open>consoleread\<close> between its two critical sections of the inode: \<open>n\<close> is what is still
  wanted and \<open>target\<close> what was asked for. \<open>Sleeps\<close> means that the reader waits for input with
  what it has copied so far; \<open>None\<close> is the return value -1 of a killed process.
\<close>

fun consoleread_loop :: "bool \<Rightarrow> nat \<Rightarrow> nat \<Rightarrow> u8 list \<Rightarrow> console \<Rightarrow> (u8 list option, u8 list \<times> console) res" where
  "consoleread_loop killed target 0 acc s = Ret (Some acc) (acc, s)"
| "consoleread_loop killed target (Suc n) acc s =
     (if cr s = cw s then (if killed then Ret None (acc, s) else Sleeps (acc, s))
      else let (c, s1) = in_get s
           in if c = 4 then
                Ret (Some acc) (acc, if Suc n < target then s1\<lparr>cr := cr s1 - 1\<rparr> else s1)
              else if c = 10 then Ret (Some (acc @ [c])) (acc @ [c], s1)
              else consoleread_loop killed target n (acc @ [c]) s1)"

definition consoleinit :: "console \<Rightarrow> console" where
  "consoleinit s = s\<lparr>devsw_console := True, locking := True\<rparr>"

text \<open>What \<open>panic\<close> does to the console before it stops the processor.\<close>

definition panic_cons :: "u32 \<Rightarrow> u8 list \<Rightarrow> u32 list \<Rightarrow> console \<Rightarrow> (unit, console) res option" where
  "panic_cons lapic msg pcs s =
     (case cprintf_chars [108,97,112,105,99,105,100,32,37,100,58,32,112,97,110,105,99,58,32] [PInt lapic] of
        None \<Rightarrow> None
      | Some c1 \<Rightarrow> (case cprintf_chars msg [] of
          None \<Rightarrow> None
        | Some c2 \<Rightarrow>
            Some (bindr (consputs (c1 @ c2 @ [10] @ concat (map (\<lambda>pc. 32 # printint pc 16 False) pcs))
                          (s\<lparr>locking := False\<rparr>))
                    (\<lambda>_ s1. Ret () (s1\<lparr>panicked := True\<rparr>)))))"

subsection \<open>The line discipline\<close>

text \<open>
  The input ring as a queue of bytes; its first part is what readers may take, the rest is the
  line being edited. \<open>cons_inv\<close> also says that the line has no newline in it and that a full
  ring has been handed to the readers.
\<close>

definition cons_contents :: "console \<Rightarrow> u8 list" where
  "cons_contents s = ring (cbuf s) (cr s) (ce s)"

definition committed :: "console \<Rightarrow> u8 list" where
  "committed s = take (unat (cw s - cr s)) (cons_contents s)"

definition edit_line :: "console \<Rightarrow> u8 list" where
  "edit_line s = drop (unat (cw s - cr s)) (cons_contents s)"

definition cons_inv :: "console \<Rightarrow> bool" where
  "cons_inv s \<longleftrightarrow> length (cbuf s) = INPUT_BUF \<and> unat (ce s - cr s) \<le> INPUT_BUF \<and>
     unat (cw s - cr s) \<le> unat (ce s - cr s) \<and> 10 \<notin> set (edit_line s) \<and>
     (unat (ce s - cr s) = INPUT_BUF \<longrightarrow> cw s = ce s)"

definition screen_ok :: "console \<Rightarrow> bool" where
  "screen_ok s \<longleftrightarrow> length (crt s) = 2000 \<and> 0 \<le> cursor s \<and> cursor s < 24 * 80 \<and> \<not> panicked s"

definition line_store :: "int \<Rightarrow> u8 list \<times> u8 list \<Rightarrow> u8 list \<times> u8 list" where
  "line_store c ql =
     (let (q, l) = ql; c1 = (if c = 13 then 10 else c); l1 = l @ [of_int c1]
      in if c \<noteq> 0 \<and> length q + length l < INPUT_BUF then
           (if c1 = 10 \<or> c1 = 4 \<or> length q + length l1 = INPUT_BUF then (q @ l1, []) else (q, l1))
         else (q, l))"

definition line_key :: "int \<Rightarrow> u8 list \<times> u8 list \<Rightarrow> u8 list \<times> u8 list" where
  "line_key c ql =
     (if c = 16 then ql
      else if c = 21 then (fst ql, [])
      else if c = 8 \<or> c = 127 then (fst ql, butlast (snd ql))
      else line_store c ql)"

interpretation cq: fifo "\<lambda>s. length (cbuf s) = INPUT_BUF" cons_contents INPUT_BUF in_put in_get
proof
  fix s :: console and a
  assume "length (cbuf s) = 128" "length (cons_contents s) < 128"
  then show "length (cbuf (in_put a s)) = 128 \<and> cons_contents (in_put a s) = cons_contents s @ [a]"
    using ring_put [of "cbuf s" 128 "ce s" "cr s" a] by (simp add: in_put_def cons_contents_def)
next
  fix s :: console
  assume a: "length (cbuf s) = 128" "cons_contents s \<noteq> []"
  then have "cr s \<noteq> ce s" by (simp add: cons_contents_def ring_empty_iff)
  then show "length (cbuf (snd (in_get s))) = 128 \<and>
      cons_contents s = fst (in_get s) # cons_contents (snd (in_get s))"
    using a ring_get [of "cbuf s" 128 "cr s" "ce s"] by (simp add: in_get_def cons_contents_def)
qed

text \<open>The screen code always returns and keeps the cursor on the screen.\<close>

lemma consputc_ok:
  assumes "screen_ok s"
  obtains t where "consputc c s = Ret () t" "screen_ok t" "cons_rest t = cons_rest s"
proof -
  have "\<exists>t. consputc c s = Ret () t \<and> screen_ok t"
  proof -
    define s1 where "s1 = s\<lparr>uart := uart s @ (if c = BACKSPACE then [8, 32, 8] else [of_int c])\<rparr>"
    have s1: "screen_ok s1" "consputc c s = cgaputc c s1"
      using assms by (auto simp: s1_def screen_ok_def consputc_def)
    obtain pos s2 where a: "cga_advance c s1 = (pos, s2)" by (cases "cga_advance c s1")
    have m: "0 \<le> cursor s1 mod 80" "cursor s1 mod 80 < 80" "cursor s1 = 80 * (cursor s1 div 80) + cursor s1 mod 80"
      by simp_all
    have "cursor s1 div 80 < 24" using s1(1) m unfolding screen_ok_def by linarith
    then have nl: "cursor s1 + (80 - cursor s1 mod 80) \<le> 1920" using m by linarith
    have p: "0 \<le> pos" "pos \<le> 1920" "length (crt s2) = 2000" "\<not> panicked s2"
      using a s1(1) nl m by (auto simp: cga_advance_def screen_ok_def set_cell_def Let_def split: if_splits)
    obtain pos' s3 where b: "cga_scroll pos s2 = (pos', s3)" by (cases "cga_scroll pos s2")
    have q: "0 \<le> pos'" "pos' < 1920" "length (crt s3) = 2000" "\<not> panicked s3"
      using b p by (auto simp: cga_scroll_def Let_def split: if_splits)
    show ?thesis using s1(2) a b p q by (simp add: cgaputc_def screen_ok_def set_cell_def)
  qed
  then obtain t where t: "consputc c s = Ret () t" "screen_ok t" by (elim exE conjE)
  show thesis by (rule that [OF t consputc_rest [OF t(1)]])
qed

text \<open>The three ways a key changes the line: erasing a byte, erasing them all, storing one.\<close>

lemma ring_butlast:
  assumes "r \<noteq> w" shows "ring d r (w - 1) = butlast (ring d r w)"
proof -
  have n: "w - r \<noteq> 0" using assms by simp
  have u: "unat (w - r - 1) = unat (w - r) - 1" using n by (rule unat_minus_one)
  obtain k where k: "unat (w - r) = Suc k" using unat_gt_0 [THEN iffD2, OF n] by (auto simp: gr0_conv_Suc)
  have e: "w - 1 - r = w - r - 1" by simp
  have "unat (w - 1 - r) = k" unfolding e u k by simp
  then show ?thesis unfolding ring_def by (simp add: k)
qed

lemma ring_last:
  assumes "r \<noteq> w" "length d = N" shows "last (ring d r w) = d ! (unat (w - 1) mod N)"
proof -
  have n: "w - r \<noteq> 0" using assms by simp
  obtain k where k: "unat (w - r) = Suc k" using unat_gt_0 [THEN iffD2, OF n] by (auto simp: gr0_conv_Suc)
  have u: "unat (w - r - 1) = k" using unat_minus_one [OF n] k by simp
  have "of_nat (unat (w - r - 1)) = w - r - 1" by simp
  then have "of_nat k = w - r - 1" unfolding u .
  then have "r + of_nat k = w - 1" by simp
  then show ?thesis using assms(2) by (simp add: ring_def k)
qed

lemma cons_rest_abs:
  assumes "cons_rest t = cons_rest s"
  shows "cons_contents t = cons_contents s" "committed t = committed s" "edit_line t = edit_line s"
    "cons_inv t = cons_inv s" "cr t = cr s" "cw t = cw s" "ce t = ce s"
  using assms by (auto simp: cons_rest_def cons_contents_def committed_def edit_line_def cons_inv_def)

lemma edit_line_length: "cons_inv s \<Longrightarrow> length (edit_line s) = unat (ce s - cr s) - unat (cw s - cr s)"
  by (simp add: edit_line_def cons_contents_def)

lemma committed_length: "cons_inv s \<Longrightarrow> length (committed s) = unat (cw s - cr s)"
  by (simp add: committed_def cons_contents_def cons_inv_def)

lemma edit_line_empty: "cons_inv s \<Longrightarrow> edit_line s = [] \<longleftrightarrow> ce s = cw s"
proof -
  assume i: "cons_inv s"
  have le: "unat (cw s - cr s) \<le> unat (ce s - cr s)" using i by (simp add: cons_inv_def)
  have "edit_line s = [] \<longleftrightarrow> unat (ce s - cr s) - unat (cw s - cr s) = 0"
    by (simp only: edit_line_length [OF i, symmetric] length_0_conv)
  also have "\<dots> \<longleftrightarrow> unat (ce s - cr s) = unat (cw s - cr s)" using le by linarith
  finally have "edit_line s = [] \<longleftrightarrow> unat (ce s - cr s) = unat (cw s - cr s)" .
  then show ?thesis by (simp add: word_unat_eq_iff [symmetric])
qed

lemma erase_one:
  assumes i: "cons_inv s" and ne: "ce s \<noteq> cw s"
  defines "t \<equiv> s\<lparr>ce := ce s - 1\<rparr>"
  shows "cons_inv t" "committed t = committed s" "edit_line t = butlast (edit_line s)"
proof -
  have gt: "unat (cw s - cr s) < unat (ce s - cr s)"
    using edit_line_empty [OF i] edit_line_length [OF i] ne by (metis length_greater_0_conv zero_less_diff)
  then have rne: "cr s \<noteq> ce s" by auto
  have c: "cons_contents t = butlast (cons_contents s)"
    using ring_butlast [OF rne] by (simp add: t_def cons_contents_def)
  have "length (cons_contents t) = length (cons_contents s) - 1" by (simp add: c)
  then have len: "unat (ce t - cr t) = unat (ce s - cr s) - 1" by (simp add: cons_contents_def)
  have f: "cw t = cw s" "cr t = cr s" "cbuf t = cbuf s" by (simp_all add: t_def)
  have n: "unat (cw s - cr s) < length (cons_contents s)" using gt by (simp add: cons_contents_def)
  show 2: "committed t = committed s"
    using n by (simp add: committed_def c f take_butlast)
  show 3: "edit_line t = butlast (edit_line s)"
    by (simp add: edit_line_def c f butlast_drop)
  show "cons_inv t"
    using i gt len f 3 by (auto simp: cons_inv_def dest: in_set_butlastD)
qed

lemma erase_char_ok:
  assumes "cons_inv s" "screen_ok s"
  obtains t where "erase_char s = Ret () t" "screen_ok t" "cons_inv t" "committed t = committed s"
    "edit_line t = butlast (edit_line s)"
proof (cases "ce s = cw s")
  case True
  then show thesis using that [of s] assms edit_line_empty [of s] by (simp add: erase_char_def)
next
  case False
  have "screen_ok (s\<lparr>ce := ce s - 1\<rparr>)" using assms(2) by (simp add: screen_ok_def)
  from consputc_ok [OF this] obtain t where t: "consputc BACKSPACE (s\<lparr>ce := ce s - 1\<rparr>) = Ret () t"
    "screen_ok t" "cons_rest t = cons_rest (s\<lparr>ce := ce s - 1\<rparr>)" .
  show thesis
    using that [of t] False t erase_one [OF assms(1) False] cons_rest_abs [OF t(3)]
    by (simp add: erase_char_def)
qed

lemma kill_line_ok:
  assumes "cons_inv s" "screen_ok s"
  shows "\<exists>t. kill_line s = Ret () t \<and> screen_ok t \<and> cons_inv t \<and> committed t = committed s \<and> edit_line t = []"
  using assms
proof (induction n \<equiv> "length (edit_line s)" arbitrary: s)
  case 0
  then show ?case using edit_line_empty [of s] by (subst kill_line.simps) simp
next
  case (Suc n)
  then have ne: "ce s \<noteq> cw s" using edit_line_empty [of s] by auto
  have last: "cbuf s ! (unat (ce s - 1) mod INPUT_BUF) = last (edit_line s)"
  proof -
    have "cr s \<noteq> ce s" using ne Suc.prems(1) by (auto simp: cons_inv_def unat_eq_0)
    moreover have "last (edit_line s) = last (cons_contents s)"
      using Suc.hyps(2) by (simp add: edit_line_def)
    ultimately show ?thesis using Suc.prems(1) by (simp add: cons_contents_def ring_last cons_inv_def)
  qed
  have "last (edit_line s) \<noteq> 10"
    using Suc.hyps(2) Suc.prems(1) by (metis cons_inv_def last_in_set length_0_conv nat.distinct(1))
  then have step: "kill_line s = bindr (erase_char s) (\<lambda>_. kill_line)"
    using ne last by (subst kill_line.simps) (simp add: erase_char_def)
  from erase_char_ok [OF Suc.prems] obtain t where t: "erase_char s = Ret () t" "screen_ok t" "cons_inv t"
    "committed t = committed s" "edit_line t = butlast (edit_line s)" .
  have "n = length (edit_line t)" using t(5) Suc.hyps(2) by simp
  from Suc.hyps(1) [OF this t(3,2)] show ?case using step t by simp
qed

lemma store_byte:
  fixes b :: u8
  assumes i: "cons_inv s" and room: "unat (ce s - cr s) < INPUT_BUF"
  defines "t \<equiv> in_put b s"
  shows "length (cbuf t) = INPUT_BUF" "cons_contents t = cons_contents s @ [b]" "cw t = cw s" "cr t = cr s"
    "unat (ce t - cr t) = Suc (unat (ce s - cr s))" "committed t = committed s"
    "edit_line t = edit_line s @ [b]"
proof -
  have l: "length (cbuf s) = INPUT_BUF" and le: "unat (cw s - cr s) \<le> length (cons_contents s)"
    using i by (simp_all add: cons_inv_def cons_contents_def)
  have "length (cons_contents s) < INPUT_BUF" using room by (simp add: cons_contents_def)
  from cq.put_ok [OF l this, of b]
  show a: "length (cbuf t) = INPUT_BUF" and c: "cons_contents t = cons_contents s @ [b]"
    by (simp_all add: t_def)
  show f: "cw t = cw s" "cr t = cr s" by (simp_all add: t_def in_put_def)
  show "unat (ce t - cr t) = Suc (unat (ce s - cr s))"
    using arg_cong [where f = length, OF c] by (simp add: cons_contents_def)
  show "committed t = committed s" "edit_line t = edit_line s @ [b]"
    using le by (simp_all add: committed_def edit_line_def c f)
qed

lemma store_char_ok:
  assumes i: "cons_inv s" and sc: "screen_ok s" and c: "0 \<le> c" "c < 256"
  shows "\<exists>r t. store_char c s = Ret r t \<and> screen_ok t \<and> cons_inv t \<and>
     (committed t, edit_line t) = line_store c (committed s, edit_line s)"
proof (cases "c \<noteq> 0 \<and> ce s - cr s < 128")
  case False
  then have "\<not> (c \<noteq> 0 \<and> length (committed s) + length (edit_line s) < INPUT_BUF)"
    using i by (simp add: word_less_nat_alt committed_length edit_line_length cons_inv_def)
  then show ?thesis using False assms by (auto simp: store_char_def line_store_def)
next
  case True
  define c1 where "c1 = (if c = 13 then 10 else c)"
  define u where "u = in_put (of_int c1) s"
  have room: "unat (ce s - cr s) < INPUT_BUF" using True by (simp add: word_less_nat_alt)
  note u = store_byte [OF i room, where b = "of_int c1", folded u_def]
  have "screen_ok u" using sc by (simp add: u_def in_put_def screen_ok_def)
  from consputc_ok [OF this] obtain t where t: "consputc c1 u = Ret () t" "screen_ok t"
    "cons_rest t = cons_rest u" .
  note ta = cons_rest_abs [OF t(3)]
  have tl: "length (cbuf t) = INPUT_BUF" using t(3) u(1) by (simp add: cons_rest_def)
  have sum: "length (committed s) + length (edit_line s) = unat (ce s - cr s)"
    using i by (simp add: committed_length edit_line_length cons_inv_def)
  have b10: "c1 \<noteq> 10 \<Longrightarrow> (of_int c1 :: u8) \<noteq> 10"
  proof
    assume "c1 \<noteq> 10" "(of_int c1 :: u8) = 10"
    then have "uint (of_int c1 :: u8) = 10" by simp
    then have "c1 mod 256 = 10" by (simp add: unsigned_of_int take_bit_eq_mod)
    then show False using c \<open>c1 \<noteq> 10\<close> by (simp add: c1_def split: if_splits)
  qed
  have full: "ce t = cr t + 128 \<longleftrightarrow> length (committed s) + length (edit_line s @ [of_int c1 :: u8]) = INPUT_BUF"
  proof -
    have "ce t = cr t + 128 \<longleftrightarrow> ce u - cr u = 128" by (auto simp: ta diff_eq_eq add.commute)
    also have "\<dots> \<longleftrightarrow> unat (ce u - cr u) = 128" by (simp add: word_unat_eq_iff)
    finally show ?thesis using u(5) sum by simp
  qed
  show ?thesis
  proof (cases "c1 = 10 \<or> c1 = 4 \<or> ce t = cr t + 128")
    case T: True
    let ?t = "t\<lparr>cw := ce t\<rparr>"
    have cc: "cons_contents ?t = committed s @ edit_line s @ [of_int c1]"
      using ta(1) u(2) by (simp add: cons_contents_def committed_def edit_line_def)
    have "committed ?t = cons_contents ?t" and el: "edit_line ?t = []"
      by (simp_all add: committed_def edit_line_def cons_contents_def)
    then have cm: "committed ?t = committed s @ edit_line s @ [of_int c1]" by (simp only: cc)
    have "cons_inv ?t" using cm el tl u(5) room by (simp add: cons_inv_def ta)
    moreover have "screen_ok ?t" using t(2) by (simp add: screen_ok_def)
    moreover have "store_char c s = Ret True ?t"
      using True T t(1) by (simp add: store_char_def u_def c1_def)
    moreover have "line_store c (committed s, edit_line s) = (committed s @ edit_line s @ [of_int c1], [])"
      using True T full sum room by (auto simp: line_store_def Let_def simp flip: c1_def)
    ultimately show ?thesis using cm el by (simp add: ex_bool_eq)
  next
    case F: False
    have "cons_inv t"
      unfolding cons_inv_def using tl room u(5-7) i F full sum b10
      by (auto simp: ta cons_inv_def u)
    moreover have "store_char c s = Ret False t"
      using True F t(1) by (simp add: store_char_def u_def c1_def)
    moreover have "line_store c (committed s, edit_line s) = (committed s, edit_line s @ [of_int c1])"
      using True F full sum room by (auto simp: line_store_def Let_def simp flip: c1_def)
    ultimately show ?thesis using t(2) u(6,7) ta by (simp add: ex_bool_eq)
  qed
qed

lemma consoleintr_key_ok:
  assumes "cons_inv s" "screen_ok s" "0 \<le> c" "c < 256"
  shows "\<exists>r t. consoleintr_key c s = Ret r t \<and> screen_ok t \<and> cons_inv t \<and>
     (committed t, edit_line t) = line_key c (committed s, edit_line s)"
proof -
  obtain t where t: "erase_char s = Ret () t" "screen_ok t" "cons_inv t" "committed t = committed s"
    "edit_line t = butlast (edit_line s)" using erase_char_ok [OF assms(1,2)] .
  have "\<exists>t. kill_line s = Ret () t \<and> screen_ok t \<and> cons_inv t \<and> committed t = committed s \<and> edit_line t = []"
    using kill_line_ok [OF assms(1,2)] .
  then show ?thesis
    using t assms(1,2) store_char_ok [OF assms] by (auto simp: consoleintr_key_def line_key_def)
qed

text \<open>
  (C16) Keyboard input is a line editor over a queue. From any consistent console, handling any
  sequence of key codes returns without a panic and keeps the console consistent, and what
  readers may take together with the line being edited changes exactly as the editor
  \<open>line_key\<close> says: control-U empties the line, backspace drops its last byte, any other byte is
  appended while fewer than 128 bytes are held, and newline, control-D or the 128th byte hand
  the line to the readers.
\<close>

theorem consoleintr_line_editor:
  assumes "cons_inv s" "screen_ok s" "\<And>c. c \<in> set cs \<Longrightarrow> 0 \<le> c \<and> c < 256"
  shows "\<exists>r t. consoleintr cs s = Ret r t \<and> screen_ok t \<and> cons_inv t \<and>
     (committed t, edit_line t) = fold line_key cs (committed s, edit_line s)"
  using assms
proof (induction cs arbitrary: s)
  case (Cons c cs)
  obtain r t where t: "consoleintr_key c s = Ret r t" "screen_ok t" "cons_inv t"
    "(committed t, edit_line t) = line_key c (committed s, edit_line s)"
    using consoleintr_key_ok [OF Cons.prems(1,2), of c] Cons.prems(3) by auto
  from Cons.IH [OF t(3,2)] Cons.prems(3) t show ?case by auto
qed auto

definition empty_console :: console where
  "empty_console = \<lparr>cbuf = replicate INPUT_BUF 0, cr = 0, cw = 0, ce = 0, crt = replicate 2000 0, cursor = 0,
     uart = [], locking = True, panicked = False, devsw_console = True\<rparr>"

lemma empty_console_ok: "cons_inv empty_console" "screen_ok empty_console"
  "committed empty_console = []" "edit_line empty_console = []"
  by (simp_all add: empty_console_def cons_inv_def screen_ok_def committed_def edit_line_def
      cons_contents_def ring_def)

theorem consoleintr_line_editor_witness:
  "\<exists>r t. consoleintr [97, 98, 8, 99, 13, 120] empty_console = Ret r t \<and>
     committed t = [97, 99, 10] \<and> edit_line t = [120]"
proof -
  have "fold line_key [97, 98, 8, 99, 13, 120] ([], []) = ([97, 99, 10], [120])"
    by (simp add: line_key_def line_store_def)
  moreover have "0 \<le> c \<and> c < 256" if "c \<in> set [97, 98, 8, 99, 13, 120]" for c :: int
    using that by auto
  ultimately show ?thesis
    using consoleintr_line_editor [OF empty_console_ok(1,2), of "[97, 98, 8, 99, 13, 120]"]
    by (auto simp: empty_console_ok)
qed

subsection \<open>Reading lines\<close>

lemma in_get_ok:
  assumes i: "cons_inv s" and ne: "cr s \<noteq> cw s"
  shows "cons_inv (snd (in_get s))" "committed s = fst (in_get s) # committed (snd (in_get s))"
    "edit_line (snd (in_get s)) = edit_line s"
proof -
  let ?t = "snd (in_get s)"
  have l: "length (cbuf s) = INPUT_BUF" using i by (simp add: cons_inv_def)
  have wr: "cw s - cr s \<noteq> 0" using ne by simp
  have u: "unat (cw ?t - cr ?t) = unat (cw s - cr s) - 1"
    using unat_minus_one [OF wr] by (simp add: in_get_def diff_diff_eq)
  have p: "0 < unat (cw s - cr s)" by (rule unat_gt_0 [THEN iffD2, OF wr])
  have "cons_contents s \<noteq> []" using i p by (auto simp: cons_contents_def cons_inv_def ring_empty_iff)
  from cq.get_ok [OF l this] have g: "cons_contents s = fst (in_get s) # cons_contents ?t"
    and lt: "length (cbuf ?t) = INPUT_BUF" by auto
  have le: "unat (ce s - cr s) = Suc (unat (ce ?t - cr ?t))"
    using arg_cong [where f = length, OF g] by (simp add: cons_contents_def)
  show c: "committed s = fst (in_get s) # committed ?t"
    unfolding committed_def g u using p by (cases "unat (cw s - cr s)") auto
  show e: "edit_line ?t = edit_line s"
    unfolding edit_line_def g u using p by (cases "unat (cw s - cr s)") auto
  show "cons_inv ?t" using i lt le u p e by (auto simp: cons_inv_def)
qed

lemma consume_ok:
  assumes "cons_inv s" "k \<le> length (committed s)"
  shows "cons_inv (s\<lparr>cr := cr s + of_nat k\<rparr>) \<and> committed (s\<lparr>cr := cr s + of_nat k\<rparr>) = drop k (committed s) \<and>
    edit_line (s\<lparr>cr := cr s + of_nat k\<rparr>) = edit_line s"
  using assms
proof (induction k arbitrary: s)
  case (Suc k)
  have "cr s \<noteq> cw s" using Suc.prems by (auto simp: committed_length)
  note g = in_get_ok [OF Suc.prems(1) this]
  have "k \<le> length (committed (snd (in_get s)))" using Suc.prems(2) g(2) by simp
  from Suc.IH [OF g(1) this] show ?case using g(2,3) by (simp add: in_get_def algebra_simps)
qed simp

definition text_byte :: "u8 \<Rightarrow> bool" where
  "text_byte c \<longleftrightarrow> c \<noteq> 10 \<and> c \<noteq> 4"

lemma consoleread_loop_spec:
  assumes "cons_inv s" "n \<le> target" "0 < target"
  shows "consoleread_loop False target n acc s =
    (let q = committed s; m = length (takeWhile text_byte q); after = (\<lambda>k. s\<lparr>cr := cr s + of_nat k\<rparr>)
     in if n \<le> m then Ret (Some (acc @ take n q)) (acc @ take n q, after n)
        else if m = length q then Sleeps (acc @ q, after m)
        else if q ! m = 10 then Ret (Some (acc @ take (Suc m) q)) (acc @ take (Suc m) q, after (Suc m))
        else Ret (Some (acc @ take m q)) (acc @ take m q, after (if n - m < target then m else Suc m)))"
  using assms
proof (induction n arbitrary: acc s)
  case (Suc n)
  show ?case
  proof (cases "cr s = cw s")
    case True
    then have "committed s = []" using committed_length [OF Suc.prems(1)] by simp
    then show ?thesis using True by simp
  next
    case False
    note g = in_get_ok [OF Suc.prems(1) False]
    have f: "snd (in_get s) = s\<lparr>cr := cr s + 1\<rparr>" by (simp add: in_get_def)
    obtain b where b: "fst (in_get s) = b" by simp
    have ig: "in_get s = (b, s\<lparr>cr := cr s + 1\<rparr>)" using f b by (metis prod.collapse)
    have q: "committed s = b # committed (s\<lparr>cr := cr s + 1\<rparr>)" using g(2) by (simp only: ig fst_conv snd_conv)
    show ?thesis
    proof (cases "text_byte b")
      case True
      have "cons_inv (s\<lparr>cr := cr s + 1\<rparr>)" using g(1) f by simp
      note IH = Suc.IH [OF this, of "acc @ [b]"]
      show ?thesis using False True Suc.prems IH
        by (simp add: ig q text_byte_def Let_def algebra_simps)
    next
      case F: False
      then show ?thesis using False Suc.prems by (auto simp: ig q text_byte_def)
    qed
  qed
qed simp

text \<open>
  (C17) A reader gets one line. Reading \<open>n\<close> bytes from a console whose handed-over input is \<open>q\<close>
  returns the bytes of \<open>q\<close> up to and including the first newline, or the first \<open>n\<close> if they come
  before it; it waits exactly when \<open>q\<close> has neither. A control-D ends the read before it, and is
  consumed only when it is the first byte, so that the next read returns no bytes. What was
  returned leaves the queue, the rest and the line being edited stay.
\<close>

theorem consoleread_line:
  assumes "cons_inv s" "0 < n"
  defines "q \<equiv> committed s"
  defines "m \<equiv> length (takeWhile text_byte q)"
  shows "\<exists>t. cons_inv t \<and> edit_line t = edit_line s \<and>
    (if n \<le> m then
       consoleread_loop False n n [] s = Ret (Some (take n q)) (take n q, t) \<and> committed t = drop n q
     else if m = length q then
       consoleread_loop False n n [] s = Sleeps (q, t) \<and> committed t = []
     else if q ! m = 10 then
       consoleread_loop False n n [] s = Ret (Some (take (Suc m) q)) (take (Suc m) q, t) \<and>
       committed t = drop (Suc m) q
     else
       consoleread_loop False n n [] s = Ret (Some (take m q)) (take m q, t) \<and>
       committed t = drop (if m = 0 then 1 else m) q)"
proof -
  define k where "k = (if n \<le> m then n else if m = length q then m else if q ! m = 10 then Suc m
    else if n - m < n then m else Suc m)"
  have "m \<le> length q" by (simp add: m_def length_takeWhile_le)
  then have "k \<le> length (committed s)" unfolding q_def [symmetric] by (auto simp: k_def)
  note c = consume_ok [OF assms(1) this]
  have "consoleread_loop False n n [] s = (let after = (\<lambda>k. s\<lparr>cr := cr s + of_nat k\<rparr>)
     in if n \<le> m then Ret (Some (take n q)) (take n q, after n)
        else if m = length q then Sleeps (q, after m)
        else if q ! m = 10 then Ret (Some (take (Suc m) q)) (take (Suc m) q, after (Suc m))
        else Ret (Some (take m q)) (take m q, after (if n - m < n then m else Suc m)))"
    using consoleread_loop_spec [OF assms(1) le_refl assms(2)] by (simp add: Let_def q_def m_def)
  then show ?thesis
    using c assms(2) by (intro exI [of _ "s\<lparr>cr := cr s + of_nat k\<rparr>"])
      (cases "q ! m = 10"; cases "m = 0"; auto simp: k_def Let_def simp flip: q_def)
qed

definition typed_console :: console where
  "typed_console = empty_console\<lparr>cbuf := [97, 10, 98, 99] @ replicate 124 0, cw := 3, ce := 4\<rparr>"

lemma typed_console_ok:
  "cons_inv typed_console" "committed typed_console = [97, 10, 98]" "edit_line typed_console = [99]"
proof -
  show a: "committed typed_console = [97, 10, 98]" and b: "edit_line typed_console = [99]"
    by code_simp+
  show "cons_inv typed_console" unfolding cons_inv_def b by (simp add: typed_console_def empty_console_def)
qed

theorem consoleread_line_witness:
  "\<exists>t. consoleread_loop False 10 10 [] typed_console = Ret (Some [97, 10]) ([97, 10], t) \<and>
     committed t = [98] \<and> edit_line t = [99]"
  using consoleread_line [OF typed_console_ok(1), of 10] by (auto simp: typed_console_ok text_byte_def)

subsection \<open>Printed numbers\<close>

definition digit_value :: "int \<Rightarrow> nat" where
  "digit_value c = (if c < 58 then nat (c - 48) else nat (c - 87))"

lemma digit_value_nth: "d < 16 \<Longrightarrow> digit_value (int (digit_chars ! d)) = d"
proof -
  have "list_all (\<lambda>d. digit_value (int (digit_chars ! d)) = d) [0..<16]" by code_simp
  then show "d < 16 \<Longrightarrow> digit_value (int (digit_chars ! d)) = d" by (simp add: list_all_iff)
qed

lemma printint_digits_length:
  assumes "2 \<le> base" "x < base ^ Suc k" shows "length (printint_digits base x) \<le> Suc k"
  using assms
proof (induction base x arbitrary: k rule: printint_digits.induct)
  case (1 base x)
  show ?case
  proof (cases "x div base = 0")
    case True
    then show ?thesis by (subst printint_digits.simps) simp
  next
    case False
    then obtain j where j: "k = Suc j" using "1.prems" by (cases k) auto
    have "x div base < base ^ Suc j"
      using "1.prems" j by (simp add: less_mult_imp_div_less mult.commute)
    then have "length (printint_digits base (x div base)) \<le> Suc j"
      using "1.IH" "1.prems"(1) False by simp
    then show ?thesis using j by (subst printint_digits.simps) simp
  qed
qed

lemma printint_digits_value:
  assumes "2 \<le> base" "base \<le> 16"
  shows "foldr (\<lambda>c a. digit_value c + base * a) (printint_digits base x) 0 = x"
  using assms
proof (induction base x rule: printint_digits.induct)
  case (1 base x)
  have "digit_value (int (digit_chars ! (x mod base))) = x mod base"
    using "1.prems" mod_less_divisor [of base x] by (intro digit_value_nth) linarith
  moreover have "x div base = 0 \<Longrightarrow> x mod base = x" using mod_mult_div_eq [of x base] by simp
  ultimately show ?case using 1 by (subst printint_digits.simps) auto
qed

text \<open>
  (C34) The buffer \<open>buf[16]\<close> of \<open>printint\<close> is never overrun: for the bases 10 and 16 that
  \<open>cprintf\<close> uses, a 32-bit number with its sign takes at most 11 characters, and at least one.
\<close>

theorem printint_fits:
  "base = 10 \<or> base = 16 \<Longrightarrow> 1 \<le> length (printint xx base sign) \<and> length (printint xx base sign) \<le> 11"
proof -
  assume b: "base = 10 \<or> base = 16"
  have l: "length (printint_digits base (unat (x :: u32))) \<le> 10" for x
  proof -
    have "unat x < base ^ Suc 9" using b unat_lt32 [of x] by (auto simp del: unat_lt32)
    from printint_digits_length [OF _ this] b show ?thesis by auto
  qed
  have "printint_digits base (unat (x :: u32)) \<noteq> []" for x
    using b by (subst printint_digits.simps) auto
  then have "1 \<le> length (printint_digits base (unat (x :: u32)))" for x
    by (simp add: Suc_le_eq)
  from this [of xx] this [of "- xx"] l [of xx] l [of "- xx"] show ?thesis
    by (simp add: printint_def Let_def)
qed

theorem printint_fits_witness:
  "printint 0x80000000 10 True = [45, 50, 49, 52, 55, 52, 56, 51, 54, 52, 56] \<and>
   length (printint 0x80000000 10 True) \<le> 11"
proof
  show "printint 0x80000000 10 True = [45, 50, 49, 52, 55, 52, 56, 51, 54, 52, 56]"
    by (simp add: printint_def digit_chars_def printint_digits.simps)
  show "length (printint 0x80000000 10 True) \<le> 11" using printint_fits [of 10] by blast
qed

end
