(* ===== verification/Bio.thy ===== *)
theory Bio
  imports Sleeplock Console
begin

section \<open>Disk and buffer cache: bio.c, buf.h\<close>

text \<open>
  The file-system state \<open>fsys\<close> is the disk and everything the kernel keeps in memory about
  it: the buffer cache here, the log header (theory \<open>Log\<close>) and the inode cache (theory
  \<open>Fs\<close>), the console, which is reached through device inodes, and the pid and kill flag of the
  running process. A block is the list of its 512 bytes. The doubly linked list through \<open>bcache.head\<close>
  is the list \<open>lru\<close> of buffer indices, most recently used first; the bits of \<open>flags\<close> are two
  truth values. \<open>iderw\<close> is the synchronous disk transfer that its callers see. A call that has
  to wait for a lock held by another process is the outcome \<open>Sleeps\<close>.

  \<open>dwrites\<close> records the block writes issued to the disk in order. It is not part of the
  kernel's state and no operation reads it; a crash is a disk to which only a prefix of
  these writes was applied.
\<close>

type_synonym block = "u8 list"
type_synonym bkey = "u32 \<times> u32"

record buf =
  b_valid :: bool
  b_dirty :: bool
  b_dev :: u32
  b_blockno :: u32
  b_lock :: sleeplock
  b_refcnt :: u32
  b_data :: block

record superblock =
  sb_size :: u32
  sb_nblocks :: u32
  sb_ninodes :: u32
  sb_nlog :: u32
  sb_logstart :: u32
  sb_inodestart :: u32
  sb_bmapstart :: u32

record dinode =
  di_type :: u16
  di_major :: u16
  di_minor :: u16
  di_nlink :: u16
  di_size :: u32
  di_addrs :: "u32 list"

record inode =
  i_dev :: u32
  i_inum :: u32
  i_ref :: int
  i_lock :: sleeplock
  i_valid :: bool
  i_d :: dinode

record fsys =
  disk :: "bkey \<Rightarrow> block"
  havedisk1 :: bool
  dwrites :: "(bkey \<times> block) list"
  bufs :: "buf list"
  lru :: "nat list"
  log_start :: u32
  log_size :: int
  log_outstanding :: int
  log_committing :: bool
  log_dev :: u32
  log_lh :: "u32 list"
  sb :: superblock
  icache :: "inode list"
  cons :: console
  curpid :: int
  curkilled :: bool

abbreviation "BSIZE \<equiv> 512 :: nat"
abbreviation "NBUF \<equiv> 30 :: nat"
abbreviation "FSSIZE \<equiv> 1000 :: u32"

definition bufat :: "nat \<Rightarrow> fsys \<Rightarrow> buf" where
  "bufat i s = bufs s ! i"

definition set_buf :: "nat \<Rightarrow> buf \<Rightarrow> fsys \<Rightarrow> fsys" where
  "set_buf i b s = s\<lparr>bufs := (bufs s)[i := b]\<rparr>"

definition bkey_of :: "buf \<Rightarrow> bkey" where
  "bkey_of b = (b_dev b, b_blockno b)"

subsection \<open>The functions of bio.c\<close>

definition binit :: "fsys \<Rightarrow> fsys" where
  "binit s = s\<lparr>bufs := map (\<lambda>b. b\<lparr>b_lock := initsleeplock ''buffer''\<rparr>) (bufs s),
               lru := rev [0..<length (bufs s)]\<rparr>"

definition iderw :: "nat \<Rightarrow> fsys \<Rightarrow> (unit, fsys) res" where
  "iderw i s =
     (let b = bufat i s
      in if \<not> holdingsleep (curpid s) (b_lock b) then Panic ''iderw: buf not locked''
         else if b_valid b \<and> \<not> b_dirty b then Panic ''iderw: nothing to do''
         else if b_dev b \<noteq> 0 \<and> \<not> havedisk1 s then Panic ''iderw: ide disk 1 not present''
         else if b_blockno b \<ge> FSSIZE then Panic ''incorrect blockno''
         else let k = (b_dev b AND 1, b_blockno b)
              in if b_dirty b
                 then Ret () (set_buf i (b\<lparr>b_valid := True, b_dirty := False\<rparr>)
                       (s\<lparr>disk := (disk s)(k := b_data b), dwrites := dwrites s @ [(k, b_data b)]\<rparr>))
                 else Ret () (set_buf i (b\<lparr>b_valid := True, b_data := disk s k\<rparr>) s))"

definition lock_buf :: "nat \<Rightarrow> fsys \<Rightarrow> (nat, fsys) res" where
  "lock_buf i s =
     (case acquiresleep (curpid s) (b_lock (bufat i s)) of
        None \<Rightarrow> Sleeps s
      | Some lk \<Rightarrow> Ret i (set_buf i ((bufat i s)\<lparr>b_lock := lk\<rparr>) s))"

definition bget :: "u32 \<Rightarrow> u32 \<Rightarrow> fsys \<Rightarrow> (nat, fsys) res" where
  "bget dev blockno s =
     (case find (\<lambda>i. b_dev (bufat i s) = dev \<and> b_blockno (bufat i s) = blockno) (lru s) of
        Some i \<Rightarrow> lock_buf i (set_buf i ((bufat i s)\<lparr>b_refcnt := b_refcnt (bufat i s) + 1\<rparr>) s)
      | None \<Rightarrow>
          (case find (\<lambda>i. b_refcnt (bufat i s) = 0 \<and> \<not> b_dirty (bufat i s)) (rev (lru s)) of
             Some i \<Rightarrow> lock_buf i (set_buf i ((bufat i s)\<lparr>b_dev := dev, b_blockno := blockno,
                          b_valid := False, b_dirty := False, b_refcnt := 1\<rparr>) s)
           | None \<Rightarrow> Panic ''bget: no buffers''))"

definition bread :: "u32 \<Rightarrow> u32 \<Rightarrow> fsys \<Rightarrow> (nat, fsys) res" where
  "bread dev blockno s =
     bindr (bget dev blockno s) (\<lambda>i s1.
       if \<not> b_valid (bufat i s1) then bindr (iderw i s1) (\<lambda>_ s2. Ret i s2) else Ret i s1)"

definition bwrite :: "nat \<Rightarrow> fsys \<Rightarrow> (unit, fsys) res" where
  "bwrite i s =
     (if \<not> holdingsleep (curpid s) (b_lock (bufat i s)) then Panic ''bwrite''
      else iderw i (set_buf i ((bufat i s)\<lparr>b_dirty := True\<rparr>) s))"

definition brelse :: "nat \<Rightarrow> fsys \<Rightarrow> (unit, fsys) res" where
  "brelse i s =
     (if \<not> holdingsleep (curpid s) (b_lock (bufat i s)) then Panic ''brelse''
      else let b = (bufat i s)\<lparr>b_lock := releasesleep (b_lock (bufat i s)), b_refcnt := b_refcnt (bufat i s) - 1\<rparr>;
               s1 = set_buf i b s
           in Ret () (if b_refcnt b = 0 then s1\<lparr>lru := i # remove1 i (lru s1)\<rparr> else s1))"

text \<open>An assignment to bytes of \<open>b->data\<close>.\<close>

definition set_data :: "nat \<Rightarrow> block \<Rightarrow> fsys \<Rightarrow> fsys" where
  "set_data i d s = set_buf i ((bufat i s)\<lparr>b_data := d\<rparr>) s"

subsection \<open>Invariant and abstract contents\<close>

text \<open>
  \<open>view\<close> is the block as the file system sees it: the cached copy if there is a valid one,
  else the disk. \<open>bc_inv s H\<close>: the buffers \<open>H\<close> are locked by the current process, all others
  are unlocked and unreferenced; no block is cached twice; a clean buffer that nobody holds
  agrees with the disk.
\<close>

definition view :: "fsys \<Rightarrow> bkey \<Rightarrow> block" where
  "view s k =
     (case find (\<lambda>i. bkey_of (bufat i s) = k \<and> b_valid (bufat i s)) [0..<NBUF] of
        Some i \<Rightarrow> b_data (bufat i s)
      | None \<Rightarrow> disk s k)"

definition bc_inv :: "fsys \<Rightarrow> nat set \<Rightarrow> bool" where
  "bc_inv s H \<longleftrightarrow>
     length (bufs s) = NBUF \<and> distinct (lru s) \<and> (\<forall>i. i \<in> set (lru s) \<longleftrightarrow> i < NBUF) \<and>
     (\<forall>i \<in> H. i < NBUF) \<and>
     (\<forall>i < NBUF. (if i \<in> H then slocked (b_lock (bufat i s)) \<and> spid (b_lock (bufat i s)) = curpid s \<and>
                            b_refcnt (bufat i s) = 1 \<and> b_valid (bufat i s)
                  else \<not> slocked (b_lock (bufat i s)) \<and> b_refcnt (bufat i s) = 0) \<and>
        (b_dirty (bufat i s) \<longrightarrow> b_valid (bufat i s)) \<and>
        b_dev (bufat i s) = (if b_valid (bufat i s) then 1 else 0) \<and>
        (i \<notin> H \<and> b_valid (bufat i s) \<and> \<not> b_dirty (bufat i s) \<longrightarrow>
           b_data (bufat i s) = disk s (bkey_of (bufat i s)))) \<and>
     (\<forall>i < NBUF. \<forall>j < NBUF. b_dev (bufat i s) \<noteq> 0 \<and> bkey_of (bufat i s) = bkey_of (bufat j s) \<longrightarrow> i = j)"

definition dirty_bufs :: "fsys \<Rightarrow> nat set" where
  "dirty_bufs s = {i. i < NBUF \<and> b_dirty (bufat i s)}"

definition dirty_keys :: "fsys \<Rightarrow> bkey set" where
  "dirty_keys s = (\<lambda>i. bkey_of (bufat i s)) ` dirty_bufs s"

text \<open>All fields that the cache functions leave alone.\<close>

definition fs_rest :: "fsys \<Rightarrow> fsys" where
  "fs_rest s = s\<lparr>bufs := [], lru := [], disk := (\<lambda>_. []), dwrites := []\<rparr>"

subsection \<open>Lemmas\<close>

lemma set_buf_simps [simp]:
  "i < length (bufs s) \<Longrightarrow> bufat j (set_buf i b s) = (if j = i then b else bufat j s)"
  "length (bufs (set_buf i b s)) = length (bufs s)" "lru (set_buf i b s) = lru s"
  "disk (set_buf i b s) = disk s" "havedisk1 (set_buf i b s) = havedisk1 s"
  "dwrites (set_buf i b s) = dwrites s" "curpid (set_buf i b s) = curpid s"
  "fs_rest (set_buf i b s) = fs_rest s" "set_buf i b (set_buf i b' s) = set_buf i b s"
  by (auto simp: set_buf_def bufat_def fs_rest_def)

lemma bufat_simps [simp]:
  "bufat i (s\<lparr>lru := l\<rparr>) = bufat i s" "bufat i (s\<lparr>disk := d\<rparr>) = bufat i s"
  "bufat i (s\<lparr>dwrites := w\<rparr>) = bufat i s" "fs_rest (s\<lparr>lru := l\<rparr>) = fs_rest s"
  "fs_rest (s\<lparr>disk := d\<rparr>) = fs_rest s" "fs_rest (s\<lparr>dwrites := w\<rparr>) = fs_rest s"
  by (simp_all add: bufat_def fs_rest_def)

lemma bkey_of_simps [simp]:
  "bkey_of (b\<lparr>b_lock := l\<rparr>) = bkey_of b" "bkey_of (b\<lparr>b_refcnt := n\<rparr>) = bkey_of b"
  "bkey_of (b\<lparr>b_valid := v\<rparr>) = bkey_of b" "bkey_of (b\<lparr>b_dirty := v\<rparr>) = bkey_of b"
  "bkey_of (b\<lparr>b_data := d\<rparr>) = bkey_of b"
  by (simp_all add: bkey_of_def)

lemma set_buf_commute:
  "(set_buf i b s)\<lparr>disk := d\<rparr> = set_buf i b (s\<lparr>disk := d\<rparr>)"
  "(set_buf i b s)\<lparr>dwrites := w\<rparr> = set_buf i b (s\<lparr>dwrites := w\<rparr>)"
  by (simp_all add: set_buf_def)

lemma buf_valid_id: "b_valid b \<Longrightarrow> b\<lparr>b_valid := True\<rparr> = b"
  by (cases b) simp

lemma fs_rest_fields:
  assumes "fs_rest t = fs_rest s"
  shows "havedisk1 t = havedisk1 s" "log_start t = log_start s" "log_size t = log_size s"
    "log_outstanding t = log_outstanding s" "log_committing t = log_committing s"
    "log_dev t = log_dev s" "log_lh t = log_lh s" "sb t = sb s" "icache t = icache s"
    "curpid t = curpid s" "cons t = cons s" "curkilled t = curkilled s"
proof -
  have "f (fs_rest t) = f (fs_rest s)" for f :: "fsys \<Rightarrow> 'a" using assms by simp
  from this [of havedisk1] show "havedisk1 t = havedisk1 s" by (simp add: fs_rest_def)
next
  have e: "f (fs_rest t) = f (fs_rest s)" for f :: "fsys \<Rightarrow> u32" using assms by simp
  from e [of log_start] show "log_start t = log_start s" by (simp add: fs_rest_def)
  from e [of log_dev] show "log_dev t = log_dev s" by (simp add: fs_rest_def)
next
  have e: "f (fs_rest t) = f (fs_rest s)" for f :: "fsys \<Rightarrow> int" using assms by simp
  from e [of log_size] show "log_size t = log_size s" by (simp add: fs_rest_def)
  from e [of log_outstanding] show "log_outstanding t = log_outstanding s" by (simp add: fs_rest_def)
  from e [of curpid] show "curpid t = curpid s" by (simp add: fs_rest_def)
qed (use arg_cong [OF assms, of log_committing] arg_cong [OF assms, of log_lh]
       arg_cong [OF assms, of sb] arg_cong [OF assms, of icache]
       arg_cong [OF assms, of cons] arg_cong [OF assms, of curkilled] in \<open>simp_all add: fs_rest_def\<close>)

lemma bc_invD:
  assumes "bc_inv s H"
  shows "length (bufs s) = NBUF" "distinct (lru s)" "i \<in> set (lru s) \<longleftrightarrow> i < NBUF" "i \<in> H \<Longrightarrow> i < NBUF"
    "i < NBUF \<Longrightarrow> i \<in> H \<Longrightarrow> slocked (b_lock (bufat i s)) \<and> spid (b_lock (bufat i s)) = curpid s \<and>
        b_refcnt (bufat i s) = 1 \<and> b_valid (bufat i s)"
    "i < NBUF \<Longrightarrow> i \<notin> H \<Longrightarrow> \<not> slocked (b_lock (bufat i s)) \<and> b_refcnt (bufat i s) = 0"
    "i < NBUF \<Longrightarrow> b_dirty (bufat i s) \<Longrightarrow> b_valid (bufat i s)"
    "i < NBUF \<Longrightarrow> b_dev (bufat i s) = (if b_valid (bufat i s) then 1 else 0)"
    "i < NBUF \<Longrightarrow> i \<notin> H \<Longrightarrow> b_valid (bufat i s) \<Longrightarrow> \<not> b_dirty (bufat i s) \<Longrightarrow>
        b_data (bufat i s) = disk s (bkey_of (bufat i s))"
    "i < NBUF \<Longrightarrow> j < NBUF \<Longrightarrow> b_dev (bufat i s) \<noteq> 0 \<Longrightarrow> bkey_of (bufat i s) = bkey_of (bufat j s) \<Longrightarrow> i = j"
  using assms unfolding bc_inv_def by simp_all

lemma key_distinct:
  assumes "bc_inv s H" "i < NBUF" "j < NBUF" "j \<noteq> i" "b_valid (bufat i s)"
  shows "bkey_of (bufat j s) \<noteq> bkey_of (bufat i s)"
  using bc_invD(8) [OF assms(1,2)] bc_invD(10) [OF assms(1-3)] assms(4,5) by auto

lemma view_hit:
  assumes "bc_inv s H" "i < NBUF" "b_valid (bufat i s)"
  shows "view s (bkey_of (bufat i s)) = b_data (bufat i s)"
proof -
  let ?P = "\<lambda>j. bkey_of (bufat j s) = bkey_of (bufat i s) \<and> b_valid (bufat j s)"
  have "j = i" if "j < NBUF" "?P j" for j
    using that assms(2,3) bc_invD(8,10) [OF assms(1)] by simp
  then have "find ?P [0..<NBUF] = Some i"
    using assms(2,3) by (intro find_unique) auto
  then show ?thesis by (simp add: view_def)
qed

lemma view_miss:
  assumes "\<And>i. i < NBUF \<Longrightarrow> b_valid (bufat i s) \<Longrightarrow> bkey_of (bufat i s) \<noteq> k"
  shows "view s k = disk s k"
proof -
  have "find (\<lambda>j. bkey_of (bufat j s) = k \<and> b_valid (bufat j s)) [0..<NBUF] = None"
    using assms by (auto simp: find_None_iff)
  then show ?thesis by (simp add: view_def)
qed

text \<open>A change of one buffer: what has to be shown for the invariant and for \<open>view\<close>.\<close>

lemma bc_inv_update:
  assumes inv: "bc_inv s H" and i: "i < NBUF" and H': "H' = (if h then insert i H else H - {i})"
    and lk: "if h then slocked (b_lock b) \<and> spid (b_lock b) = curpid s \<and> b_refcnt b = 1 \<and> b_valid b
        else \<not> slocked (b_lock b) \<and> b_refcnt b = 0"
    and dv: "b_dirty b \<longrightarrow> b_valid b" "b_dev b = (if b_valid b then 1 else 0)"
    and cl: "\<not> h \<and> b_valid b \<and> \<not> b_dirty b \<longrightarrow> b_data b = dk (bkey_of b)"
    and dk: "\<And>k. k \<noteq> bkey_of b \<Longrightarrow> dk k = disk s k"
    and un: "b_valid b \<Longrightarrow> (\<And>j. j < NBUF \<Longrightarrow> j \<noteq> i \<Longrightarrow> bkey_of (bufat j s) \<noteq> bkey_of b)"
    and nv: "\<not> b_valid b \<Longrightarrow> dk = disk s"
  shows "bc_inv (set_buf i b (s\<lparr>disk := dk, dwrites := w\<rparr>)) H'"
proof -
  note D = bc_invD [OF inv]
  let ?t = "set_buf i b (s\<lparr>disk := dk, dwrites := w\<rparr>)"
  have at: "bufat j ?t = (if j = i then b else bufat j s)" for j
    using i D(1) by simp
  have dev0: "b_dev (bufat j s) \<noteq> 0 \<longleftrightarrow> b_valid (bufat j s)" if "j < NBUF" for j
    using D(8) [OF that] by simp
  have k: "dk (bkey_of (bufat j s)) = disk s (bkey_of (bufat j s))" if "j < NBUF" "j \<noteq> i" for j
    using dk [of "bkey_of (bufat j s)"] un [OF _ that] nv by (cases "b_valid b") auto
  show ?thesis
    unfolding bc_inv_def at
  proof (intro conjI allI impI)
    fix j assume j: "j < NBUF"
    show "if j \<in> H' then slocked (b_lock (if j = i then b else bufat j s)) \<and>
            spid (b_lock (if j = i then b else bufat j s)) = curpid ?t \<and>
            b_refcnt (if j = i then b else bufat j s) = 1 \<and> b_valid (if j = i then b else bufat j s)
          else \<not> slocked (b_lock (if j = i then b else bufat j s)) \<and>
            b_refcnt (if j = i then b else bufat j s) = 0"
      using D(5,6) [OF j] lk by (cases "j = i"; cases h) (auto simp: H')
    show "b_valid (if j = i then b else bufat j s)" if "b_dirty (if j = i then b else bufat j s)"
      using that dv D(7) [OF j] by (auto split: if_splits)
    show "b_dev (if j = i then b else bufat j s) =
        (if b_valid (if j = i then b else bufat j s) then 1 else 0)"
      using dv D(8) [OF j] by auto
    show "b_data (if j = i then b else bufat j s) = disk ?t (bkey_of (if j = i then b else bufat j s))"
      if "j \<notin> H' \<and> b_valid (if j = i then b else bufat j s) \<and> \<not> b_dirty (if j = i then b else bufat j s)"
      using that cl D(9) [OF j] k [OF j] H' by (cases "j = i"; cases h) auto
  next
    fix j l assume jl: "j < NBUF" "l < NBUF"
      and e: "b_dev (if j = i then b else bufat j s) \<noteq> 0 \<and>
        bkey_of (if j = i then b else bufat j s) = bkey_of (if l = i then b else bufat l s)"
    have bd: "b_dev b \<noteq> 0 \<longrightarrow> b_valid b" using dv(2) by simp
    show "j = l"
    proof (cases "j = i"; cases "l = i")
      assume "j \<noteq> i" "l = i"
      then have k: "bkey_of (bufat j s) = bkey_of b" "b_dev (bufat j s) \<noteq> 0" using e by simp_all
      then have "b_dev b \<noteq> 0" by (simp add: bkey_of_def)
      then have "b_valid b" using bd by simp
      then show ?thesis using un [OF _ jl(1) \<open>j \<noteq> i\<close>] k by simp
    next
      assume "j = i" "l \<noteq> i"
      then have k: "bkey_of b = bkey_of (bufat l s)" "b_valid b" using e bd by auto
      then show ?thesis using un [OF k(2) jl(2) \<open>l \<noteq> i\<close>] by simp
    qed (use e D(10) jl in auto)
  qed (use D(1-4) i in \<open>auto simp: H'\<close>)
qed

lemma bc_inv_lru:
  assumes "bc_inv s H" "distinct l" "\<And>i. i \<in> set l \<longleftrightarrow> i < NBUF"
  shows "bc_inv (s\<lparr>lru := l\<rparr>) H"
  using assms by (simp add: bc_inv_def)

lemma view_lru [simp]: "view (s\<lparr>lru := l\<rparr>) = view s"
  by (auto simp: view_def fun_eq_iff split: option.splits)

text \<open>How \<open>view\<close> changes with one buffer.\<close>

lemma view_set_buf:
  assumes inv: "bc_inv s H" and inv': "bc_inv (set_buf i b (s\<lparr>disk := dk, dwrites := w\<rparr>)) H'" and i: "i < NBUF"
    and dk: "\<And>k. k \<noteq> bkey_of b \<Longrightarrow> dk k = disk s k" and v: "b_valid b"
    and old: "b_valid (bufat i s) \<and> bkey_of (bufat i s) \<noteq> bkey_of b \<Longrightarrow>
        b_data (bufat i s) = disk s (bkey_of (bufat i s))"
  shows "view (set_buf i b (s\<lparr>disk := dk, dwrites := w\<rparr>)) = (view s)(bkey_of b := b_data b)"
    (is "view ?t = _")
proof
  fix k
  have at: "bufat j ?t = (if j = i then b else bufat j s)" for j
    using i bc_invD(1) [OF inv] by simp
  show "view ?t k = ((view s)(bkey_of b := b_data b)) k"
  proof (cases "k = bkey_of b")
    case True
    then show ?thesis using view_hit [OF inv' i] v at by simp
  next
    case ne: False
    show ?thesis
    proof (cases "\<exists>j < NBUF. j \<noteq> i \<and> b_valid (bufat j s) \<and> bkey_of (bufat j s) = k")
      case True
      then obtain j where j: "j < NBUF" "j \<noteq> i" "b_valid (bufat j s)" "bkey_of (bufat j s) = k" by blast
      then show ?thesis using view_hit [OF inv' j(1)] view_hit [OF inv j(1)] ne at by simp
    next
      case False
      have "bkey_of (bufat j ?t) \<noteq> k" if "j < NBUF" "b_valid (bufat j ?t)" for j
        using False ne that at by (cases "j = i") auto
      then have "view ?t k = dk k" using view_miss [of ?t k] by simp
      also have "\<dots> = disk s k" using dk ne by simp
      also have "\<dots> = view s k"
      proof (cases "b_valid (bufat i s) \<and> bkey_of (bufat i s) = k")
        case True
        then show ?thesis using view_hit [OF inv i] old ne by simp
      next
        case not: False
        then show ?thesis using False by (intro view_miss [symmetric]) auto
      qed
      finally show ?thesis using ne by simp
    qed
  qed
qed

text \<open>\<open>iderw\<close> on a buffer that the caller holds.\<close>

lemma iderw_read:
  assumes "i < length (bufs s)" "holdingsleep (curpid s) (b_lock (bufat i s))" "\<not> b_valid (bufat i s)"
    "\<not> b_dirty (bufat i s)" "b_dev (bufat i s) = 1" "havedisk1 s" "b_blockno (bufat i s) < FSSIZE"
  shows "iderw i s = Ret () (set_buf i ((bufat i s)\<lparr>b_valid := True,
      b_data := disk s (bkey_of (bufat i s))\<rparr>) s)"
  using assms by (simp add: iderw_def bkey_of_def Let_def)

lemma iderw_write:
  assumes "i < length (bufs s)" "holdingsleep (curpid s) (b_lock (bufat i s))"
    "b_dirty (bufat i s)" "b_dev (bufat i s) = 1" "havedisk1 s" "b_blockno (bufat i s) < FSSIZE"
  shows "iderw i s = Ret () (set_buf i ((bufat i s)\<lparr>b_valid := True, b_dirty := False\<rparr>)
      (s\<lparr>disk := (disk s)(bkey_of (bufat i s) := b_data (bufat i s)),
         dwrites := dwrites s @ [(bkey_of (bufat i s), b_data (bufat i s))]\<rparr>))"
  using assms by (simp add: iderw_def bkey_of_def Let_def)

lemma find_hit:
  assumes "bc_inv s H" "i < NBUF" "bkey_of (bufat i s) = (1, bn)"
  shows "find (\<lambda>j. b_dev (bufat j s) = 1 \<and> b_blockno (bufat j s) = bn) (lru s) = Some i"
proof (rule find_unique)
  fix j assume "j \<in> set (lru s)" "b_dev (bufat j s) = 1 \<and> b_blockno (bufat j s) = bn"
  then show "j = i"
    using bc_invD(3,10) [OF assms(1)] assms(2,3) by (auto simp: bkey_of_def)
qed (use assms bc_invD(3) [OF assms(1)] in \<open>auto simp: bkey_of_def\<close>)

text \<open>What a caller of \<open>bread\<close> gets, whether the block was cached or not.\<close>

definition bread_post :: "bkey \<Rightarrow> fsys \<Rightarrow> nat set \<Rightarrow> nat \<Rightarrow> fsys \<Rightarrow> bool" where
  "bread_post k s H i t \<longleftrightarrow> i < NBUF \<and> i \<notin> H \<and> bc_inv t (insert i H) \<and> bkey_of (bufat i t) = k \<and>
     b_data (bufat i t) = view s k \<and> view t = view s \<and> disk t = disk s \<and> dwrites t = dwrites s \<and>
     fs_rest t = fs_rest s \<and> (\<forall>j. j \<noteq> i \<longrightarrow> bufat j t = bufat j s) \<and>
     (b_dirty (bufat i t) \<longleftrightarrow> k \<in> dirty_keys s) \<and> dirty_keys t = dirty_keys s"

lemma dirty_keys_set_buf:
  assumes "i < length (bufs s)" "i < NBUF" "bkey_of b = bkey_of (bufat i s)" "b_dirty b = b_dirty (bufat i s)"
  shows "dirty_keys (set_buf i b s) = dirty_keys s"
proof -
  have "dirty_bufs (set_buf i b s) = dirty_bufs s" using assms by (auto simp: dirty_bufs_def)
  then show ?thesis using assms by (auto simp: dirty_keys_def dirty_bufs_def image_iff)
qed

lemma dirty_keys_iff:
  assumes "bc_inv s H" "i < NBUF" "b_valid (bufat i s)"
  shows "bkey_of (bufat i s) \<in> dirty_keys s \<longleftrightarrow> b_dirty (bufat i s)"
  using assms(2) key_distinct [OF assms(1,2) _ _ assms(3)]
  by (force simp: dirty_keys_def dirty_bufs_def image_iff)

lemma dirty_keys_clean:
  assumes at: "\<And>j. bufat j t = (if j = i then b else bufat j s)" and "\<not> b_dirty b"
    and "bkey_of (bufat i s) = k" and un: "\<And>j. j < NBUF \<Longrightarrow> j \<noteq> i \<Longrightarrow> bkey_of (bufat j s) \<noteq> k"
  shows "dirty_keys t = dirty_keys s - {k}"
proof -
  have "dirty_bufs t = dirty_bufs s - {i}" using assms(2) by (auto simp: dirty_bufs_def at)
  then have "dirty_keys t = (\<lambda>j. bkey_of (bufat j s)) ` (dirty_bufs s - {i})"
    unfolding dirty_keys_def by (intro image_cong) (simp_all add: at)
  moreover have "(\<lambda>j. bkey_of (bufat j s)) ` (dirty_bufs s - {i}) = dirty_keys s - {k}"
  proof (intro equalityI subsetI)
    fix x assume "x \<in> (\<lambda>j. bkey_of (bufat j s)) ` (dirty_bufs s - {i})"
    then obtain j where j: "j \<in> dirty_bufs s" "j \<noteq> i" "x = bkey_of (bufat j s)" by blast
    then have "x \<noteq> k" using un [of j] by (simp add: dirty_bufs_def)
    with j show "x \<in> dirty_keys s - {k}" by (simp add: dirty_keys_def)
  next
    fix x assume "x \<in> dirty_keys s - {k}"
    then obtain j where "j \<in> dirty_bufs s" "x = bkey_of (bufat j s)" "x \<noteq> k"
      by (auto simp: dirty_keys_def)
    moreover from this have "j \<noteq> i" using assms(3) by auto
    ultimately show "x \<in> (\<lambda>j. bkey_of (bufat j s)) ` (dirty_bufs s - {i})" by blast
  qed
  ultimately show ?thesis by simp
qed

lemma bread_hit:
  assumes inv: "bc_inv s H" and i: "i < NBUF" "bkey_of (bufat i s) = (1, bn)" "i \<notin> H"
  shows "\<exists>t. bread 1 bn s = Ret i t \<and> bread_post (1, bn) s H i t"
proof -
  note D = bc_invD [OF inv]
  let ?b = "(bufat i s)\<lparr>b_refcnt := 1, b_lock := (b_lock (bufat i s))\<lparr>slocked := True, spid := curpid s\<rparr>\<rparr>"
  let ?t = "set_buf i ?b s"
  have dev: "b_dev (bufat i s) = 1" "b_blockno (bufat i s) = bn" using i(2) by (simp_all add: bkey_of_def)
  then have v: "b_valid (bufat i s)" using D(8) [OF i(1)] by (simp split: if_splits)
  have u: "\<not> slocked (b_lock (bufat i s))" "b_refcnt (bufat i s) = 0" using D(6) [OF i(1,3)] by simp_all
  have "bget 1 bn s = Ret i ?t"
    using find_hit [OF inv i(1,2)] u D(1) i(1) by (simp add: bget_def lock_buf_def acquiresleep_def)
  then have b: "bread 1 bn s = Ret i ?t" using v D(1) i(1) by (simp add: bread_def)
  have s: "s\<lparr>disk := disk s, dwrites := dwrites s\<rparr> = s" by simp
  have kb: "bkey_of ?b = bkey_of (bufat i s)" by (simp add: bkey_of_def)
  have inv': "bc_inv (set_buf i ?b (s\<lparr>disk := disk s, dwrites := dwrites s\<rparr>)) (insert i H)"
    by (rule bc_inv_update [OF inv i(1), of _ True])
       (use v dev key_distinct [OF inv i(1) _ _ v] in \<open>auto simp: kb\<close>)
  have "view (set_buf i ?b (s\<lparr>disk := disk s, dwrites := dwrites s\<rparr>)) = (view s)(bkey_of ?b := b_data ?b)"
    by (rule view_set_buf [OF inv inv' i(1)]) (use v in \<open>simp_all add: kb\<close>)
  moreover have "view s (bkey_of ?b) = b_data ?b" using view_hit [OF inv i(1) v] by (simp add: kb)
  ultimately have vw: "view ?t = view s" by (simp add: fun_upd_idem)
  have "dirty_keys ?t = dirty_keys s" using D(1) i(1) kb by (intro dirty_keys_set_buf) auto
  then have "bread_post (1, bn) s H i ?t"
    using i inv' vw D(1) view_hit [OF inv i(1) v] dirty_keys_iff [OF inv i(1) v]
    by (simp add: bread_post_def kb s)
  then show ?thesis using b by blast
qed

lemma bread_miss:
  assumes inv: "bc_inv s H" and miss: "\<And>i. i < NBUF \<Longrightarrow> bkey_of (bufat i s) \<noteq> (1, bn)"
    and free: "j < NBUF" "j \<notin> H" "\<not> b_dirty (bufat j s)" and hw: "havedisk1 s" "bn < FSSIZE"
  shows "\<exists>i t. bread 1 bn s = Ret i t \<and> bread_post (1, bn) s H i t"
proof -
  note D = bc_invD [OF inv]
  have f1: "find (\<lambda>j. b_dev (bufat j s) = 1 \<and> b_blockno (bufat j s) = bn) (lru s) = None"
    using miss D(3) by (auto simp: find_None_iff bkey_of_def)
  let ?Q = "\<lambda>i. b_refcnt (bufat i s) = 0 \<and> \<not> b_dirty (bufat i s)"
  have "find ?Q (rev (lru s)) \<noteq> None"
    using free D(3,6) by (auto simp: find_None_iff)
  then obtain i where f2: "find ?Q (rev (lru s)) = Some i" by blast
  from find_SomeD [OF f2] have i: "i < NBUF" "b_refcnt (bufat i s) = 0" "\<not> b_dirty (bufat i s)"
    using D(3) by auto
  then have iH: "i \<notin> H" using D(5) [OF i(1)] by auto
  then have u: "\<not> slocked (b_lock (bufat i s))" using D(6) [OF i(1)] by simp
  let ?lk = "(b_lock (bufat i s))\<lparr>slocked := True, spid := curpid s\<rparr>"
  let ?a = "(bufat i s)\<lparr>b_dev := 1, b_blockno := bn, b_valid := False, b_dirty := False, b_refcnt := 1, b_lock := ?lk\<rparr>"
  let ?b = "?a\<lparr>b_valid := True, b_data := disk s (1, bn)\<rparr>"
  have g: "bget 1 bn s = Ret i (set_buf i ?a s)"
    using f1 f2 u D(1) i(1) by (simp add: bget_def lock_buf_def acquiresleep_def)
  have "iderw i (set_buf i ?a s) = Ret () (set_buf i ?b s)"
    using D(1) i(1) hw by (subst iderw_read) (auto simp: holdingsleep_def bkey_of_def)
  then have b: "bread 1 bn s = Ret i (set_buf i ?b s)" using g D(1) i(1) by (simp add: bread_def)
  have kb: "bkey_of ?b = (1, bn)" by (simp add: bkey_of_def)
  have old: "b_data (bufat i s) = disk s (bkey_of (bufat i s))" if "b_valid (bufat i s)"
    using D(9) [OF i(1) iH that i(3)] .
  have inv': "bc_inv (set_buf i ?b (s\<lparr>disk := disk s, dwrites := dwrites s\<rparr>)) (insert i H)"
    by (rule bc_inv_update [OF inv i(1), of _ True]) (use miss kb in auto)
  have "view (set_buf i ?b (s\<lparr>disk := disk s, dwrites := dwrites s\<rparr>)) = (view s)(bkey_of ?b := b_data ?b)"
    by (rule view_set_buf [OF inv inv' i(1)]) (use old in simp_all)
  moreover have vm: "view s (1, bn) = disk s (1, bn)" using miss by (intro view_miss) auto
  ultimately have vw: "view (set_buf i ?b s) = view s" by (simp add: bkey_of_def fun_upd_idem)
  have "dirty_bufs (set_buf i ?b s) = dirty_bufs s" using D(1) i by (auto simp: dirty_bufs_def)
  then have "dirty_keys (set_buf i ?b s) = dirty_keys s"
    using D(1) i by (auto simp: dirty_keys_def dirty_bufs_def image_iff)
  moreover have "(1, bn) \<notin> dirty_keys s" using miss by (force simp: dirty_keys_def dirty_bufs_def)
  ultimately have "bread_post (1, bn) s H i (set_buf i ?b s)"
    using i(1) iH inv' vw vm D(1) by (simp add: bread_post_def bkey_of_def)
  then show ?thesis using b by blast
qed

text \<open>
  \<open>bread\<close> succeeds on every block not already held, as long as the dirty and the held
  buffers and the wanted block together fit the cache.
\<close>

definition busy :: "fsys \<Rightarrow> nat set \<Rightarrow> bkey set" where
  "busy s H = dirty_keys s \<union> (\<lambda>i. bkey_of (bufat i s)) ` H"

lemma card_busy:
  assumes inv: "bc_inv s H" and all: "\<And>j. j < NBUF \<Longrightarrow> j \<in> H \<or> b_dirty (bufat j s)"
  shows "card (busy s H) = NBUF"
proof -
  have v: "b_valid (bufat j s)" if "j < NBUF" for j
    using all [OF that] bc_invD(5,7) [OF inv that] by blast
  have "busy s H = (\<lambda>i. bkey_of (bufat i s)) ` {..<NBUF}"
    using all bc_invD(4) [OF inv] by (auto simp: busy_def dirty_keys_def dirty_bufs_def)
  moreover have "inj_on (\<lambda>i. bkey_of (bufat i s)) {..<NBUF}"
    using key_distinct [OF inv] v by (intro inj_onI) (metis lessThan_iff)
  ultimately show ?thesis by (simp add: card_image)
qed

lemma finite_busy [simp]: "bc_inv s H \<Longrightarrow> finite (busy s H)"
  using bc_invD(4) [of s H] finite_subset [of H "{..<NBUF}"]
  by (auto simp: busy_def dirty_keys_def dirty_bufs_def)

lemma bread_ok:
  assumes inv: "bc_inv s H" and nh: "\<And>i. i \<in> H \<Longrightarrow> bkey_of (bufat i s) \<noteq> (1, bn)"
    and room: "card (insert (1, bn) (busy s H)) \<le> NBUF" and hw: "havedisk1 s" "bn < FSSIZE"
  obtains i t where "bread 1 bn s = Ret i t" "bread_post (1, bn) s H i t"
proof (cases "\<exists>i < NBUF. bkey_of (bufat i s) = (1, bn)")
  case True
  then obtain i where "i < NBUF" "bkey_of (bufat i s) = (1, bn)" by blast
  then show ?thesis using bread_hit [OF inv] nh that by blast
next
  case False
  then have m: "bkey_of (bufat i s) \<noteq> (1, bn)" if "i < NBUF" for i using that by blast
  then have "(1, bn) \<notin> busy s H"
    using bc_invD(4) [OF inv] by (auto simp: busy_def dirty_keys_def dirty_bufs_def image_iff) metis+
  then have "card (busy s H) < NBUF" using room finite_busy [OF inv] by simp
  then obtain j where "j < NBUF" "j \<notin> H" "\<not> b_dirty (bufat j s)"
    using card_busy [OF inv] by force
  then show ?thesis using bread_miss [OF inv m _ _ _ hw] that by blast
qed

lemma bwrite_ok:
  assumes inv: "bc_inv s H" and i: "i \<in> H" and hw: "havedisk1 s" "b_blockno (bufat i s) < FSSIZE"
  defines "k \<equiv> bkey_of (bufat i s)" and "d \<equiv> b_data (bufat i s)"
  shows "\<exists>t. bwrite i s = Ret () t \<and> bc_inv t H \<and> view t = view s \<and> disk t = (disk s)(k := d) \<and>
    dwrites t = dwrites s @ [(k, d)] \<and> fs_rest t = fs_rest s \<and> dirty_keys t = dirty_keys s - {k} \<and>
    (\<forall>j. bufat j t = (if j = i then (bufat i s)\<lparr>b_dirty := False\<rparr> else bufat j s))"
proof -
  note D = bc_invD [OF inv]
  have i': "i < NBUF" using D(4) i by simp
  have h: "slocked (b_lock (bufat i s))" "spid (b_lock (bufat i s)) = curpid s" "b_refcnt (bufat i s) = 1"
      "b_valid (bufat i s)" using D(5) [OF i' i] by simp_all
  have dev: "b_dev (bufat i s) = 1" using D(8) [OF i'] h by simp
  let ?b = "(bufat i s)\<lparr>b_dirty := False\<rparr>"
  let ?t = "set_buf i ?b (s\<lparr>disk := (disk s)(k := d), dwrites := dwrites s @ [(k, d)]\<rparr>)"
  have kb: "bkey_of ?b = k" by (simp add: k_def bkey_of_def)
  have "iderw i (set_buf i ((bufat i s)\<lparr>b_dirty := True\<rparr>) s) = Ret () ?t"
    using D(1) i' hw h dev
    by (subst iderw_write)
       (auto simp: holdingsleep_def k_def d_def bkey_of_def set_buf_commute buf_valid_id)
  then have b: "bwrite i s = Ret () ?t" using h by (simp add: bwrite_def holdingsleep_def)
  have un: "bkey_of (bufat j s) \<noteq> k" if "j < NBUF" "j \<noteq> i" for j
    using key_distinct [OF inv i' that h(4)] by (simp add: k_def)
  have inv': "bc_inv ?t H"
    by (rule bc_inv_update [OF inv i', of _ True]) (use h i dev kb un in auto)
  have "view ?t = (view s)(bkey_of ?b := b_data ?b)"
    by (rule view_set_buf [OF inv inv' i']) (use h in \<open>auto simp: kb\<close>, auto simp: k_def bkey_of_def)
  then have vw: "view ?t = view s"
    using view_hit [OF inv i' h(4)] by (simp add: kb k_def fun_upd_idem)
  have at: "bufat j ?t = (if j = i then ?b else bufat j s)" for j using D(1) i' by simp
  have "dirty_keys ?t = dirty_keys s - {k}"
    by (rule dirty_keys_clean [OF at]) (use i' un in \<open>simp_all add: k_def\<close>)
  then show ?thesis using b inv' vw at by auto
qed

lemma brelse_ok:
  assumes inv: "bc_inv s H" and i: "i \<in> H"
    and sync: "b_dirty (bufat i s) \<or> b_data (bufat i s) = disk s (bkey_of (bufat i s))"
  shows "\<exists>t. brelse i s = Ret () t \<and> bc_inv t (H - {i}) \<and> view t = view s \<and> disk t = disk s \<and>
    dwrites t = dwrites s \<and> fs_rest t = fs_rest s \<and> dirty_keys t = dirty_keys s \<and>
    (\<forall>j. j \<noteq> i \<longrightarrow> bufat j t = bufat j s) \<and> bkey_of (bufat i t) = bkey_of (bufat i s)"
proof -
  note D = bc_invD [OF inv]
  have i': "i < NBUF" using D(4) i by simp
  have h: "slocked (b_lock (bufat i s))" "spid (b_lock (bufat i s)) = curpid s" "b_refcnt (bufat i s) = 1"
      "b_valid (bufat i s)" using D(5) [OF i' i] by simp_all
  have dev: "b_dev (bufat i s) = 1" using D(8) [OF i'] h by simp
  let ?b = "(bufat i s)\<lparr>b_lock := releasesleep (b_lock (bufat i s)), b_refcnt := 0\<rparr>"
  let ?u = "set_buf i ?b s"
  let ?t = "?u\<lparr>lru := i # remove1 i (lru s)\<rparr>"
  have b: "brelse i s = Ret () ?t" using h by (simp add: brelse_def holdingsleep_def Let_def)
  have kb: "bkey_of ?b = bkey_of (bufat i s)" by (simp add: bkey_of_def)
  have s: "s\<lparr>disk := disk s, dwrites := dwrites s\<rparr> = s" by simp
  have inv1: "bc_inv (set_buf i ?b (s\<lparr>disk := disk s, dwrites := dwrites s\<rparr>)) (H - {i})"
    by (rule bc_inv_update [OF inv i', of _ False])
       (use h dev sync key_distinct [OF inv i' _ _ h(4)] in \<open>auto simp: kb releasesleep_def\<close>)
  then have "bc_inv ?t (H - {i})"
    using D(2,3) i' by (intro bc_inv_lru) (auto simp: s)
  moreover have "view ?u = (view s)(bkey_of ?b := b_data ?b)"
    using view_set_buf [OF inv inv1 i'] h by (simp add: kb)
  then have "view ?t = view s" using view_hit [OF inv i' h(4)] by (simp add: kb fun_upd_idem)
  moreover have "dirty_keys ?t = dirty_keys s"
    using dirty_keys_set_buf [of i s ?b] D(1) i' kb by (simp add: dirty_keys_def dirty_bufs_def)
  ultimately show ?thesis using b D(1) i' kb by auto
qed

lemma set_data_ok:
  assumes inv: "bc_inv s H" and i: "i \<in> H"
  defines "k \<equiv> bkey_of (bufat i s)"
  shows "bc_inv (set_data i d s) H" "view (set_data i d s) = (view s)(k := d)"
    "disk (set_data i d s) = disk s" "dwrites (set_data i d s) = dwrites s"
    "fs_rest (set_data i d s) = fs_rest s" "dirty_keys (set_data i d s) = dirty_keys s"
    "bufat j (set_data i d s) = (if j = i then (bufat i s)\<lparr>b_data := d\<rparr> else bufat j s)"
proof -
  note D = bc_invD [OF inv]
  have i': "i < NBUF" using D(4) i by simp
  have h: "slocked (b_lock (bufat i s))" "spid (b_lock (bufat i s)) = curpid s" "b_refcnt (bufat i s) = 1"
      "b_valid (bufat i s)" using D(5) [OF i' i] by simp_all
  have dev: "b_dev (bufat i s) = 1" using D(8) [OF i'] h by simp
  let ?b = "(bufat i s)\<lparr>b_data := d\<rparr>"
  have s: "s\<lparr>disk := disk s, dwrites := dwrites s\<rparr> = s" by simp
  have inv': "bc_inv (set_buf i ?b (s\<lparr>disk := disk s, dwrites := dwrites s\<rparr>)) H"
    by (rule bc_inv_update [OF inv i', of _ True])
       (use h i dev key_distinct [OF inv i' _ _ h(4)] in auto)
  then show "bc_inv (set_data i d s) H" by (simp add: set_data_def)
  show "view (set_data i d s) = (view s)(k := d)"
    using view_set_buf [OF inv inv' i'] h by (simp add: set_data_def k_def)
  show "dirty_keys (set_data i d s) = dirty_keys s"
    using D(1) i' unfolding set_data_def by (intro dirty_keys_set_buf) simp_all
  show "bufat j (set_data i d s) = (if j = i then (bufat i s)\<lparr>b_data := d\<rparr> else bufat j s)"
    using D(1) i' by (simp add: set_data_def)
qed (simp_all add: set_data_def)

lemma view_clean:
  assumes inv: "bc_inv s H" and "k \<notin> dirty_keys s" and "\<And>i. i \<in> H \<Longrightarrow> bkey_of (bufat i s) \<noteq> k"
  shows "view s k = disk s k"
proof (cases "\<exists>i < NBUF. b_valid (bufat i s) \<and> bkey_of (bufat i s) = k")
  case True
  then obtain i where i: "i < NBUF" "b_valid (bufat i s)" "bkey_of (bufat i s) = k" by blast
  then have "i \<notin> H" "\<not> b_dirty (bufat i s)"
    using assms(2,3) dirty_keys_iff [OF inv i(1,2)] by auto
  then show ?thesis using view_hit [OF inv i(1,2)] bc_invD(9) [OF inv i(1) _ i(2)] i(3) by simp
next
  case False
  then show ?thesis by (intro view_miss) blast
qed

subsection \<open>Copying one block to another\<close>

text \<open>
  The effect of reading two blocks, overwriting the second with the first and writing it
  through, from and to a state in which no buffer is held.
\<close>

definition copied :: "bkey \<Rightarrow> bkey \<Rightarrow> fsys \<Rightarrow> fsys \<Rightarrow> bool" where
  "copied src dst s t \<longleftrightarrow> bc_inv t {} \<and> view t = (view s)(dst := view s src) \<and>
     disk t = (disk s)(dst := view s src) \<and> dwrites t = dwrites s @ [(dst, view s src)] \<and>
     fs_rest t = fs_rest s \<and> dirty_keys t = dirty_keys s - {dst}"

definition copy_ready :: "fsys \<Rightarrow> u32 \<Rightarrow> u32 \<Rightarrow> bool" where
  "copy_ready s a b \<longleftrightarrow> bc_inv s {} \<and> havedisk1 s \<and> a \<noteq> b \<and> a < FSSIZE \<and> b < FSSIZE \<and>
     card (insert (1, a) (insert (1, b) (dirty_keys s))) \<le> NBUF"

text \<open>Both buffers read, in either order.\<close>

lemma read_two:
  assumes r: "copy_ready s a b"
  obtains i s1 j s2 where "bread 1 a s = Ret i s1" "bread 1 b s1 = Ret j s2" "i \<noteq> j"
    "bc_inv s2 {i, j}" "bkey_of (bufat i s2) = (1, a)" "bkey_of (bufat j s2) = (1, b)"
    "b_data (bufat i s2) = view s (1, a)" "b_data (bufat j s2) = view s (1, b)"
    "view s2 = view s" "disk s2 = disk s" "dwrites s2 = dwrites s" "fs_rest s2 = fs_rest s"
    "fs_rest s1 = fs_rest s" "dirty_keys s2 = dirty_keys s"
    "b_dirty (bufat i s2) \<longleftrightarrow> (1, a) \<in> dirty_keys s" "b_dirty (bufat j s2) \<longleftrightarrow> (1, b) \<in> dirty_keys s"
proof -
  have R: "bc_inv s {}" "havedisk1 s" "a \<noteq> b" "a < FSSIZE" "b < FSSIZE"
      "card (insert (1, a) (insert (1, b) (dirty_keys s))) \<le> NBUF"
    using r by (simp_all add: copy_ready_def)
  have fin: "finite (dirty_keys s)" using finite_busy [OF R(1)] by (simp add: busy_def)
  have "card (insert (1, a) (dirty_keys s)) \<le> card (insert (1, a) (insert (1, b) (dirty_keys s)))"
    using fin by (intro card_mono) auto
  then have c: "card (insert (1, a) (busy s {})) \<le> NBUF" using R(6) by (simp add: busy_def)
  obtain i s1 where i: "bread 1 a s = Ret i s1" "bread_post (1, a) s {} i s1"
    using bread_ok [OF R(1) _ c R(2,4)] by blast
  note P = i(2) [unfolded bread_post_def]
  have "busy s1 {i} = insert (1, a) (dirty_keys s)" using P by (simp add: busy_def)
  then have c1: "card (insert (1, b) (busy s1 {i})) \<le> NBUF" using R(6) by (simp add: insert_commute)
  have h1: "havedisk1 s1" using P fs_rest_fields(1) [of s1 s] R(2) by simp
  obtain j s2 where j: "bread 1 b s1 = Ret j s2" "bread_post (1, b) s1 {i} j s2"
    using bread_ok [of s1 "{i}" b, OF _ _ c1 h1 R(5)] P R(3) by auto
  note Q = j(2) [unfolded bread_post_def]
  have ij: "i \<noteq> j" using Q by auto
  then have at: "bufat i s2 = bufat i s1" using Q by simp
  show ?thesis
    using P Q ij at by (intro that [OF i(1) j(1)]) (auto simp: insert_commute)
qed

lemma write_release:
  assumes inv: "bc_inv s {p, q}" "p \<noteq> q" and k: "bkey_of (bufat q s) = dst" "snd dst < FSSIZE"
    and v: "b_data (bufat p s) = v" "b_dirty (bufat p s) \<or> v = disk s (bkey_of (bufat p s))"
    and ne: "bkey_of (bufat p s) \<noteq> dst" and hw: "havedisk1 s"
  shows "\<exists>s3 s4 t. bwrite q (set_data q v s) = Ret () s3 \<and> brelse p s3 = Ret () s4 \<and> brelse q s4 = Ret () t \<and>
    bc_inv t {} \<and> view t = (view s)(dst := v) \<and> disk t = (disk s)(dst := v) \<and>
    dwrites t = dwrites s @ [(dst, v)] \<and> fs_rest t = fs_rest s \<and> dirty_keys t = dirty_keys s - {dst}"
proof -
  let ?s = "set_data q v s"
  note S = set_data_ok [OF inv(1), where i = q and d = v, simplified]
  have hw': "havedisk1 ?s" using fs_rest_fields(1) [OF S(5)] hw by simp
  have bn: "b_blockno (bufat q ?s) < FSSIZE" using k by (auto simp: S(7) bkey_of_def)
  obtain s3 where s3: "bwrite q ?s = Ret () s3" "bc_inv s3 {p, q}" "view s3 = view ?s"
      "disk s3 = (disk ?s)(dst := v)" "dwrites s3 = dwrites ?s @ [(dst, v)]" "fs_rest s3 = fs_rest ?s"
      "dirty_keys s3 = dirty_keys ?s - {dst}"
      "\<And>j. bufat j s3 = (if j = q then (bufat q ?s)\<lparr>b_dirty := False\<rparr> else bufat j ?s)"
    using bwrite_ok [OF S(1) _ hw' bn] k(1) by (auto simp: S(7))
  have p3: "bufat p s3 = bufat p s" using inv(2) by (simp add: s3(8) S(7))
  have "b_dirty (bufat p s3) \<or> b_data (bufat p s3) = disk s3 (bkey_of (bufat p s3))"
    using v ne by (simp add: p3 s3(4) S(3))
  then obtain s4 where s4: "brelse p s3 = Ret () s4" "bc_inv s4 ({p, q} - {p})" "view s4 = view s3"
      "disk s4 = disk s3" "dwrites s4 = dwrites s3" "fs_rest s4 = fs_rest s3" "dirty_keys s4 = dirty_keys s3"
      "\<And>j. j \<noteq> p \<Longrightarrow> bufat j s4 = bufat j s3"
    using brelse_ok [OF s3(2)] by blast
  have q4: "bufat q s4 = (bufat q s)\<lparr>b_data := v, b_dirty := False\<rparr>"
    using inv(2) by (simp add: s4(8) s3(8) S(7))
  have H: "{p, q} - {p} = {q}" using inv(2) by auto
  have "b_dirty (bufat q s4) \<or> b_data (bufat q s4) = disk s4 (bkey_of (bufat q s4))"
    using k(1) by (simp add: q4 s4(4) s3(4))
  then obtain t where t: "brelse q s4 = Ret () t" "bc_inv t ({q} - {q})" "view t = view s4"
      "disk t = disk s4" "dwrites t = dwrites s4" "fs_rest t = fs_rest s4" "dirty_keys t = dirty_keys s4"
    using brelse_ok [of s4 "{q}" q] s4(2) H by auto
  show ?thesis
    using s3(1) s4(1) t k(1) by (simp add: s4(3-7) s3(3-7) S(2-6))
qed

text \<open>The two copying sequences of log.c.\<close>

lemma copy_src_first:
  assumes "copy_ready s a b"
  shows "\<exists>t. bindr (bread 1 a s) (\<lambda>l s1. bindr (bread 1 b s1) (\<lambda>d s2.
      bindr (bwrite d (set_data d (b_data (bufat l s2)) s2)) (\<lambda>_ s3.
      bindr (brelse l s3) (\<lambda>_ s4. brelse d s4)))) = Ret () t \<and> copied (1, a) (1, b) s t"
proof -
  obtain i s1 j s2 where R: "bread 1 a s = Ret i s1" "bread 1 b s1 = Ret j s2" "i \<noteq> j"
    "bc_inv s2 {i, j}" "bkey_of (bufat i s2) = (1, a)" "bkey_of (bufat j s2) = (1, b)"
    "b_data (bufat i s2) = view s (1, a)" "b_data (bufat j s2) = view s (1, b)"
    "view s2 = view s" "disk s2 = disk s" "dwrites s2 = dwrites s" "fs_rest s2 = fs_rest s"
    "fs_rest s1 = fs_rest s" "dirty_keys s2 = dirty_keys s"
    "b_dirty (bufat i s2) \<longleftrightarrow> (1, a) \<in> dirty_keys s" "b_dirty (bufat j s2) \<longleftrightarrow> (1, b) \<in> dirty_keys s"
    by (rule read_two [OF assms])
  have A: "bc_inv s {}" "havedisk1 s" "a \<noteq> b" "b < FSSIZE" using assms by (simp_all add: copy_ready_def)
  have sy: "b_dirty (bufat i s2) \<or> view s (1, a) = disk s2 (bkey_of (bufat i s2))"
    using view_clean [OF A(1), of "(1, a)"] R(5,10,15) by auto
  have hw: "havedisk1 s2" using fs_rest_fields(1) [OF R(12)] A(2) by simp
  from write_release [OF R(4,3,6) _ R(7) sy _ hw] A(3,4) R(5)
  show ?thesis
    by (auto simp: R(1,2,7) copied_def R(9-12,14))
qed

lemma copy_dst_first:
  assumes "copy_ready s a b"
  shows "\<exists>t. bindr (bread 1 b s) (\<lambda>d s1. bindr (bread 1 a s1) (\<lambda>l s2.
      bindr (bwrite d (set_data d (b_data (bufat l s2)) s2)) (\<lambda>_ s3.
      bindr (brelse l s3) (\<lambda>_ s4. brelse d s4)))) = Ret () t \<and> copied (1, a) (1, b) s t"
proof -
  have "copy_ready s b a" using assms by (auto simp: copy_ready_def insert_commute)
  then obtain j s1 i s2 where R: "bread 1 b s = Ret j s1" "bread 1 a s1 = Ret i s2" "j \<noteq> i"
    "bc_inv s2 {j, i}" "bkey_of (bufat j s2) = (1, b)" "bkey_of (bufat i s2) = (1, a)"
    "b_data (bufat j s2) = view s (1, b)" "b_data (bufat i s2) = view s (1, a)"
    "view s2 = view s" "disk s2 = disk s" "dwrites s2 = dwrites s" "fs_rest s2 = fs_rest s"
    "fs_rest s1 = fs_rest s" "dirty_keys s2 = dirty_keys s"
    "b_dirty (bufat j s2) \<longleftrightarrow> (1, b) \<in> dirty_keys s" "b_dirty (bufat i s2) \<longleftrightarrow> (1, a) \<in> dirty_keys s"
    by (rule read_two)
  have A: "bc_inv s {}" "havedisk1 s" "a \<noteq> b" "b < FSSIZE" using assms by (simp_all add: copy_ready_def)
  have sy: "b_dirty (bufat i s2) \<or> view s (1, a) = disk s2 (bkey_of (bufat i s2))"
    using view_clean [OF A(1), of "(1, a)"] R(6,10,16) by auto
  have hw: "havedisk1 s2" using fs_rest_fields(1) [OF R(12)] A(2) by simp
  have inv: "bc_inv s2 {i, j}" using R(4) by (simp add: insert_commute)
  from write_release [OF inv _ R(5) _ R(8) sy _ hw] A(3,4) R(3,6)
  show ?thesis
    by (auto simp: R(1,2,8) copied_def R(9-12,14))
qed

text \<open>Rewriting one block in place.\<close>

lemma rewrite_block:
  assumes inv: "bc_inv s {}" and hw: "havedisk1 s" "a < FSSIZE"
    and room: "card (insert (1, a) (dirty_keys s)) \<le> NBUF"
  shows "\<exists>i s1 s2 t. bread 1 a s = Ret i s1 \<and> b_data (bufat i s1) = view s (1, a) \<and> fs_rest s1 = fs_rest s \<and>
    bwrite i (set_data i d s1) = Ret () s2 \<and> brelse i s2 = Ret () t \<and> bc_inv t {} \<and>
    view t = (view s)((1, a) := d) \<and> disk t = (disk s)((1, a) := d) \<and>
    dwrites t = dwrites s @ [((1, a), d)] \<and> fs_rest t = fs_rest s \<and> dirty_keys t = dirty_keys s - {(1, a)}"
proof -
  obtain i s1 where i: "bread 1 a s = Ret i s1" "bread_post (1, a) s {} i s1"
    using bread_ok [OF inv _ _ hw] room by (auto simp: busy_def)
  note P = i(2) [unfolded bread_post_def]
  have P': "bc_inv s1 {i}" using P by simp
  note S = set_data_ok [OF P', where i = i and d = d, simplified]
  have hw': "havedisk1 (set_data i d s1)" "b_blockno (bufat i (set_data i d s1)) < FSSIZE"
    using fs_rest_fields(1) [OF S(5)] fs_rest_fields(1) [of s1 s] P hw by (auto simp: S(7) bkey_of_def)
  obtain s2 where s2: "bwrite i (set_data i d s1) = Ret () s2" "bc_inv s2 {i}" "view s2 = view (set_data i d s1)"
      "disk s2 = (disk s)((1, a) := d)" "dwrites s2 = dwrites s @ [((1, a), d)]" "fs_rest s2 = fs_rest s"
      "dirty_keys s2 = dirty_keys s - {(1, a)}"
      "bufat i s2 = (bufat i s1)\<lparr>b_data := d, b_dirty := False\<rparr>"
    using bwrite_ok [OF S(1) _ hw'] P by (auto simp: S)
  have "b_dirty (bufat i s2) \<or> b_data (bufat i s2) = disk s2 (bkey_of (bufat i s2))"
    using P by (simp add: s2(4,8))
  then obtain t where "brelse i s2 = Ret () t" "bc_inv t ({i} - {i})" "view t = view s2" "disk t = disk s2"
      "dwrites t = dwrites s2" "fs_rest t = fs_rest s2" "dirty_keys t = dirty_keys s2"
    using brelse_ok [OF s2(2)] by blast
  then show ?thesis using i(1) P s2 S(2) by auto
qed

text \<open>A buffer that caches nothing.\<close>

definition idle_buf :: buf where
  "idle_buf = \<lparr>b_valid = False, b_dirty = False, b_dev = 0, b_blockno = 0,
     b_lock = initsleeplock ''buffer'', b_refcnt = 0, b_data = replicate 512 0\<rparr>"

end
