(* ===== verification/Bytes.thy ===== *)
theory Bytes
  imports Xv6_Prelude
begin

section \<open>Integers in blocks of bytes\<close>

text \<open>
  The kernel reads and writes the fields of on-disk structures through C pointers into a
  block. Here a block is a list of bytes; these are the little-endian accesses at a byte
  offset, with their round-trip and independence laws.
\<close>

definition le16 :: "u16 \<Rightarrow> u8 list" where
  "le16 w = [ucast w, ucast (drop_bit 8 w)]"

definition le32 :: "u32 \<Rightarrow> u8 list" where
  "le32 w = [ucast w, ucast (drop_bit 8 w), ucast (drop_bit 16 w), ucast (drop_bit 24 w)]"

definition rd16 :: "u8 list \<Rightarrow> nat \<Rightarrow> u16" where
  "rd16 d o' = ucast (d ! o') OR push_bit 8 (ucast (d ! (o' + 1)))"

definition rd32 :: "u8 list \<Rightarrow> nat \<Rightarrow> u32" where
  "rd32 d o' = ucast (d ! o') OR push_bit 8 (ucast (d ! (o' + 1))) OR
               push_bit 16 (ucast (d ! (o' + 2))) OR push_bit 24 (ucast (d ! (o' + 3)))"

definition put_bytes :: "nat \<Rightarrow> u8 list \<Rightarrow> u8 list \<Rightarrow> u8 list" where
  "put_bytes off bs d = take off d @ bs @ drop (off + length bs) d"

definition get_bytes :: "nat \<Rightarrow> nat \<Rightarrow> u8 list \<Rightarrow> u8 list" where
  "get_bytes off n d = take n (drop off d)"

definition wr16 :: "nat \<Rightarrow> u16 \<Rightarrow> u8 list \<Rightarrow> u8 list" where
  "wr16 off w d = put_bytes off (le16 w) d"

definition wr32 :: "nat \<Rightarrow> u32 \<Rightarrow> u8 list \<Rightarrow> u8 list" where
  "wr32 off w d = put_bytes off (le32 w) d"

lemma length_le [simp]: "length (le16 w) = 2" "length (le32 v) = 4"
  by (simp_all add: le16_def le32_def)

lemma length_put_bytes [simp]:
  "off + length bs \<le> length d \<Longrightarrow> length (put_bytes off bs d) = length d"
  by (simp add: put_bytes_def)

lemma length_wr [simp]:
  "off + 2 \<le> length d \<Longrightarrow> length (wr16 off w d) = length d"
  "off + 4 \<le> length d \<Longrightarrow> length (wr32 off v d) = length d"
  by (simp_all add: wr16_def wr32_def)

lemma nth_put_bytes:
  assumes "off + length bs \<le> length d" "i < length d"
  shows "put_bytes off bs d ! i = (if off \<le> i \<and> i < off + length bs then bs ! (i - off) else d ! i)"
  using assms by (auto simp: put_bytes_def nth_append min_def)

lemma le32_bytes:
  "(ucast (ucast w :: u8) OR push_bit 8 (ucast (ucast (drop_bit 8 w) :: u8)) OR
    push_bit 16 (ucast (ucast (drop_bit 16 w) :: u8)) OR push_bit 24 (ucast (ucast (drop_bit 24 w) :: u8)))
    = (w :: u32)"
proof (rule bit_word_eqI)
  fix n assume "n < LENGTH(32)"
  then have "n < 8 \<or> 8 \<le> n \<and> n < 16 \<or> 16 \<le> n \<and> n < 24 \<or> 24 \<le> n \<and> n < 32" by auto
  then show "bit (ucast (ucast w :: u8) OR push_bit 8 (ucast (ucast (drop_bit 8 w) :: u8)) OR
    push_bit 16 (ucast (ucast (drop_bit 16 w) :: u8)) OR push_bit 24 (ucast (ucast (drop_bit 24 w) :: u8)) :: u32) n
    = bit w n"
    by (elim disjE) (auto simp: bit_simps)
qed

lemma le16_bytes:
  "(ucast (ucast w :: u8) OR push_bit 8 (ucast (ucast (drop_bit 8 w) :: u8))) = (w :: u16)"
proof (rule bit_word_eqI)
  fix n assume "n < LENGTH(16)"
  then have "n < 8 \<or> 8 \<le> n \<and> n < 16" by auto
  then show "bit (ucast (ucast w :: u8) OR push_bit 8 (ucast (ucast (drop_bit 8 w) :: u8)) :: u16) n = bit w n"
    by (elim disjE) (auto simp: bit_simps)
qed

lemma rd32_wr32: "off + 4 \<le> length d \<Longrightarrow> rd32 (wr32 off w d) off = w"
  by (simp add: rd32_def wr32_def nth_put_bytes) (simp add: le32_def le32_bytes)

lemma rd16_wr16: "off + 2 \<le> length d \<Longrightarrow> rd16 (wr16 off w d) off = w"
  by (simp add: rd16_def wr16_def nth_put_bytes) (simp add: le16_def le16_bytes)

lemma rd32_put_other:
  assumes "off + length bs \<le> length d" "o' + 4 \<le> length d" "o' + 4 \<le> off \<or> off + length bs \<le> o'"
  shows "rd32 (put_bytes off bs d) o' = rd32 d o'"
  using assms by (auto simp: rd32_def nth_put_bytes)

lemma rd16_put_other:
  assumes "off + length bs \<le> length d" "o' + 2 \<le> length d" "o' + 2 \<le> off \<or> off + length bs \<le> o'"
  shows "rd16 (put_bytes off bs d) o' = rd16 d o'"
  using assms by (auto simp: rd16_def nth_put_bytes)

lemma rd32_wr32_other:
  "off + 4 \<le> length d \<Longrightarrow> o' + 4 \<le> length d \<Longrightarrow> o' + 4 \<le> off \<or> off + 4 \<le> o' \<Longrightarrow>
     rd32 (wr32 off w d) o' = rd32 d o'"
  by (simp add: wr32_def rd32_put_other)

lemma get_put_bytes:
  "off + length bs \<le> length d \<Longrightarrow> get_bytes off (length bs) (put_bytes off bs d) = bs"
  by (simp add: get_bytes_def put_bytes_def)

lemma get_put_other:
  assumes "off + length bs \<le> length d" "o' + n \<le> length d" "o' + n \<le> off \<or> off + length bs \<le> o'"
  shows "get_bytes o' n (put_bytes off bs d) = get_bytes o' n d"
  using assms by (intro nth_equalityI) (auto simp: get_bytes_def nth_put_bytes)

end
