(* ===== verification/Log_Crash.thy ===== *)
theory Log_Crash
  imports Log
begin

section \<open>Commit, crash and recovery\<close>

text \<open>
  The disk writes of a commit, and what recovery makes of the disk when the machine stops
  after any number of them. \<open>apply_writes\<close> replays writes on a disk; \<open>recovered\<close> is the
  contents of the home blocks after \<open>recover_from_log\<close>, as a function of the disk alone.
\<close>

fun apply_writes :: "(bkey \<times> block) list \<Rightarrow> (bkey \<Rightarrow> block) \<Rightarrow> bkey \<Rightarrow> block" where
  "apply_writes [] m = m"
| "apply_writes ((k, d) # ws) m = apply_writes ws (m(k := d))"

lemma apply_writes_append: "apply_writes (xs @ ys) m = apply_writes ys (apply_writes xs m)"
  by (induction xs arbitrary: m) auto

lemma apply_writes_other: "k \<notin> fst ` set ws \<Longrightarrow> apply_writes ws m k = m k"
  by (induction ws m rule: apply_writes.induct) auto

text \<open>The writes of a copying loop: element \<open>b\<close> at position \<open>i\<close> goes from block \<open>sf i b\<close> to \<open>df i b\<close>.\<close>

fun copies :: "(nat \<Rightarrow> u32 \<Rightarrow> u32) \<Rightarrow> (nat \<Rightarrow> u32 \<Rightarrow> u32) \<Rightarrow> nat \<Rightarrow> u32 list \<Rightarrow> (bkey \<Rightarrow> block) \<Rightarrow> (bkey \<times> block) list" where
  "copies sf df i [] v = []"
| "copies sf df i (b # bs) v = ((1, df i b), v (1, sf i b)) # copies sf df (Suc i) bs v"

lemma copies_cong:
  "(\<And>j. j < length bs \<Longrightarrow> v (1, sf (i + j) (bs ! j)) = w (1, sf (i + j) (bs ! j))) \<Longrightarrow>
     copies sf df i bs v = copies sf df i bs w"
proof (induction bs arbitrary: i)
  case (Cons b bs)
  have "v (1, sf i b) = w (1, sf i b)" using Cons.prems [of 0] by simp
  moreover have "copies sf df (Suc i) bs v = copies sf df (Suc i) bs w"
    using Cons.prems [of "Suc j" for j] by (intro Cons.IH) force
  ultimately show ?case by simp
qed simp

lemma fst_copies: "x \<in> fst ` set (copies sf df i bs v) \<longleftrightarrow> (\<exists>j < length bs. x = (1, df (i + j) (bs ! j)))"
proof (induction bs arbitrary: i)
  case (Cons b bs)
  then show ?case by (simp add: Ex_less_Suc2)
qed simp

lemma apply_copies:
  assumes "j < length bs"
    and "\<And>a b. a < length bs \<Longrightarrow> b < length bs \<Longrightarrow> df (i + a) (bs ! a) = df (i + b) (bs ! b) \<Longrightarrow> a = b"
  shows "apply_writes (copies sf df i bs v) m (1, df (i + j) (bs ! j)) = v (1, sf (i + j) (bs ! j))"
  using assms
proof (induction bs arbitrary: i j m)
  case (Cons b bs)
  show ?case
  proof (cases j)
    case 0
    have "(1, df i b) \<notin> fst ` set (copies sf df (Suc i) bs v)"
    proof
      assume "(1, df i b) \<in> fst ` set (copies sf df (Suc i) bs v)"
      then obtain a where a: "a < length bs" "df i b = df (Suc i + a) (bs ! a)"
        unfolding fst_copies by blast
      then show False using Cons.prems(2) [of 0 "Suc a"] by simp
    qed
    then show ?thesis using 0 by (simp add: apply_writes_other)
  next
    case (Suc l)
    have "a = b'" if "a < length bs" "b' < length bs" "df (Suc i + a) (bs ! a) = df (Suc i + b') (bs ! b')" for a b'
      using Cons.prems(2) [of "Suc a" "Suc b'"] that by simp
    then show ?thesis using Suc Cons.prems(1) Cons.IH [of l "Suc i"] by simp
  qed
qed simp

subsection \<open>The copying loops\<close>

definition loop_ready :: "fsys \<Rightarrow> bool" where
  "loop_ready s \<longleftrightarrow> bc_inv s {} \<and> havedisk1 s \<and> log_dev s = 1"

lemma card_dirty_mono:
  assumes "bc_inv s {}" "A \<subseteq> dirty_keys s"
  shows "card (insert x (insert y A)) \<le> card (insert x (insert y (dirty_keys s)))"
proof -
  have "finite (dirty_keys s)" using finite_busy [OF assms(1)] by (simp add: busy_def)
  then show ?thesis using assms(2) by (intro card_mono) auto
qed

lemma tail_loop_copies:
  assumes body: "\<And>i b u. copy_ready u (sf i b) (df i b) \<Longrightarrow> log_dev u = 1 \<Longrightarrow> log_start u = L \<Longrightarrow>
        \<exists>t. body i b u = Ret () t \<and> copied (1, sf i b) (1, df i b) u t"
    and "loop_ready s" "log_start s = L"
    and bnd: "\<And>j. j < length bs \<Longrightarrow> sf (i + j) (bs ! j) < FSSIZE \<and> df (i + j) (bs ! j) < FSSIZE"
    and dis: "\<And>a b. a < length bs \<Longrightarrow> b < length bs \<Longrightarrow> df (i + a) (bs ! a) \<noteq> sf (i + b) (bs ! b)"
    and room: "\<And>j. j < length bs \<Longrightarrow>
        card (insert (1, sf (i + j) (bs ! j)) (insert (1, df (i + j) (bs ! j)) (dirty_keys s))) \<le> NBUF"
  shows "\<exists>t. tail_loop body i bs s = Ret () t \<and> bc_inv t {} \<and> fs_rest t = fs_rest s \<and>
    disk t = apply_writes (copies sf df i bs (view s)) (disk s) \<and>
    view t = apply_writes (copies sf df i bs (view s)) (view s) \<and>
    dwrites t = dwrites s @ copies sf df i bs (view s) \<and>
    dirty_keys t = dirty_keys s - fst ` set (copies sf df i bs (view s))"
  using assms(2-)
proof (induction bs arbitrary: i s)
  case Nil
  then show ?case by (simp add: loop_ready_def)
next
  case (Cons b bs)
  have R: "copy_ready s (sf i b) (df i b)"
    using Cons.prems(1) Cons.prems(3-5) [of 0] Cons.prems(4) [of 0 0]
    by (auto simp: copy_ready_def loop_ready_def)
  obtain u where u: "body i b s = Ret () u" "copied (1, sf i b) (1, df i b) s u"
    using body [OF R] Cons.prems(1,2) by (auto simp: loop_ready_def)
  note C = u(2) [unfolded copied_def]
  have F: "havedisk1 u = havedisk1 s" "log_dev u = log_dev s" "log_start u = log_start s"
    using C fs_rest_fields [of u s] by simp_all
  have src: "view u (1, sf (Suc i + j) (bs ! j)) = view s (1, sf (Suc i + j) (bs ! j))" if "j < length bs" for j
    using C Cons.prems(4) [of 0 "Suc j"] that by auto
  have cp: "copies sf df (Suc i) bs (view u) = copies sf df (Suc i) bs (view s)"
    by (rule copies_cong) (rule src)
  have "\<exists>t. tail_loop body (Suc i) bs u = Ret () t \<and> bc_inv t {} \<and> fs_rest t = fs_rest u \<and>
    disk t = apply_writes (copies sf df (Suc i) bs (view u)) (disk u) \<and>
    view t = apply_writes (copies sf df (Suc i) bs (view u)) (view u) \<and>
    dwrites t = dwrites u @ copies sf df (Suc i) bs (view u) \<and>
    dirty_keys t = dirty_keys u - fst ` set (copies sf df (Suc i) bs (view u))"
  proof (rule Cons.IH)
    show "loop_ready u" "log_start u = L" using C F Cons.prems(1,2) by (simp_all add: loop_ready_def)
    fix j assume j: "j < length bs"
    show "sf (Suc i + j) (bs ! j) < FSSIZE \<and> df (Suc i + j) (bs ! j) < FSSIZE"
      using Cons.prems(3) [of "Suc j"] j by simp
    have "card (insert (1, sf (Suc i + j) (bs ! j)) (insert (1, df (Suc i + j) (bs ! j)) (dirty_keys u)))
      \<le> card (insert (1, sf (Suc i + j) (bs ! j)) (insert (1, df (Suc i + j) (bs ! j)) (dirty_keys s)))"
      using Cons.prems(1) C by (intro card_dirty_mono) (auto simp: loop_ready_def)
    also have "\<dots> \<le> NBUF" using Cons.prems(5) [of "Suc j"] j by simp
    finally show "card (insert (1, sf (Suc i + j) (bs ! j)) (insert (1, df (Suc i + j) (bs ! j)) (dirty_keys u))) \<le> NBUF" .
  next
    fix a b' assume "a < length bs" "b' < length bs"
    then show "df (Suc i + a) (bs ! a) \<noteq> sf (Suc i + b') (bs ! b')"
      using Cons.prems(4) [of "Suc a" "Suc b'"] by simp
  qed
  then show ?case using u(1) C unfolding cp by auto
qed

definition logblk :: "u32 \<Rightarrow> nat \<Rightarrow> u32" where
  "logblk L i = L + of_nat i + 1"

definition in_log :: "u32 \<Rightarrow> u32 \<Rightarrow> bool" where
  "in_log L b \<longleftrightarrow> unat L \<le> unat b \<and> unat b \<le> unat L + 30"

definition log_fits :: "u32 \<Rightarrow> bool" where
  "log_fits L \<longleftrightarrow> unat L + 31 \<le> 1000"

lemma unat_logblk: "log_fits L \<Longrightarrow> i < 30 \<Longrightarrow> unat (logblk L i) = unat L + i + 1"
proof -
  assume a: "log_fits L" "i < 30"
  have "logblk L i = L + of_nat (i + 1)" by (simp add: logblk_def)
  moreover have "unat (L + of_nat (i + 1)) = unat L + (i + 1)"
    using a by (simp add: unat_word_ariths unat_of_nat log_fits_def del: of_nat_add)
  ultimately show ?thesis by simp
qed

lemma logblk_facts:
  assumes "log_fits L" "i < 30"
  shows "in_log L (logblk L i)" "logblk L i < FSSIZE" "logblk L i \<noteq> L" "L < FSSIZE" "in_log L L"
    "j < 30 \<Longrightarrow> logblk L i = logblk L j \<longleftrightarrow> i = j"
proof -
  have u: "unat (logblk L i) = unat L + i + 1" by (rule unat_logblk [OF assms])
  then show "in_log L (logblk L i)" "logblk L i < FSSIZE" "logblk L i \<noteq> L"
    using assms by (auto simp: in_log_def word_less_nat_alt log_fits_def)
  show "L < FSSIZE" "in_log L L" using assms(1) by (auto simp: in_log_def word_less_nat_alt log_fits_def)
  show "logblk L i = logblk L j \<longleftrightarrow> i = j" if "j < 30"
    using u unat_logblk [OF assms(1) that] by (auto simp: word_unat_eq_iff)
qed

lemma write_log_one_copied:
  "copy_ready u b (logblk L i) \<Longrightarrow> log_dev u = 1 \<Longrightarrow> log_start u = L \<Longrightarrow>
     \<exists>t. write_log_one i b u = Ret () t \<and> copied (1, b) (1, logblk L i) u t"
proof -
  assume a: "copy_ready u b (logblk L i)" "log_dev u = 1" "log_start u = L"
  have "log_dev s1 = 1" if "bread 1 (logblk L i) u = Ret x s1" for x s1
  proof -
    have "copy_ready u (logblk L i) b" using a(1) by (auto simp: copy_ready_def insert_commute)
    then obtain i' s1' where "bread 1 (logblk L i) u = Ret i' s1'" "fs_rest s1' = fs_rest u"
      by (rule read_two)
    then show ?thesis using that fs_rest_fields(6) [of s1' u] a(2) by simp
  qed
  then have "write_log_one i b u = bindr (bread 1 (logblk L i) u) (\<lambda>d s1. bindr (bread 1 b s1) (\<lambda>l s2.
      bindr (bwrite d (set_data d (b_data (bufat l s2)) s2)) (\<lambda>_ s3.
      bindr (brelse l s3) (\<lambda>_ s4. brelse d s4))))"
    using a(2,3) unfolding write_log_one_def logblk_def [symmetric]
    by (auto intro!: bindr_cong simp flip: logblk_def)
  then show ?thesis using copy_dst_first [OF a(1)] by simp
qed

lemma install_one_copied:
  "copy_ready u (logblk L i) b \<Longrightarrow> log_dev u = 1 \<Longrightarrow> log_start u = L \<Longrightarrow>
     \<exists>t. install_one i b u = Ret () t \<and> copied (1, logblk L i) (1, b) u t"
proof -
  assume a: "copy_ready u (logblk L i) b" "log_dev u = 1" "log_start u = L"
  have "log_dev s1 = 1" if "bread 1 (logblk L i) u = Ret x s1" for x s1
  proof -
    obtain i' s1' where "bread 1 (logblk L i) u = Ret i' s1'" "fs_rest s1' = fs_rest u"
      using a(1) by (rule read_two)
    then show ?thesis using that fs_rest_fields(6) [of s1' u] a(2) by simp
  qed
  then have "install_one i b u = bindr (bread 1 (logblk L i) u) (\<lambda>l s1. bindr (bread 1 b s1) (\<lambda>d s2.
      bindr (bwrite d (set_data d (b_data (bufat l s2)) s2)) (\<lambda>_ s3.
      bindr (brelse l s3) (\<lambda>_ s4. brelse d s4))))"
    using a(2,3) unfolding install_one_def
    by (auto intro!: bindr_cong simp flip: logblk_def)
  then show ?thesis using copy_src_first [OF a(1)] by simp
qed

lemma write_head_ok:
  assumes "loop_ready s" and L: "log_start s = L" "log_fits L"
    and room: "card (insert (1, L) (dirty_keys s)) \<le> NBUF"
  defines "D \<equiv> head_block (log_lh s) (view s (1, L))"
  shows "\<exists>t. write_head s = Ret () t \<and> bc_inv t {} \<and> view t = (view s)((1, L) := D) \<and>
    disk t = (disk s)((1, L) := D) \<and> dwrites t = dwrites s @ [((1, L), D)] \<and> fs_rest t = fs_rest s \<and>
    dirty_keys t = dirty_keys s - {(1, L)}"
proof -
  have r: "bc_inv s {}" "havedisk1 s" "log_dev s = 1" using assms(1) by (simp_all add: loop_ready_def)
  have "L < FSSIZE" using logblk_facts(4) [OF L(2), of 0] by simp
  from rewrite_block [OF r(1,2) this room, of D] obtain i s1 s2 t where
    t: "bread 1 L s = Ret i s1" "b_data (bufat i s1) = view s (1, L)" "fs_rest s1 = fs_rest s"
      "bwrite i (set_data i D s1) = Ret () s2" "brelse i s2 = Ret () t" "bc_inv t {}"
      "view t = (view s)((1, L) := D)" "disk t = (disk s)((1, L) := D)"
      "dwrites t = dwrites s @ [((1, L), D)]" "fs_rest t = fs_rest s" "dirty_keys t = dirty_keys s - {(1, L)}"
    by blast
  have "log_lh s1 = log_lh s" using fs_rest_fields(7) [OF t(3)] .
  then have "write_head s = Ret () t"
    using t(1,2,4,5) r(3) L(1) by (simp add: write_head_def head_block_def [symmetric] D_def [symmetric])
  then show ?thesis using t by blast
qed

subsection \<open>The writes of a commit\<close>

lemma log_lh_simps [simp]:
  "bufat i (s\<lparr>log_lh := l\<rparr>) = bufat i s" "view (s\<lparr>log_lh := l\<rparr>) = view s"
  "dirty_keys (s\<lparr>log_lh := l\<rparr>) = dirty_keys s" "bc_inv (s\<lparr>log_lh := l\<rparr>) H = bc_inv s H"
  "fs_rest (s\<lparr>log_lh := l\<rparr>) = (fs_rest s)\<lparr>log_lh := l\<rparr>"
proof -
  show at: "bufat i (s\<lparr>log_lh := l\<rparr>) = bufat i s" for i by (simp add: bufat_def)
  show "view (s\<lparr>log_lh := l\<rparr>) = view s"
    unfolding view_def at by (auto simp: fun_eq_iff split: option.splits)
  show "dirty_keys (s\<lparr>log_lh := l\<rparr>) = dirty_keys s" by (simp add: dirty_keys_def dirty_bufs_def at)
  show "bc_inv (s\<lparr>log_lh := l\<rparr>) H = bc_inv s H" unfolding bc_inv_def at by simp
  show "fs_rest (s\<lparr>log_lh := l\<rparr>) = (fs_rest s)\<lparr>log_lh := l\<rparr>" by (simp add: fs_rest_def)
qed

text \<open>
  A transaction ready to commit: no buffer is held, the dirty buffers are those of the
  blocks in the header, which are home blocks, and the log on disk is empty.
\<close>

definition trans_ok :: "fsys \<Rightarrow> bool" where
  "trans_ok s \<longleftrightarrow> loop_ready s \<and> log_fits (log_start s) \<and> distinct (log_lh s) \<and>
     length (log_lh s) < NBUF \<and> (\<forall>b \<in> set (log_lh s). b < FSSIZE \<and> \<not> in_log (log_start s) b) \<and>
     dirty_keys s = Pair 1 ` set (log_lh s) \<and> length (disk s (1, log_start s)) = BSIZE \<and>
     head_n (disk s (1, log_start s)) \<le> 0"

definition log_writes :: "u32 \<Rightarrow> u32 list \<Rightarrow> (bkey \<Rightarrow> block) \<Rightarrow> (bkey \<times> block) list" where
  "log_writes L bs v = copies (\<lambda>i b. b) (\<lambda>i b. logblk L i) 0 bs v"

definition home_writes :: "u32 list \<Rightarrow> (bkey \<Rightarrow> block) \<Rightarrow> (bkey \<times> block) list" where
  "home_writes bs v = map (\<lambda>b. ((1, b), v (1, b))) bs"

definition commit_writes :: "u32 \<Rightarrow> u32 list \<Rightarrow> (bkey \<Rightarrow> block) \<Rightarrow> block \<Rightarrow> (bkey \<times> block) list" where
  "commit_writes L bs v h =
     log_writes L bs v @ ((1, L), head_block bs h) # home_writes bs v @ [((1, L), head_block [] (head_block bs h))]"

lemma log_writes_keys:
  assumes "log_fits L" "length bs \<le> 30" "x \<in> fst ` set (log_writes L bs v)"
  shows "\<exists>b. x = (1, b) \<and> in_log L b \<and> b \<noteq> L"
proof -
  obtain j where "j < length bs" "x = (1, logblk L j)"
    using assms(3) unfolding log_writes_def fst_copies by auto
  then show ?thesis using logblk_facts [OF assms(1), of j] assms(2) by auto
qed

lemma apply_log_writes:
  assumes "log_fits L" "length bs \<le> 30" "j < length bs"
  shows "apply_writes (log_writes L bs v) m (1, logblk L j) = v (1, bs ! j)"
  unfolding log_writes_def
  using apply_copies [of j bs "\<lambda>i b. logblk L i" 0 "\<lambda>i b. b" v m] logblk_facts(6) [OF assms(1)] assms
  by simp

lemma copies_home:
  assumes "\<And>j. j < length bs \<Longrightarrow> m (1, logblk L (i + j)) = v (1, bs ! j)"
  shows "copies (\<lambda>i b. logblk L i) (\<lambda>i b. b) i bs m = home_writes bs v"
  using assms
proof (induction bs arbitrary: i)
  case Nil
  then show ?case by (simp add: home_writes_def)
next
  case (Cons b bs)
  have "m (1, logblk L i) = v (1, b)" using Cons.prems [of 0] by simp
  moreover have "copies (\<lambda>i b. logblk L i) (\<lambda>i b. b) (Suc i) bs m = home_writes bs v"
    using Cons.prems [of "Suc j" for j] by (intro Cons.IH) force
  ultimately show ?case by (simp add: home_writes_def)
qed

lemma write_log_ok:
  assumes "trans_ok s"
  shows "\<exists>t. write_log s = Ret () t \<and> bc_inv t {} \<and> fs_rest t = fs_rest s \<and>
    disk t = apply_writes (log_writes (log_start s) (log_lh s) (view s)) (disk s) \<and>
    view t = apply_writes (log_writes (log_start s) (log_lh s) (view s)) (view s) \<and>
    dwrites t = dwrites s @ log_writes (log_start s) (log_lh s) (view s) \<and> dirty_keys t = dirty_keys s"
proof -
  let ?L = "log_start s"
  note T = assms [unfolded trans_ok_def]
  have fin: "finite (dirty_keys s)" "card (dirty_keys s) < NBUF"
    using T card_image_le [of "set (log_lh s)" "Pair (1 :: u32)"] card_length [of "log_lh s"] by auto
  have "\<exists>t. tail_loop write_log_one 0 (log_lh s) s = Ret () t \<and> bc_inv t {} \<and> fs_rest t = fs_rest s \<and>
    disk t = apply_writes (copies (\<lambda>i b. b) (\<lambda>i b. logblk ?L i) 0 (log_lh s) (view s)) (disk s) \<and>
    view t = apply_writes (copies (\<lambda>i b. b) (\<lambda>i b. logblk ?L i) 0 (log_lh s) (view s)) (view s) \<and>
    dwrites t = dwrites s @ copies (\<lambda>i b. b) (\<lambda>i b. logblk ?L i) 0 (log_lh s) (view s) \<and>
    dirty_keys t = dirty_keys s - fst ` set (copies (\<lambda>i b. b) (\<lambda>i b. logblk ?L i) 0 (log_lh s) (view s))"
  proof (rule tail_loop_copies [where L = ?L])
    fix j assume j: "j < length (log_lh s)"
    have m: "(1, log_lh s ! j) \<in> dirty_keys s" using T j by simp
    show "log_lh s ! j < FSSIZE \<and> logblk ?L (0 + j) < FSSIZE"
      using T j logblk_facts(2) [of ?L j] nth_mem [OF j] by auto
    have "insert (1, log_lh s ! j) (insert (1, logblk ?L (0 + j)) (dirty_keys s)) =
        insert (1, logblk ?L (0 + j)) (dirty_keys s)" using m by auto
    then show "card (insert (1, log_lh s ! j) (insert (1, logblk ?L (0 + j)) (dirty_keys s))) \<le> NBUF"
      using fin card_insert_le_m1 [of "Suc (card (dirty_keys s))" "dirty_keys s"] by (simp add: card_insert_if)
  next
    fix a b assume "a < length (log_lh s)" "b < length (log_lh s)"
    then show "logblk ?L (0 + a) \<noteq> log_lh s ! b"
      using T logblk_facts(1) [of ?L a] nth_mem [of b "log_lh s"] by force
  qed (use T in \<open>auto intro: write_log_one_copied\<close>)
  moreover have "dirty_keys s \<inter> fst ` set (log_writes ?L (log_lh s) (view s)) = {}"
  proof (rule equals0I)
    fix x assume "x \<in> dirty_keys s \<inter> fst ` set (log_writes ?L (log_lh s) (view s))"
    then have x: "x \<in> dirty_keys s" "x \<in> fst ` set (log_writes ?L (log_lh s) (view s))" by simp_all
    obtain b where "x = (1, b)" "in_log ?L b" using log_writes_keys [OF _ _ x(2)] T by auto
    then show False using x(1) T by auto
  qed
  ultimately show ?thesis unfolding write_log_def log_writes_def by (auto simp: Diff_triv)
qed

lemma fst_home_writes: "fst ` set (home_writes bs v) = Pair 1 ` set bs"
  by (simp add: home_writes_def image_image)

lemma apply_home_writes:
  assumes "b \<in> set bs" shows "apply_writes (home_writes bs v) m (1, b) = v (1, b)"
  using assms
proof (induction bs arbitrary: m)
  case (Cons a bs)
  show ?case
  proof (cases "b \<in> set bs")
    case False
    then have "(1, b) \<notin> fst ` set (home_writes bs v)" by (auto simp: fst_home_writes)
    then show ?thesis using Cons.prems False by (simp add: home_writes_def apply_writes_other)
  qed (use Cons in \<open>simp add: home_writes_def\<close>)
qed simp

lemma install_copies:
  assumes "loop_ready s" "log_fits (log_start s)" "length (log_lh s) \<le> LOGSIZE"
    and hb: "\<And>b. b \<in> set (log_lh s) \<Longrightarrow> b < FSSIZE \<and> \<not> in_log (log_start s) b"
    and room: "\<And>j. j < length (log_lh s) \<Longrightarrow>
        card (insert (1, logblk (log_start s) j) (insert (1, log_lh s ! j) (dirty_keys s))) \<le> NBUF"
  defines "W \<equiv> copies (\<lambda>i b. logblk (log_start s) i) (\<lambda>i b. b) 0 (log_lh s) (view s)"
  shows "\<exists>t. install_trans s = Ret () t \<and> bc_inv t {} \<and> fs_rest t = fs_rest s \<and>
    disk t = apply_writes W (disk s) \<and> view t = apply_writes W (view s) \<and>
    dwrites t = dwrites s @ W \<and> dirty_keys t = dirty_keys s - fst ` set W"
  unfolding install_trans_def W_def
proof (rule tail_loop_copies [where L = "log_start s"])
  fix j assume j: "j < length (log_lh s)"
  show "logblk (log_start s) (0 + j) < FSSIZE \<and> log_lh s ! j < FSSIZE"
    using hb [OF nth_mem [OF j]] logblk_facts(2) [OF assms(2), of j] assms(3) j by simp
  show "card (insert (1, logblk (log_start s) (0 + j)) (insert (1, log_lh s ! j) (dirty_keys s))) \<le> NBUF"
    using room [OF j] by simp
next
  fix a b assume "a < length (log_lh s)" "b < length (log_lh s)"
  then show "log_lh s ! a \<noteq> logblk (log_start s) (0 + b)"
    using hb [OF nth_mem, of a] logblk_facts(1) [OF assms(2), of b] assms(3) by auto
qed (use assms(1) in \<open>auto intro: install_one_copied\<close>)

text \<open>\<open>install_trans\<close> from a state whose log blocks hold the values \<open>v\<close>.\<close>

lemma install_trans_ok:
  assumes "loop_ready s" "log_fits (log_start s)" "length (log_lh s) < NBUF"
    and hb: "\<And>b. b \<in> set (log_lh s) \<Longrightarrow> b < FSSIZE \<and> \<not> in_log (log_start s) b"
    and src: "\<And>j. j < length (log_lh s) \<Longrightarrow> view s (1, logblk (log_start s) j) = v (1, log_lh s ! j)"
    and room: "dirty_keys s = Pair 1 ` set (log_lh s)"
  shows "\<exists>t. install_trans s = Ret () t \<and> bc_inv t {} \<and> fs_rest t = fs_rest s \<and>
    disk t = apply_writes (home_writes (log_lh s) v) (disk s) \<and>
    view t = apply_writes (home_writes (log_lh s) v) (view s) \<and>
    dwrites t = dwrites s @ home_writes (log_lh s) v \<and> dirty_keys t = {}"
proof -
  let ?L = "log_start s"
  have cp: "copies (\<lambda>i b. logblk ?L i) (\<lambda>i b. b) 0 (log_lh s) (view s) = home_writes (log_lh s) v"
    using src by (intro copies_home) simp
  have "card (insert (1, logblk ?L j) (insert (1, log_lh s ! j) (dirty_keys s))) \<le> NBUF"
    if "j < length (log_lh s)" for j
  proof -
    have "insert (1, log_lh s ! j) (dirty_keys s) = dirty_keys s" using room that by auto
    moreover have "card (dirty_keys s) < NBUF" "finite (dirty_keys s)"
      using card_image_le [of "set (log_lh s)" "Pair (1 :: u32)"] card_length [of "log_lh s"] room assms(3) by auto
    ultimately show ?thesis by (simp add: card_insert_if)
  qed
  from install_copies [OF assms(1,2) _ hb this] assms(3) show ?thesis
    by (auto simp: cp fst_home_writes room)
qed

lemma commit_ok:
  assumes T: "trans_ok s" and ne: "log_lh s \<noteq> []"
  defines "W \<equiv> commit_writes (log_start s) (log_lh s) (view s) (disk s (1, log_start s))"
  shows "\<exists>t. commit s = Ret () t \<and> bc_inv t {} \<and> fs_rest t = (fs_rest s)\<lparr>log_lh := []\<rparr> \<and>
    dwrites t = dwrites s @ W \<and> disk t = apply_writes W (disk s) \<and> view t = apply_writes W (view s) \<and>
    dirty_keys t = {}"
proof -
  let ?L = "log_start s" and ?bs = "log_lh s" and ?v = "view s"
  let ?W1 = "log_writes ?L ?bs ?v" and ?W2 = "home_writes ?bs ?v"
  note T' = T [unfolded trans_ok_def loop_ready_def]
  have len: "length ?bs \<le> 30" using T' by simp
  have Lnd: "(1, ?L) \<notin> dirty_keys s" using T' logblk_facts(5) [of ?L 0] by auto
  have cd: "card (insert (1, ?L) (dirty_keys s)) \<le> NBUF"
    using T' Lnd card_image_le [of "set ?bs" "Pair (1 :: u32)"] card_length [of ?bs] by (simp add: card_insert_if)
  have vL: "?v (1, ?L) = disk s (1, ?L)" using view_clean [of s "{}" "(1, ?L)"] T' Lnd by simp
  have W1L: "apply_writes ?W1 m (1, ?L) = m (1, ?L)" for m
    using log_writes_keys [of ?L ?bs "(1, ?L)" ?v] T' len by (intro apply_writes_other) auto
  let ?D1 = "head_block ?bs (disk s (1, ?L))"
  obtain t1 where t1: "write_log s = Ret () t1" "bc_inv t1 {}" "fs_rest t1 = fs_rest s"
      "disk t1 = apply_writes ?W1 (disk s)" "view t1 = apply_writes ?W1 ?v" "dwrites t1 = dwrites s @ ?W1"
      "dirty_keys t1 = dirty_keys s"
    using write_log_ok [OF T] by blast
  note F1 = fs_rest_fields [OF t1(3)]
  obtain t2 where t2: "write_head t1 = Ret () t2" "bc_inv t2 {}" "view t2 = (view t1)((1, ?L) := ?D1)"
      "disk t2 = (disk t1)((1, ?L) := ?D1)" "dwrites t2 = dwrites t1 @ [((1, ?L), ?D1)]"
      "fs_rest t2 = fs_rest t1" "dirty_keys t2 = dirty_keys s"
    using write_head_ok [of t1 ?L] T' t1 F1 cd Lnd W1L vL by (auto simp: loop_ready_def)
  note F2 = fs_rest_fields [OF t2(6)]
  have src: "view t2 (1, logblk ?L j) = ?v (1, ?bs ! j)" if "j < length ?bs" for j
    using apply_log_writes [of ?L ?bs j ?v ?v] T' len that logblk_facts(3) [of ?L j] by (simp add: t2(3) t1(5))
  obtain t3 where t3: "install_trans t2 = Ret () t3" "bc_inv t3 {}" "fs_rest t3 = fs_rest t2"
      "disk t3 = apply_writes ?W2 (disk t2)" "view t3 = apply_writes ?W2 (view t2)"
      "dwrites t3 = dwrites t2 @ ?W2" "dirty_keys t3 = {}"
    using install_trans_ok [of t2 ?v] T' t2(2,7) src F1 F2 by (auto simp: loop_ready_def)
  note F3 = fs_rest_fields [OF t3(3)]
  have "(1, ?L) \<notin> fst ` set ?W2" using T' logblk_facts(5) [of ?L 0] by (auto simp: fst_home_writes)
  then have v3: "view t3 (1, ?L) = ?D1" by (simp add: t3(5) apply_writes_other t2(3))
  let ?t3 = "t3\<lparr>log_lh := []\<rparr>"
  obtain t4 where t4: "write_head ?t3 = Ret () t4" "bc_inv t4 {}"
      "view t4 = (view t3)((1, ?L) := head_block [] ?D1)" "disk t4 = (disk t3)((1, ?L) := head_block [] ?D1)"
      "dwrites t4 = dwrites t3 @ [((1, ?L), head_block [] ?D1)]" "fs_rest t4 = (fs_rest t3)\<lparr>log_lh := []\<rparr>"
      "dirty_keys t4 = {}"
    using write_head_ok [of ?t3 ?L] T' t3(2,7) F1 F2 F3 v3 by (auto simp: loop_ready_def)
  have "commit s = Ret () t4" using ne t1(1) t2(1) t3(1) t4(1) by (simp add: commit_def)
  moreover have "dwrites t4 = dwrites s @ W" by (simp add: t4(5) t3(6) t2(5) t1(6) W_def commit_writes_def)
  moreover have "disk t4 = apply_writes W (disk s)"
    by (simp add: t4(4) t3(4) t2(4) t1(4) W_def commit_writes_def apply_writes_append)
  moreover have "view t4 = apply_writes W ?v"
    by (simp add: t4(3) t3(5) t2(3) t1(5) W_def commit_writes_def apply_writes_append)
  ultimately show ?thesis using t4(2,6,7) t3(3) t2(6) t1(3) by auto
qed

subsection \<open>Recovery from a crash\<close>

definition recovered :: "u32 \<Rightarrow> (bkey \<Rightarrow> block) \<Rightarrow> bkey \<Rightarrow> block" where
  "recovered L d = apply_writes (copies (\<lambda>i b. logblk L i) (\<lambda>i b. b) 0 (head_blocks (d (1, L))) d) d"

lemma recovered_empty: "head_n (d (1, L)) \<le> 0 \<Longrightarrow> recovered L d = d"
  by (simp add: recovered_def head_blocks_def)

text \<open>
  With a full header on disk and the log blocks holding the values \<open>v\<close>, recovery installs
  exactly these, however many of the home blocks were already written.
\<close>

lemma recovered_full:
  assumes "d (1, L) = head_block bs h" "length h = BSIZE" "length bs \<le> LOGSIZE"
    and "\<And>j. j < length bs \<Longrightarrow> d (1, logblk L j) = v (1, bs ! j)"
  shows "recovered L d = apply_writes (home_writes bs v) d"
  using assms head_block_blocks [OF assms(2,3)] copies_home [of bs d L 0 v] by (simp add: recovered_def)

lemma crash_before_header:
  assumes T: "trans_ok s" and b: "\<not> in_log (log_start s) b"
  shows "recovered (log_start s) (apply_writes (take k (log_writes (log_start s) (log_lh s) v)) (disk s)) (1, b) = disk s (1, b)"
proof -
  let ?L = "log_start s" and ?W = "take k (log_writes (log_start s) (log_lh s) v)"
  note T' = T [unfolded trans_ok_def]
  have key: "\<exists>c. x = (1, c) \<and> in_log ?L c \<and> c \<noteq> ?L" if "x \<in> fst ` set ?W" for x
    using that log_writes_keys [of ?L "log_lh s" x v] T' set_take_subset [of k "log_writes ?L (log_lh s) v"]
    by (auto simp: image_iff)
  then have "apply_writes ?W (disk s) (1, ?L) = disk s (1, ?L)" by (intro apply_writes_other) blast
  then have "recovered ?L (apply_writes ?W (disk s)) = apply_writes ?W (disk s)"
    using T' by (intro recovered_empty) simp
  moreover have "apply_writes ?W (disk s) (1, b) = disk s (1, b)"
    using key b by (intro apply_writes_other) blast
  ultimately show ?thesis by simp
qed

lemma crash_after_header:
  assumes T: "trans_ok s" and b: "\<not> in_log (log_start s) b"
  defines "L \<equiv> log_start s" and "bs \<equiv> log_lh s" and "v \<equiv> view s"
  shows "recovered L (apply_writes (log_writes L bs v @ ((1, L), head_block bs (disk s (1, L))) #
            take m (home_writes bs v)) (disk s)) (1, b) = v (1, b)" (is "recovered L ?d (1, b) = _")
    and "recovered L (apply_writes (commit_writes L bs v (disk s (1, L))) (disk s)) (1, b) = v (1, b)"
proof -
  note T' = T [unfolded trans_ok_def loop_ready_def, folded L_def bs_def]
  have len: "length bs \<le> 30" using T' by simp
  have hw: "fst ` set (take m (home_writes bs v)) \<subseteq> Pair 1 ` set bs" for m
    using fst_home_writes [of bs v] set_take_subset [of m "home_writes bs v"] by blast
  have nl: "(1, c) \<notin> fst ` set (take m (home_writes bs v))" if "in_log L c" for c m
    using hw T' that by blast
  let ?d1 = "(apply_writes (log_writes L bs v) (disk s))((1, L) := head_block bs (disk s (1, L)))"
  have d: "?d = apply_writes (take m (home_writes bs v)) ?d1" by (simp add: apply_writes_append)
  have lg: "?d1 (1, logblk L j) = v (1, bs ! j)" if "j < length bs" for j
    using apply_log_writes [of L bs j v "disk s"] T' len that logblk_facts(3) [of L j] by simp
  have r: "recovered L ?d = apply_writes (home_writes bs v) ?d"
  proof (rule recovered_full [where h = "disk s (1, L)"])
    show "?d (1, L) = head_block bs (disk s (1, L))"
      unfolding d using nl [of L] logblk_facts(5) [of L 0] T' by (simp add: apply_writes_other)
    fix j assume j: "j < length bs"
    then show "?d (1, logblk L j) = v (1, bs ! j)"
      unfolding d using nl [OF logblk_facts(1)] T' len lg [OF j] by (simp add: apply_writes_other)
  qed (use T' len in auto)
  have base: "?d1 (1, b) = disk s (1, b)"
    using log_writes_keys [of L bs "(1, b)" v] T' len b logblk_facts(5) [of L 0]
    by (auto simp: L_def intro!: apply_writes_other)
  have cl: "v (1, b) = disk s (1, b)" if "b \<notin> set bs"
    unfolding v_def using that T' by (intro view_clean [of s "{}"]) auto
  have home: "apply_writes (home_writes bs v) e (1, b) = v (1, b)" if "b \<notin> set bs \<Longrightarrow> e (1, b) = disk s (1, b)" for e
  proof (cases "b \<in> set bs")
    case False
    then have "(1, b) \<notin> fst ` set (home_writes bs v)" by (auto simp: fst_home_writes)
    then show ?thesis using False cl that by (simp add: apply_writes_other)
  qed (rule apply_home_writes)
  have "?d (1, b) = disk s (1, b)" if "b \<notin> set bs"
    unfolding d using that hw [of m] base by (subst apply_writes_other) blast+
  then show "recovered L ?d (1, b) = v (1, b)" unfolding r by (rule home)
  let ?e = "apply_writes (commit_writes L bs v (disk s (1, L))) (disk s)"
  have e: "?e = (apply_writes (home_writes bs v) ?d1)((1, L) := head_block [] (head_block bs (disk s (1, L))))"
    by (simp add: commit_writes_def apply_writes_append)
  have "head_n (?e (1, L)) \<le> 0"
    unfolding e using head_block_n [of "head_block bs (disk s (1, L))" "[]"] T' len by simp
  then have "recovered L ?e = ?e" by (rule recovered_empty)
  moreover have "?e (1, b) = v (1, b)"
    unfolding e using b logblk_facts(5) [of L 0] T' home [of ?d1] base by (auto simp: L_def)
  ultimately show "recovered L ?e (1, b) = v (1, b)" by simp
qed

lemma committing_simps [simp]:
  "bufat i (s\<lparr>log_committing := c\<rparr>) = bufat i s" "bufat i (s\<lparr>log_outstanding := n\<rparr>) = bufat i s"
  "view (s\<lparr>log_committing := c\<rparr>) = view s" "view (s\<lparr>log_outstanding := n\<rparr>) = view s"
  "dirty_keys (s\<lparr>log_committing := c\<rparr>) = dirty_keys s" "dirty_keys (s\<lparr>log_outstanding := n\<rparr>) = dirty_keys s"
  "bc_inv (s\<lparr>log_committing := c\<rparr>) H = bc_inv s H" "bc_inv (s\<lparr>log_outstanding := n\<rparr>) H = bc_inv s H"
proof -
  show at: "bufat i (s\<lparr>log_committing := c\<rparr>) = bufat i s" "bufat i (s\<lparr>log_outstanding := n\<rparr>) = bufat i s" for i
    by (simp_all add: bufat_def)
  show "view (s\<lparr>log_committing := c\<rparr>) = view s" "view (s\<lparr>log_outstanding := n\<rparr>) = view s"
    unfolding view_def at by (auto simp: fun_eq_iff split: option.splits)
  show "dirty_keys (s\<lparr>log_committing := c\<rparr>) = dirty_keys s" "dirty_keys (s\<lparr>log_outstanding := n\<rparr>) = dirty_keys s"
    by (simp_all add: dirty_keys_def dirty_bufs_def at)
  show "bc_inv (s\<lparr>log_committing := c\<rparr>) H = bc_inv s H" "bc_inv (s\<lparr>log_outstanding := n\<rparr>) H = bc_inv s H"
    unfolding bc_inv_def at by simp_all
qed

lemma trans_ok_simps [simp]:
  "trans_ok (s\<lparr>log_committing := c\<rparr>) = trans_ok s" "trans_ok (s\<lparr>log_outstanding := n\<rparr>) = trans_ok s"
  by (simp_all add: trans_ok_def loop_ready_def)

text \<open>Every prefix of the writes of a commit leaves the old or the new contents to recovery.\<close>

lemma commit_prefixes:
  assumes T: "trans_ok s"
  defines "L \<equiv> log_start s" and "W \<equiv> commit_writes (log_start s) (log_lh s) (view s) (disk s (1, log_start s))"
  shows "(\<forall>b. \<not> in_log L b \<longrightarrow> recovered L (apply_writes (take k W) (disk s)) (1, b) = disk s (1, b)) \<or>
    (\<forall>b. \<not> in_log L b \<longrightarrow> recovered L (apply_writes (take k W) (disk s)) (1, b) = view s (1, b))"
proof -
  let ?W1 = "log_writes L (log_lh s) (view s)" and ?W2 = "home_writes (log_lh s) (view s)"
  let ?h = "((1, L), head_block (log_lh s) (disk s (1, L)))"
  have W: "W = ?W1 @ ?h # ?W2 @ [((1, L), head_block [] (head_block (log_lh s) (disk s (1, L))))]"
    by (simp add: W_def commit_writes_def L_def)
  consider "k \<le> length ?W1" | m where "k = Suc (length ?W1 + m)" "m \<le> length ?W2" | "length W \<le> k"
    unfolding W by (cases "k \<le> length ?W1") (auto dest!: not_le_imp_less less_imp_Suc_add, force)
  then show ?thesis
  proof cases
    case 1
    then have "take k W = take k ?W1" by (simp add: W)
    then show ?thesis using crash_before_header [OF T] by (simp add: L_def)
  next
    case 2
    then have "take k W = ?W1 @ ?h # take m ?W2" by (simp add: W)
    then show ?thesis using crash_after_header(1) [OF T] by (simp add: L_def)
  next
    case 3
    then have "take k W = W" by simp
    then show ?thesis using crash_after_header(2) [OF T] by (simp add: L_def W_def)
  qed
qed

lemma commit_installs:
  assumes T: "trans_ok s" and "\<not> in_log (log_start s) b"
  shows "apply_writes (commit_writes (log_start s) (log_lh s) (view s) (disk s (1, log_start s))) (disk s) (1, b) = view s (1, b)"
proof -
  let ?L = "log_start s"
  let ?e = "apply_writes (commit_writes ?L (log_lh s) (view s) (disk s (1, ?L))) (disk s)"
  note T' = T [unfolded trans_ok_def]
  have "?e (1, ?L) = head_block [] (head_block (log_lh s) (disk s (1, ?L)))"
    by (simp add: commit_writes_def apply_writes_append)
  then have "head_n (?e (1, ?L)) \<le> 0"
    using head_block_n [of "head_block (log_lh s) (disk s (1, ?L))" "[]"] T' by simp
  then show ?thesis using crash_after_header(2) [OF assms] recovered_empty [of ?e ?L] by simp
qed

text \<open>
  A machine just booted: the cache agrees with the disk, and the header on disk, if it has
  entries, names home blocks.
\<close>

definition cold_ok :: "fsys \<Rightarrow> bool" where
  "cold_ok s \<longleftrightarrow> loop_ready s \<and> log_fits (log_start s) \<and> dirty_keys s = {} \<and>
     length (disk s (1, log_start s)) = BSIZE \<and> head_n (disk s (1, log_start s)) \<le> int LOGSIZE \<and>
     (\<forall>b \<in> set (head_blocks (disk s (1, log_start s))). b < FSSIZE \<and> \<not> in_log (log_start s) b)"

definition recovery_writes :: "u32 \<Rightarrow> (bkey \<Rightarrow> block) \<Rightarrow> (bkey \<times> block) list" where
  "recovery_writes L d =
     copies (\<lambda>i b. logblk L i) (\<lambda>i b. b) 0 (head_blocks (d (1, L))) d @ [((1, L), head_block [] (d (1, L)))]"

lemma length_head_blocks: "head_n d \<le> int LOGSIZE \<Longrightarrow> length (head_blocks d) \<le> LOGSIZE"
  by (simp add: head_blocks_def)

lemma read_head_ok:
  assumes "cold_ok s"
  shows "\<exists>t. read_head s = Ret () t \<and> bc_inv t {} \<and> view t = view s \<and> disk t = disk s \<and>
    dwrites t = dwrites s \<and> dirty_keys t = {} \<and>
    fs_rest t = (fs_rest s)\<lparr>log_lh := head_blocks (disk s (1, log_start s))\<rparr>"
proof -
  let ?L = "log_start s"
  note C = assms [unfolded cold_ok_def loop_ready_def]
  have "?L < FSSIZE" using logblk_facts(4) [of ?L 0] C by simp
  then obtain i s1 where i: "bread 1 ?L s = Ret i s1" "bread_post (1, ?L) s {} i s1"
    using bread_ok [of s "{}" ?L] C by (auto simp: busy_def)
  note P = i(2) [unfolded bread_post_def]
  have v: "view s (1, ?L) = disk s (1, ?L)" using view_clean [of s "{}" "(1, ?L)"] C by simp
  let ?s1 = "s1\<lparr>log_lh := head_blocks (disk s (1, ?L))\<rparr>"
  have "bc_inv ?s1 {i}" "b_data (bufat i ?s1) = disk ?s1 (bkey_of (bufat i ?s1))"
    using P v by simp_all
  then obtain t where t: "brelse i ?s1 = Ret () t" "bc_inv t ({i} - {i})" "view t = view ?s1" "disk t = disk ?s1"
      "dwrites t = dwrites ?s1" "fs_rest t = fs_rest ?s1" "dirty_keys t = dirty_keys ?s1"
    using brelse_ok [of ?s1 "{i}" i] by blast
  have "read_head s = Ret () t"
    using i(1) t(1) C P v by (simp add: read_head_def Let_def)
  then show ?thesis using t P C by simp
qed

lemma recover_ok:
  assumes C: "cold_ok s"
  defines "W \<equiv> recovery_writes (log_start s) (disk s)"
  shows "\<exists>t. recover_from_log s = Ret () t \<and> bc_inv t {} \<and> dirty_keys t = {} \<and> log_lh t = [] \<and>
    dwrites t = dwrites s @ W \<and> disk t = apply_writes W (disk s)"
proof -
  let ?L = "log_start s" and ?bs = "head_blocks (disk s (1, log_start s))"
  note C' = C [unfolded cold_ok_def loop_ready_def]
  have vd: "view s = disk s" using view_clean [of s "{}"] C' by (intro ext) simp
  have c2: "card {(1 :: u32, a), (1, b :: u32)} \<le> NBUF" for a b by (simp add: card_insert_if)
  obtain t1 where t1: "read_head s = Ret () t1" "bc_inv t1 {}" "view t1 = view s" "disk t1 = disk s"
      "dwrites t1 = dwrites s" "dirty_keys t1 = {}" "fs_rest t1 = (fs_rest s)\<lparr>log_lh := ?bs\<rparr>"
    using read_head_ok [OF C] by blast
  have "fs_rest t1 = fs_rest (s\<lparr>log_lh := ?bs\<rparr>)" using t1(7) by simp
  note F1 = fs_rest_fields [OF this]
  let ?W1 = "copies (\<lambda>i b. logblk ?L i) (\<lambda>i b. b) 0 ?bs (disk s)"
  obtain t2 where t2: "install_trans t1 = Ret () t2" "bc_inv t2 {}" "fs_rest t2 = fs_rest t1"
      "disk t2 = apply_writes ?W1 (disk s)" "view t2 = apply_writes ?W1 (disk s)"
      "dwrites t2 = dwrites s @ ?W1" "dirty_keys t2 = {}"
    using install_copies [of t1] C' t1(2-6) F1 vd length_head_blocks [of "disk s (1, ?L)"]
    by (auto simp: loop_ready_def c2)
  note F2 = fs_rest_fields [OF t2(3)]
  have "(1, ?L) \<notin> fst ` set ?W1"
  proof
    assume "(1, ?L) \<in> fst ` set ?W1"
    then obtain j where j: "j < length ?bs" "?L = ?bs ! j" unfolding fst_copies by auto
    then have "?L \<in> set ?bs" using nth_mem [OF j(1)] by metis
    then show False using C' logblk_facts(5) [of ?L 0] by auto
  qed
  then have vL: "view t2 (1, ?L) = disk s (1, ?L)" by (simp add: t2(5) apply_writes_other)
  obtain t3 where t3: "write_head (t2\<lparr>log_lh := []\<rparr>) = Ret () t3" "bc_inv t3 {}"
      "disk t3 = (disk t2)((1, ?L) := head_block [] (disk s (1, ?L)))"
      "dwrites t3 = dwrites t2 @ [((1, ?L), head_block [] (disk s (1, ?L)))]"
      "fs_rest t3 = fs_rest (t2\<lparr>log_lh := []\<rparr>)" "dirty_keys t3 = {}"
    using write_head_ok [of "t2\<lparr>log_lh := []\<rparr>" ?L] C' t2(2,7) F1 F2 vL by (auto simp: loop_ready_def)
  have "recover_from_log s = Ret () t3" using t1(1) t2(1) t3(1) by (simp add: recover_from_log_def)
  moreover have "log_lh t3 = []" using fs_rest_fields(7) [OF t3(5)] by simp
  ultimately show ?thesis
    using t3 t2(4,6) by (auto simp: W_def recovery_writes_def apply_writes_append)
qed

lemma apply_writes_in: "x \<in> fst ` set ws \<Longrightarrow> apply_writes ws m x = apply_writes ws m' x"
proof (induction ws arbitrary: m m')
  case (Cons w ws)
  obtain k d where w: "w = (k, d)" by (cases w)
  show ?case
  proof (cases "x \<in> fst ` set ws")
    case True
    then show ?thesis using Cons.IH by (simp add: w)
  next
    case False
    then show ?thesis using Cons.prems by (auto simp: w apply_writes_other)
  qed
qed simp

lemma apply_writes_redo: "apply_writes ws (apply_writes (take k ws) m) = apply_writes ws m"
proof
  fix x
  show "apply_writes ws (apply_writes (take k ws) m) x = apply_writes ws m x"
  proof (cases "x \<in> fst ` set ws")
    case True
    then show ?thesis by (rule apply_writes_in)
  next
    case False
    then have "x \<notin> fst ` set (take k ws)" using set_take_subset [of k ws] by blast
    then show ?thesis using False by (simp add: apply_writes_other)
  qed
qed

lemma recovery_prefixes:
  assumes C: "cold_ok s" and b: "\<not> in_log (log_start s) b"
  defines "L \<equiv> log_start s" and "W \<equiv> recovery_writes (log_start s) (disk s)"
  shows "recovered L (apply_writes (take k W) (disk s)) (1, b) = recovered L (disk s) (1, b)"
    and "apply_writes W (disk s) (1, b) = recovered L (disk s) (1, b)"
    and "head_n (apply_writes W (disk s) (1, L)) = 0"
proof -
  let ?bs = "head_blocks (disk s (1, L))"
  let ?W1 = "copies (\<lambda>i b. logblk L i) (\<lambda>i b. b) 0 ?bs (disk s)"
  let ?D = "head_block [] (disk s (1, L))"
  note C' = C [unfolded cold_ok_def, folded L_def]
  have W: "W = ?W1 @ [((1, L), ?D)]" by (simp add: W_def recovery_writes_def L_def)
  have home: "\<exists>c. x = (1, c) \<and> \<not> in_log L c" if "x \<in> fst ` set ?W1" for x
    using that C' nth_mem unfolding fst_copies by auto
  have L0: "in_log L L" using logblk_facts(5) [of L 0] C' by simp
  have full: "apply_writes W (disk s) = (apply_writes ?W1 (disk s))((1, L) := ?D)"
    by (simp add: W apply_writes_append)
  show fin: "apply_writes W (disk s) (1, b) = recovered L (disk s) (1, b)"
    unfolding full using b L0 by (auto simp: recovered_def L_def)
  show n0: "head_n (apply_writes W (disk s) (1, L)) = 0"
    unfolding full using head_block_n [of "disk s (1, L)" "[]"] C' by simp
  show "recovered L (apply_writes (take k W) (disk s)) (1, b) = recovered L (disk s) (1, b)"
  proof (cases "k \<le> length ?W1")
    case True
    let ?d = "apply_writes (take k ?W1) (disk s)"
    have keep: "?d (1, c) = disk s (1, c)" if "in_log L c" for c
      using that home set_take_subset [of k ?W1] by (intro apply_writes_other) blast
    have "copies (\<lambda>i b. logblk L i) (\<lambda>i b. b) 0 ?bs ?d = ?W1"
      using keep [OF logblk_facts(1)] C' length_head_blocks [of "disk s (1, L)"] by (intro copies_cong) simp
    then have "recovered L ?d = apply_writes ?W1 ?d"
      using keep [OF L0] by (simp add: recovered_def)
    then show ?thesis using True by (simp add: W apply_writes_redo recovered_def)
  next
    case False
    then have "take k W = W" by (simp add: W)
    then show ?thesis using recovered_empty [of "apply_writes W (disk s)" L] n0 fin by simp
  qed
qed

subsection \<open>Properties\<close>

text \<open>A file system with block 100 dirty in the cache and in the header of one open operation.\<close>

definition demo_fs :: fsys where
  "demo_fs = \<lparr>disk = (\<lambda>_. replicate 512 0), havedisk1 = True, dwrites = [],
     bufs = idle_buf\<lparr>b_valid := True, b_dirty := True, b_dev := 1, b_blockno := 100, b_data := replicate 512 7\<rparr>
            # replicate 29 idle_buf,
     lru = [0..<30], log_start = 2, log_size = 30, log_outstanding = 1, log_committing = False, log_dev = 1,
     log_lh = [100], sb = sb_of_block (replicate 512 0), icache = [], cons = empty_console,
     curpid = 1, curkilled = False\<rparr>"

lemma idle_bufat: "i < NBUF \<Longrightarrow> bufat i demo_fs =
    (if i = 0 then idle_buf\<lparr>b_valid := True, b_dirty := True, b_dev := 1, b_blockno := 100, b_data := replicate 512 7\<rparr>
     else idle_buf)"
  by (simp add: bufat_def demo_fs_def nth_Cons')

lemma demo_bc_inv: "bc_inv demo_fs {}"
  unfolding bc_inv_def
  by (auto simp: idle_bufat bkey_of_def idle_buf_def initsleeplock_def split: if_splits)
     (simp_all add: demo_fs_def)

lemma demo_dirty: "dirty_keys demo_fs = {(1, 100)}"
  by (auto simp: dirty_keys_def dirty_bufs_def idle_bufat bkey_of_def idle_buf_def image_iff split: if_splits)

lemma demo_head: "head_n (replicate 512 0) = 0" "length (disk demo_fs (1, 2)) = 512"
  by (simp_all add: head_n_def rd32_def demo_fs_def)

lemma demo_trans_ok: "trans_ok demo_fs"
proof -
  have f: "log_start demo_fs = 2" "log_lh demo_fs = [100]" "havedisk1 demo_fs" "log_dev demo_fs = 1"
      "disk demo_fs = (\<lambda>_. replicate 512 0)"
    by (simp_all add: demo_fs_def)
  show ?thesis
    unfolding trans_ok_def loop_ready_def
    using demo_bc_inv demo_dirty demo_head by (simp add: f log_fits_def in_log_def)
qed




text \<open>The demonstration file system after a crash between header and installation.\<close>

definition crash_fs :: fsys where
  "crash_fs = demo_fs\<lparr>bufs := replicate 30 idle_buf, log_lh := [],
     disk := (\<lambda>k. if k = (1, 2) then head_block [100] (replicate 512 0)
                  else if k = (1, 3) then replicate 512 7 else replicate 512 0)\<rparr>"

lemma crash_cold_ok: "cold_ok crash_fs"
proof -
  have at: "i < NBUF \<Longrightarrow> bufat i crash_fs = idle_buf" for i by (simp add: bufat_def crash_fs_def)
  have f: "log_start crash_fs = 2" "havedisk1 crash_fs" "log_dev crash_fs = 1"
      "disk crash_fs (1, 2) = head_block [100] (replicate 512 0)"
    by (simp_all add: crash_fs_def demo_fs_def)
  have "bc_inv crash_fs {}"
    unfolding bc_inv_def
    by (auto simp: at bkey_of_def idle_buf_def initsleeplock_def) (simp_all add: crash_fs_def demo_fs_def)
  moreover have "dirty_keys crash_fs = {}" by (auto simp: dirty_keys_def dirty_bufs_def at idle_buf_def)
  ultimately show ?thesis
    using head_block_n [of "replicate 512 0" "[100]"] head_block_blocks [of "replicate 512 0" "[100]"]
      length_head_block [of "replicate 512 0" "[100]"]
    by (simp add: cold_ok_def loop_ready_def f log_fits_def in_log_def)
qed




end
