(* ===== verification/Fs.thy ===== *)
theory Fs
  imports Log
begin

section \<open>Inodes and their contents: fs.c\<close>

text \<open>
  The block allocator, the inode cache and file contents. An inode pointer is the index of
  its entry in \<open>icache\<close>. What \<open>readi\<close> copies to \<open>dst\<close> is part of its result, a pair of the
  returned number and the bytes; \<open>writei\<close> is given the bytes at \<open>src\<close>. The C loops are
  recursive functions over what is left of their range. The only device with an entry in
  \<open>devsw\<close> is the console.
\<close>

abbreviation "BPB \<equiv> 4096 :: nat"
abbreviation "IPB \<equiv> 8 :: nat"
abbreviation "NINODE \<equiv> 50 :: nat"
abbreviation "NDIRECT \<equiv> 12 :: nat"
abbreviation "NINDIRECT \<equiv> 128 :: nat"
abbreviation "MAXFILE \<equiv> 140 :: nat"
abbreviation "T_DIR \<equiv> 1 :: u16"
abbreviation "T_FILE \<equiv> 2 :: u16"
abbreviation "T_DEV \<equiv> 3 :: u16"

definition BBLOCK :: "nat \<Rightarrow> superblock \<Rightarrow> u32" where
  "BBLOCK b sb0 = of_nat (b div BPB) + sb_bmapstart sb0"

definition IBLOCK :: "u32 \<Rightarrow> superblock \<Rightarrow> u32" where
  "IBLOCK i sb0 = i div 8 + sb_inodestart sb0"

subsection \<open>Blocks\<close>

definition bzero :: "u32 \<Rightarrow> u32 \<Rightarrow> fsys \<Rightarrow> (unit, fsys) res" where
  "bzero dev bno s =
     bindr (bread dev bno s) (\<lambda>bp s1.
     bindr (log_write bp (set_data bp (replicate BSIZE 0) s1)) (\<lambda>_ s2. brelse bp s2))"

definition bit_free :: "block \<Rightarrow> nat \<Rightarrow> bool" where
  "bit_free d bi \<longleftrightarrow> (d ! (bi div 8)) AND push_bit (bi mod 8) 1 = 0"

definition mark_used :: "block \<Rightarrow> nat \<Rightarrow> block" where
  "mark_used d bi = d[bi div 8 := (d ! (bi div 8)) OR push_bit (bi mod 8) 1]"

definition mark_free :: "block \<Rightarrow> nat \<Rightarrow> block" where
  "mark_free d bi = d[bi div 8 := (d ! (bi div 8)) AND NOT (push_bit (bi mod 8) 1)]"

function balloc_loop :: "u32 \<Rightarrow> nat \<Rightarrow> nat \<Rightarrow> fsys \<Rightarrow> (u32, fsys) res" where
  "balloc_loop dev sz b s =
     (if b < sz then
        bindr (bread dev (BBLOCK b (sb s)) s) (\<lambda>bp s1.
          let d = b_data (bufat bp s1)
          in case find (bit_free d) [0..<min BPB (sz - b)] of
               Some bi \<Rightarrow>
                 bindr (log_write bp (set_data bp (mark_used d bi) s1)) (\<lambda>_ s2.
                 bindr (brelse bp s2) (\<lambda>_ s3.
                 bindr (bzero dev (of_nat (b + bi)) s3) (\<lambda>_ s4. Ret (of_nat (b + bi)) s4)))
             | None \<Rightarrow> bindr (brelse bp s1) (\<lambda>_ s2. balloc_loop dev sz (b + BPB) s2))
      else Panic ''balloc: out of blocks'')"
  by pat_completeness auto
termination by (relation "measure (\<lambda>(dev, sz, b, s). sz - b)") auto

declare balloc_loop.simps [simp del]

definition balloc :: "u32 \<Rightarrow> fsys \<Rightarrow> (u32, fsys) res" where
  "balloc dev s = balloc_loop dev (unat (sb_size (sb s))) 0 s"

definition bfree :: "u32 \<Rightarrow> u32 \<Rightarrow> fsys \<Rightarrow> (unit, fsys) res" where
  "bfree dev b s =
     bindr (bread dev (BBLOCK (unat b) (sb s)) s) (\<lambda>bp s1.
       let d = b_data (bufat bp s1); bi = unat b mod BPB
       in if bit_free d bi then Panic ''freeing free block''
          else bindr (log_write bp (set_data bp (mark_free d bi) s1)) (\<lambda>_ s2. brelse bp s2))"

subsection \<open>On-disk inodes\<close>

definition get_dinode :: "block \<Rightarrow> nat \<Rightarrow> dinode" where
  "get_dinode d o' = \<lparr>di_type = rd16 d o', di_major = rd16 d (o' + 2), di_minor = rd16 d (o' + 4),
     di_nlink = rd16 d (o' + 6), di_size = rd32 d (o' + 8),
     di_addrs = map (\<lambda>i. rd32 d (o' + 12 + 4 * i)) [0..<NDIRECT + 1]\<rparr>"

definition put_dinode :: "nat \<Rightarrow> dinode \<Rightarrow> block \<Rightarrow> block" where
  "put_dinode o' di d =
     put_words (o' + 12) (di_addrs di)
       (wr32 (o' + 8) (di_size di) (wr16 (o' + 6) (di_nlink di) (wr16 (o' + 4) (di_minor di)
         (wr16 (o' + 2) (di_major di) (wr16 o' (di_type di) d)))))"

definition dinode_off :: "u32 \<Rightarrow> nat" where
  "dinode_off inum = 64 * (unat inum mod IPB)"

subsection \<open>The inode cache\<close>

definition iat :: "nat \<Rightarrow> fsys \<Rightarrow> inode" where
  "iat i s = icache s ! i"

definition set_inode :: "nat \<Rightarrow> inode \<Rightarrow> fsys \<Rightarrow> fsys" where
  "set_inode i ip s = s\<lparr>icache := (icache s)[i := ip]\<rparr>"

definition on_cons :: "(console \<Rightarrow> (unit, console) res) \<Rightarrow> fsys \<Rightarrow> (unit, fsys) res" where
  "on_cons f s =
     (case f (cons s) of
        Ret x c \<Rightarrow> Ret () (s\<lparr>cons := c\<rparr>) | Sleeps c \<Rightarrow> Sleeps (s\<lparr>cons := c\<rparr>)
      | Panic m \<Rightarrow> Panic m | Diverge \<Rightarrow> Diverge)"

definition sb_line :: "superblock \<Rightarrow> int list" where
  "sb_line b =
     map of_char ''sb: size '' @ printint (sb_size b) 10 True @
     map of_char '' nblocks '' @ printint (sb_nblocks b) 10 True @
     map of_char '' ninodes '' @ printint (sb_ninodes b) 10 True @
     map of_char '' nlog '' @ printint (sb_nlog b) 10 True @
     map of_char '' logstart '' @ printint (sb_logstart b) 10 True @
     map of_char '' inodestart '' @ printint (sb_inodestart b) 10 True @
     map of_char '' bmap start '' @ printint (sb_bmapstart b) 10 True @ [10]"

definition iinit :: "u32 \<Rightarrow> fsys \<Rightarrow> (unit, fsys) res" where
  "iinit dev s =
     bindr (readsb dev (s\<lparr>icache := map (\<lambda>ip. ip\<lparr>i_lock := initsleeplock ''inode''\<rparr>) (icache s)\<rparr>)) (\<lambda>sb0 s1.
       on_cons (consputs (sb_line sb0)) (s1\<lparr>sb := sb0\<rparr>))"

definition iget :: "u32 \<Rightarrow> u32 \<Rightarrow> fsys \<Rightarrow> (nat, fsys) res" where
  "iget dev inum s =
     (case find (\<lambda>i. i_ref (iat i s) > 0 \<and> i_dev (iat i s) = dev \<and> i_inum (iat i s) = inum) [0..<NINODE] of
        Some i \<Rightarrow> Ret i (set_inode i ((iat i s)\<lparr>i_ref := i_ref (iat i s) + 1\<rparr>) s)
      | None \<Rightarrow>
          (case find (\<lambda>i. i_ref (iat i s) = 0) [0..<NINODE] of
             None \<Rightarrow> Panic ''iget: no inodes''
           | Some i \<Rightarrow> Ret i (set_inode i ((iat i s)\<lparr>i_dev := dev, i_inum := inum, i_ref := 1, i_valid := False\<rparr>) s)))"

fun ialloc_loop :: "u32 \<Rightarrow> u16 \<Rightarrow> nat list \<Rightarrow> fsys \<Rightarrow> (nat, fsys) res" where
  "ialloc_loop dev ty [] s = Panic ''ialloc: no inodes''"
| "ialloc_loop dev ty (n # ns) s =
     (let inum = of_nat n
      in bindr (bread dev (IBLOCK inum (sb s)) s) (\<lambda>bp s1.
           let d = b_data (bufat bp s1); o' = dinode_off inum
           in if rd16 d o' = 0 then
                bindr (log_write bp (set_data bp (wr16 o' ty (put_bytes o' (replicate 64 0) d)) s1)) (\<lambda>_ s2.
                bindr (brelse bp s2) (\<lambda>_ s3. iget dev inum s3))
              else bindr (brelse bp s1) (\<lambda>_ s2. ialloc_loop dev ty ns s2)))"

definition ialloc :: "u32 \<Rightarrow> u16 \<Rightarrow> fsys \<Rightarrow> (nat, fsys) res" where
  "ialloc dev ty s = ialloc_loop dev ty [1..<unat (sb_ninodes (sb s))] s"

definition iupdate :: "nat \<Rightarrow> fsys \<Rightarrow> (unit, fsys) res" where
  "iupdate ip s =
     bindr (bread (i_dev (iat ip s)) (IBLOCK (i_inum (iat ip s)) (sb s)) s) (\<lambda>bp s1.
       let d = put_dinode (dinode_off (i_inum (iat ip s1))) (i_d (iat ip s1)) (b_data (bufat bp s1))
       in bindr (log_write bp (set_data bp d s1)) (\<lambda>_ s2. brelse bp s2))"

definition idup :: "nat \<Rightarrow> fsys \<Rightarrow> (nat, fsys) res" where
  "idup ip s = Ret ip (set_inode ip ((iat ip s)\<lparr>i_ref := i_ref (iat ip s) + 1\<rparr>) s)"

definition ilock :: "nat \<Rightarrow> fsys \<Rightarrow> (unit, fsys) res" where
  "ilock ip s =
     (if i_ref (iat ip s) < 1 then Panic ''ilock''
      else case acquiresleep (curpid s) (i_lock (iat ip s)) of
        None \<Rightarrow> Sleeps s
      | Some lk \<Rightarrow>
          let s1 = set_inode ip ((iat ip s)\<lparr>i_lock := lk\<rparr>) s
          in if i_valid (iat ip s1) then Ret () s1
             else bindr (bread (i_dev (iat ip s1)) (IBLOCK (i_inum (iat ip s1)) (sb s1)) s1) (\<lambda>bp s2.
                    let di = get_dinode (b_data (bufat bp s2)) (dinode_off (i_inum (iat ip s2)))
                    in bindr (brelse bp (set_inode ip ((iat ip s2)\<lparr>i_d := di\<rparr>) s2)) (\<lambda>_ s3.
                         let s4 = set_inode ip ((iat ip s3)\<lparr>i_valid := True\<rparr>) s3
                         in if di_type (i_d (iat ip s4)) = 0 then Panic ''ilock: no type'' else Ret () s4)))"

definition iunlock :: "nat \<Rightarrow> fsys \<Rightarrow> (unit, fsys) res" where
  "iunlock ip s =
     (if \<not> holdingsleep (curpid s) (i_lock (iat ip s)) \<or> i_ref (iat ip s) < 1 then Panic ''iunlock''
      else Ret () (set_inode ip ((iat ip s)\<lparr>i_lock := releasesleep (i_lock (iat ip s))\<rparr>) s))"

subsection \<open>Contents\<close>

definition set_addr :: "nat \<Rightarrow> nat \<Rightarrow> u32 \<Rightarrow> fsys \<Rightarrow> fsys" where
  "set_addr ip bn a s =
     (let di = i_d (iat ip s)
      in set_inode ip ((iat ip s)\<lparr>i_d := di\<lparr>di_addrs := (di_addrs di)[bn := a]\<rparr>\<rparr>) s)"

definition addr_at :: "nat \<Rightarrow> nat \<Rightarrow> fsys \<Rightarrow> u32" where
  "addr_at ip bn s = di_addrs (i_d (iat ip s)) ! bn"

text \<open>\<open>ip->addrs[bn]\<close>, allocated first if it is 0.\<close>

definition direct_block :: "nat \<Rightarrow> nat \<Rightarrow> fsys \<Rightarrow> (u32, fsys) res" where
  "direct_block ip bn s =
     (if addr_at ip bn s = 0
      then bindr (balloc (i_dev (iat ip s)) s) (\<lambda>a s1. Ret a (set_addr ip bn a s1))
      else Ret (addr_at ip bn s) s)"

definition bmap :: "nat \<Rightarrow> nat \<Rightarrow> fsys \<Rightarrow> (u32, fsys) res" where
  "bmap ip bn s =
     (if bn < NDIRECT then direct_block ip bn s
      else let bn1 = bn - NDIRECT
      in if bn1 < NINDIRECT then
           bindr (direct_block ip NDIRECT s) (\<lambda>addr s1.
           bindr (bread (i_dev (iat ip s1)) addr s1) (\<lambda>bp s2.
             let a = rd32 (b_data (bufat bp s2)) (4 * bn1)
             in if a = 0 then
                  bindr (balloc (i_dev (iat ip s2)) s2) (\<lambda>a1 s3.
                  bindr (log_write bp (set_data bp (wr32 (4 * bn1) a1 (b_data (bufat bp s3))) s3)) (\<lambda>_ s4.
                  bindr (brelse bp s4) (\<lambda>_ s5. Ret a1 s5)))
                else bindr (brelse bp s2) (\<lambda>_ s3. Ret a s3)))
         else Panic ''bmap: out of range'')"

fun itrunc_direct :: "nat \<Rightarrow> nat list \<Rightarrow> fsys \<Rightarrow> (unit, fsys) res" where
  "itrunc_direct ip [] s = Ret () s"
| "itrunc_direct ip (i # is) s =
     (if addr_at ip i s \<noteq> 0
      then bindr (bfree (i_dev (iat ip s)) (addr_at ip i s) s) (\<lambda>_ s1. itrunc_direct ip is (set_addr ip i 0 s1))
      else itrunc_direct ip is s)"

fun itrunc_indirect :: "nat \<Rightarrow> nat \<Rightarrow> nat list \<Rightarrow> fsys \<Rightarrow> (unit, fsys) res" where
  "itrunc_indirect ip bp [] s = Ret () s"
| "itrunc_indirect ip bp (j # js) s =
     (let a = rd32 (b_data (bufat bp s)) (4 * j)
      in if a \<noteq> 0 then bindr (bfree (i_dev (iat ip s)) a s) (\<lambda>_ s1. itrunc_indirect ip bp js s1)
         else itrunc_indirect ip bp js s)"

definition itrunc :: "nat \<Rightarrow> fsys \<Rightarrow> (unit, fsys) res" where
  "itrunc ip s =
     bindr (itrunc_direct ip [0..<NDIRECT] s) (\<lambda>_ s1.
     bindr (if addr_at ip NDIRECT s1 \<noteq> 0 then
              bindr (bread (i_dev (iat ip s1)) (addr_at ip NDIRECT s1) s1) (\<lambda>bp s2.
              bindr (itrunc_indirect ip bp [0..<NINDIRECT] s2) (\<lambda>_ s3.
              bindr (brelse bp s3) (\<lambda>_ s4.
              bindr (bfree (i_dev (iat ip s4)) (addr_at ip NDIRECT s4) s4) (\<lambda>_ s5.
              Ret () (set_addr ip NDIRECT 0 s5)))))
            else Ret () s1) (\<lambda>_ s6.
     iupdate ip (set_inode ip ((iat ip s6)\<lparr>i_d := (i_d (iat ip s6))\<lparr>di_size := 0\<rparr>\<rparr>) s6)))"

definition iput :: "nat \<Rightarrow> fsys \<Rightarrow> (unit, fsys) res" where
  "iput ip s =
     (case acquiresleep (curpid s) (i_lock (iat ip s)) of
        None \<Rightarrow> Sleeps s
      | Some lk \<Rightarrow>
          let s1 = set_inode ip ((iat ip s)\<lparr>i_lock := lk\<rparr>) s
          in bindr (if i_valid (iat ip s1) \<and> di_nlink (i_d (iat ip s1)) = 0 \<and> i_ref (iat ip s1) = 1 then
                      bindr (itrunc ip s1) (\<lambda>_ s2.
                      bindr (iupdate ip (set_inode ip ((iat ip s2)\<lparr>i_d := (i_d (iat ip s2))\<lparr>di_type := 0\<rparr>\<rparr>) s2)) (\<lambda>_ s3.
                      Ret () (set_inode ip ((iat ip s3)\<lparr>i_valid := False\<rparr>) s3)))
                    else Ret () s1) (\<lambda>_ s4.
             Ret () (set_inode ip ((iat ip s4)\<lparr>i_lock := releasesleep (i_lock (iat ip s4)),
                                             i_ref := i_ref (iat ip s4) - 1\<rparr>) s4)))"

definition iunlockput :: "nat \<Rightarrow> fsys \<Rightarrow> (unit, fsys) res" where
  "iunlockput ip s = bindr (iunlock ip s) (\<lambda>_ s1. iput ip s1)"

record stat =
  st_type :: u16
  st_dev :: u32
  st_ino :: u32
  st_nlink :: u16
  st_size :: u32

definition stati :: "nat \<Rightarrow> fsys \<Rightarrow> stat" where
  "stati ip s = \<lparr>st_type = di_type (i_d (iat ip s)), st_dev = i_dev (iat ip s), st_ino = i_inum (iat ip s),
     st_nlink = di_nlink (i_d (iat ip s)), st_size = di_size (i_d (iat ip s))\<rparr>"

subsection \<open>Console devices\<close>

definition consoleread :: "nat \<Rightarrow> int \<Rightarrow> fsys \<Rightarrow> (int \<times> u8 list, fsys) res" where
  "consoleread ip n s =
     bindr (iunlock ip s) (\<lambda>_ s1.
       case consoleread_loop (curkilled s1) (nat n) (nat n) [] (cons s1) of
         Ret r (acc, c) \<Rightarrow>
           bindr (ilock ip (s1\<lparr>cons := c\<rparr>)) (\<lambda>_ s2.
             Ret (case r of None \<Rightarrow> (-1, acc) | Some _ \<Rightarrow> (int (length acc), acc)) s2)
       | Sleeps (acc, c) \<Rightarrow> Sleeps (s1\<lparr>cons := c\<rparr>)
       | Panic m \<Rightarrow> Panic m
       | Diverge \<Rightarrow> Diverge)"

definition consolewrite :: "nat \<Rightarrow> u8 list \<Rightarrow> fsys \<Rightarrow> (int, fsys) res" where
  "consolewrite ip bs s =
     bindr (iunlock ip s) (\<lambda>_ s1.
     bindr (on_cons (consputs (map uint bs)) s1) (\<lambda>_ s2.
     bindr (ilock ip s2) (\<lambda>_ s3. Ret (int (length bs)) s3)))"

definition dev_present :: "u16 \<Rightarrow> fsys \<Rightarrow> bool" where
  "dev_present major s \<longleftrightarrow> \<not> (sint major < 0 \<or> sint major \<ge> 10) \<and> major = 1 \<and> devsw_console (cons s)"

subsection \<open>Reading and writing\<close>

function readi_loop :: "nat \<Rightarrow> nat \<Rightarrow> nat \<Rightarrow> u8 list \<Rightarrow> fsys \<Rightarrow> (u8 list, fsys) res" where
  "readi_loop ip off n acc s =
     (if n = 0 then Ret acc s
      else bindr (bmap ip (off div BSIZE) s) (\<lambda>addr s1.
           bindr (bread (i_dev (iat ip s1)) addr s1) (\<lambda>bp s2.
             let m = min n (BSIZE - off mod BSIZE);
                 chunk = get_bytes (off mod BSIZE) m (b_data (bufat bp s2))
             in bindr (brelse bp s2) (\<lambda>_ s3. readi_loop ip (off + m) (n - m) (acc @ chunk) s3))))"
  by pat_completeness auto
termination
  by (relation "measure (\<lambda>(ip, off, n, acc, s). n)") auto

function writei_loop :: "nat \<Rightarrow> nat \<Rightarrow> u8 list \<Rightarrow> fsys \<Rightarrow> (unit, fsys) res" where
  "writei_loop ip off src s =
     (if src = [] then Ret () s
      else bindr (bmap ip (off div BSIZE) s) (\<lambda>addr s1.
           bindr (bread (i_dev (iat ip s1)) addr s1) (\<lambda>bp s2.
             let m = min (length src) (BSIZE - off mod BSIZE);
                 d = put_bytes (off mod BSIZE) (take m src) (b_data (bufat bp s2))
             in bindr (log_write bp (set_data bp d s2)) (\<lambda>_ s3.
                bindr (brelse bp s3) (\<lambda>_ s4. writei_loop ip (off + m) (drop m src) s4)))))"
  by pat_completeness auto
termination
  by (relation "measure (\<lambda>(ip, off, src, s). length src)") auto

declare readi_loop.simps [simp del] writei_loop.simps [simp del]

definition readi :: "nat \<Rightarrow> u32 \<Rightarrow> u32 \<Rightarrow> fsys \<Rightarrow> (int \<times> u8 list, fsys) res" where
  "readi ip off n s =
     (let di = i_d (iat ip s)
      in if di_type di = T_DEV then
           (if \<not> dev_present (di_major di) s then Ret (-1, []) s else consoleread ip (sint n) s)
         else if off > di_size di \<or> off + n < off then Ret (-1, []) s
         else let n1 = (if off + n > di_size di then di_size di - off else n)
              in bindr (readi_loop ip (unat off) (unat n1) [] s) (\<lambda>bs s1. Ret (sint n1, bs) s1))"

definition writei :: "nat \<Rightarrow> u8 list \<Rightarrow> u32 \<Rightarrow> fsys \<Rightarrow> (int, fsys) res" where
  "writei ip src off s =
     (let di = i_d (iat ip s); n = of_nat (length src)
      in if di_type di = T_DEV then
           (if \<not> dev_present (di_major di) s then Ret (-1) s else consolewrite ip src s)
         else if off > di_size di \<or> off + n < off then Ret (-1) s
         else if off + n > of_nat (MAXFILE * BSIZE) then Ret (-1) s
         else bindr (writei_loop ip (unat off) src s) (\<lambda>_ s1.
                if n > 0 \<and> off + n > di_size (i_d (iat ip s1)) then
                  bindr (iupdate ip (set_inode ip ((iat ip s1)\<lparr>i_d := (i_d (iat ip s1))\<lparr>di_size := off + n\<rparr>\<rparr>) s1))
                    (\<lambda>_ s2. Ret (sint n) s2)
                else Ret (sint n) s1))"

end
