(* ===== verification/Fs_Trans.thy ===== *)
theory Fs_Trans
  imports Fs
begin

section \<open>Block updates inside a transaction\<close>

text \<open>
  \<open>tx H n s\<close>: a transaction is open in \<open>s\<close>, the buffers \<open>H\<close> are held by the current process and
  the log has room for \<open>n\<close> more blocks. The lemmas reduce the pattern of fs.c (\<open>bread\<close>, change
  the bytes, \<open>log_write\<close>, \<open>brelse\<close>) to a change of the block as the file system sees it. Apart
  from the cache and the list of logged blocks nothing changes, the disk included: updates
  reach it only at the commit.
\<close>

definition tx :: "nat set \<Rightarrow> nat \<Rightarrow> fsys \<Rightarrow> bool" where
  "tx H n s \<longleftrightarrow> bc_inv s H \<and> havedisk1 s \<and> log_outstanding s \<ge> 1 \<and> log_size s \<ge> 30 \<and>
     dirty_keys s \<subseteq> Pair 1 ` set (log_lh s) \<and> distinct (log_lh s) \<and>
     length (log_lh s) + n \<le> 29 \<and> length (log_lh s) + n + card H \<le> 30"

definition fs_core :: "fsys \<Rightarrow> fsys" where
  "fs_core s = s\<lparr>bufs := [], lru := [], log_lh := []\<rparr>"

lemma fs_core_simps [simp]:
  "fs_core (set_buf i b s) = fs_core s" "fs_core (s\<lparr>log_lh := l\<rparr>) = fs_core s"
  by (simp_all add: fs_core_def set_buf_def)

lemma fs_core_fields:
  assumes "fs_core t = fs_core s"
  shows "disk t = disk s" "dwrites t = dwrites s" "sb t = sb s" "icache t = icache s" "cons t = cons s"
    "curpid t = curpid s" "log_outstanding t = log_outstanding s" "log_size t = log_size s"
    "havedisk1 t = havedisk1 s" "curkilled t = curkilled s" "iat ip t = iat ip s"
  using arg_cong [OF assms, of disk] arg_cong [OF assms, of dwrites] arg_cong [OF assms, of sb]
    arg_cong [OF assms, of icache] arg_cong [OF assms, of cons] arg_cong [OF assms, of curpid]
    arg_cong [OF assms, of log_outstanding] arg_cong [OF assms, of log_size]
    arg_cong [OF assms, of havedisk1] arg_cong [OF assms, of curkilled]
  by (simp_all add: fs_core_def iat_def)

lemma fs_core_rest:
  assumes "fs_rest t = fs_rest s" "disk t = disk s" "dwrites t = dwrites s"
  shows "fs_core t = fs_core s" "log_lh t = log_lh s"
proof -
  have "(fs_rest t)\<lparr>disk := disk t, dwrites := dwrites t, log_lh := []\<rparr> =
      (fs_rest s)\<lparr>disk := disk s, dwrites := dwrites s, log_lh := []\<rparr>" using assms by simp
  then show "fs_core t = fs_core s" by (simp add: fs_rest_def fs_core_def)
  show "log_lh t = log_lh s" using fs_rest_fields(7) [OF assms(1)] .
qed

lemma tx_mono: "tx H n s \<Longrightarrow> m \<le> n \<Longrightarrow> tx H m s"
  by (auto simp: tx_def)

lemma tx_dirty:
  assumes "tx H n s" shows "finite (dirty_keys s)" "card (dirty_keys s) \<le> length (log_lh s)"
proof -
  have sub: "dirty_keys s \<subseteq> Pair 1 ` set (log_lh s)" using assms by (simp add: tx_def)
  show "finite (dirty_keys s)" using finite_subset [OF sub] by simp
  have "card (dirty_keys s) \<le> card (Pair (1::u32) ` set (log_lh s))" using sub by (intro card_mono) simp_all
  also have "\<dots> \<le> card (set (log_lh s))" by (intro card_image_le) simp
  also have "\<dots> \<le> length (log_lh s)" by (rule card_length)
  finally show "card (dirty_keys s) \<le> length (log_lh s)" .
qed

lemma tx_room:
  assumes "tx H n s" "length (log_lh s) + card H < 30"
  shows "card (insert k (busy s H)) \<le> NBUF"
proof -
  have inv: "bc_inv s H" using assms(1) by (simp add: tx_def)
  have fin: "finite H" using bc_invD(4) [OF inv] by (meson finite_lessThan finite_subset lessThan_iff subsetI)
  have "card (busy s H) \<le> card (dirty_keys s) + card ((\<lambda>i. bkey_of (bufat i s)) ` H)"
    unfolding busy_def by (rule card_Un_le)
  also have "\<dots> \<le> length (log_lh s) + card H"
    using tx_dirty(2) [OF assms(1)] card_image_le [OF fin] by (intro add_mono) auto
  finally have "card (busy s H) < 30" using assms(2) by simp
  moreover have "finite (busy s H)" using inv by simp
  ultimately show ?thesis by (simp add: card_insert_if)
qed

subsection \<open>Reading\<close>

lemma tx_bread:
  assumes tx: "tx H n s" and room: "length (log_lh s) + n + card H < 30" and bn: "bn < FSSIZE"
    and nh: "\<And>i. i \<in> H \<Longrightarrow> bkey_of (bufat i s) \<noteq> (1, bn)"
  obtains i t where "bread 1 bn s = Ret i t" "i \<notin> H" "tx (insert i H) n t" "bkey_of (bufat i t) = (1, bn)"
    "b_data (bufat i t) = view s (1, bn)" "view t = view s" "fs_core t = fs_core s" "log_lh t = log_lh s"
    "\<forall>j. j \<noteq> i \<longrightarrow> bufat j t = bufat j s"
    "b_dirty (bufat i t) \<or> b_data (bufat i t) = disk t (1, bn)"
proof -
  have inv: "bc_inv s H" and hd: "havedisk1 s" using tx by (simp_all add: tx_def)
  have rm: "card (insert (1, bn) (busy s H)) \<le> NBUF" using tx room by (intro tx_room) auto
  obtain i t where b: "bread 1 bn s = Ret i t" "bread_post (1, bn) s H i t"
    using bread_ok [OF inv nh rm hd bn] by blast
  note P = b(2) [unfolded bread_post_def]
  have core: "fs_core t = fs_core s" "log_lh t = log_lh s" using P fs_core_rest [of t s] by auto
  note F = fs_core_fields [OF core(1)]
  have fin: "finite H" using bc_invD(4) [OF inv] by (meson finite_lessThan finite_subset lessThan_iff subsetI)
  have tx': "tx (insert i H) n t"
    using P tx room fin by (simp add: tx_def F core(2) card_insert_if)
  have "view s (1, bn) = disk s (1, bn)" if "\<not> b_dirty (bufat i t)"
    using P that nh by (intro view_clean [OF inv]) auto
  then have "b_dirty (bufat i t) \<or> b_data (bufat i t) = disk t (1, bn)" using P F(1) by auto
  then show thesis using that [OF b(1) _ tx' _ _ _ core] P by auto
qed

lemma tx_brelse:
  assumes tx: "tx H n s" and i: "i \<in> H"
    and sync: "b_dirty (bufat i s) \<or> b_data (bufat i s) = disk s (bkey_of (bufat i s))"
  obtains t where "brelse i s = Ret () t" "tx (H - {i}) n t" "view t = view s" "fs_core t = fs_core s"
    "log_lh t = log_lh s" "\<forall>j. j \<noteq> i \<longrightarrow> bufat j t = bufat j s"
proof -
  have inv: "bc_inv s H" using tx by (simp add: tx_def)
  from brelse_ok [OF inv i sync] obtain t where t: "brelse i s = Ret () t" "bc_inv t (H - {i})"
    "view t = view s" "disk t = disk s" "dwrites t = dwrites s" "fs_rest t = fs_rest s"
    "dirty_keys t = dirty_keys s" "\<forall>j. j \<noteq> i \<longrightarrow> bufat j t = bufat j s" by blast
  note core = fs_core_rest [OF t(6,4,5)]
  note F = fs_core_fields [OF core(1)]
  have "card (H - {i}) \<le> card H" by (simp add: card_Diff1_le)
  then have "tx (H - {i}) n t" using tx t by (simp add: tx_def F core(2))
  then show thesis using that t core by blast
qed

lemma tx_set_data:
  assumes tx: "tx H n s" and i: "i \<in> H"
  shows "tx H n (set_data i d s)" "view (set_data i d s) = (view s)(bkey_of (bufat i s) := d)"
    "fs_core (set_data i d s) = fs_core s" "log_lh (set_data i d s) = log_lh s"
    "bufat j (set_data i d s) = (if j = i then (bufat i s)\<lparr>b_data := d\<rparr> else bufat j s)"
proof -
  have inv: "bc_inv s H" using tx by (simp add: tx_def)
  note S = set_data_ok [OF inv i, where d = d]
  show v: "view (set_data i d s) = (view s)(bkey_of (bufat i s) := d)" by (rule S(2))
  show core: "fs_core (set_data i d s) = fs_core s" "log_lh (set_data i d s) = log_lh s"
    using fs_core_rest [OF S(5,3,4)] by auto
  show "tx H n (set_data i d s)"
    using tx S(1,6) by (simp add: tx_def fs_core_fields [OF core(1)] core(2))
  show "bufat j (set_data i d s) = (if j = i then (bufat i s)\<lparr>b_data := d\<rparr> else bufat j s)" by (rule S(7))
qed

subsection \<open>Logging\<close>

lemma bc_inv_log_lh [simp]: "bc_inv (s\<lparr>log_lh := l\<rparr>) H = bc_inv s H" "view (s\<lparr>log_lh := l\<rparr>) = view s"
  "bufat j (s\<lparr>log_lh := l\<rparr>) = bufat j s" "dirty_keys (s\<lparr>log_lh := l\<rparr>) = dirty_keys s"
proof -
  show b: "bufat j (s\<lparr>log_lh := l\<rparr>) = bufat j s" for j by (simp add: bufat_def)
  show "bc_inv (s\<lparr>log_lh := l\<rparr>) H = bc_inv s H" by (simp add: bc_inv_def b)
  show "view (s\<lparr>log_lh := l\<rparr>) = view s" by (auto simp: view_def b fun_eq_iff split: option.splits)
  show "dirty_keys (s\<lparr>log_lh := l\<rparr>) = dirty_keys s" by (simp add: dirty_keys_def dirty_bufs_def b)
qed

lemma pin_ok:
  assumes inv: "bc_inv s H" and i: "i \<in> H"
  defines "t \<equiv> set_buf i ((bufat i s)\<lparr>b_dirty := True\<rparr>) s"
  shows "bc_inv t H" "view t = view s" "dirty_keys t = insert (bkey_of (bufat i s)) (dirty_keys s)"
    "bufat j t = (if j = i then (bufat i s)\<lparr>b_dirty := True\<rparr> else bufat j s)"
proof -
  note D = bc_invD [OF inv]
  have i': "i < NBUF" using D(4) i by simp
  have h: "slocked (b_lock (bufat i s))" "spid (b_lock (bufat i s)) = curpid s" "b_refcnt (bufat i s) = 1"
      "b_valid (bufat i s)" using D(5) [OF i' i] by simp_all
  have dev: "b_dev (bufat i s) = 1" using D(8) [OF i'] h by simp
  let ?b = "(bufat i s)\<lparr>b_dirty := True\<rparr>"
  have s: "s\<lparr>disk := disk s, dwrites := dwrites s\<rparr> = s" by simp
  have inv': "bc_inv (set_buf i ?b (s\<lparr>disk := disk s, dwrites := dwrites s\<rparr>)) H"
    by (rule bc_inv_update [OF inv i', of _ True])
       (use h i dev key_distinct [OF inv i' _ _ h(4)] in auto)
  then show "bc_inv t H" by (simp add: t_def)
  have "view t = (view s)(bkey_of (bufat i s) := b_data (bufat i s))"
    using view_set_buf [OF inv inv' i'] h by (simp add: t_def)
  then show "view t = view s" using view_hit [OF inv i' h(4)] by (simp add: fun_upd_idem_iff)
  show at: "bufat j t = (if j = i then ?b else bufat j s)" for j using D(1) i' by (simp add: t_def)
  have "dirty_bufs t = insert i (dirty_bufs s)" using i' by (auto simp: dirty_bufs_def at)
  then show "dirty_keys t = insert (bkey_of (bufat i s)) (dirty_keys s)"
    by (auto simp: dirty_keys_def at image_iff)
qed

lemma tx_log_write:
  assumes tx: "tx H (Suc n) s" and i: "i \<in> H"
  obtains t where "log_write i s = Ret () t" "tx H n t" "view t = view s" "fs_core t = fs_core s"
    "\<forall>j. bufat j t = (if j = i then (bufat i s)\<lparr>b_dirty := True\<rparr> else bufat j s)"
    "set (log_lh t) = insert (b_blockno (bufat i s)) (set (log_lh s))"
    "length (log_lh t) \<le> Suc (length (log_lh s))"
proof -
  have inv: "bc_inv s H" using tx by (simp add: tx_def)
  have i': "i < NBUF" using bc_invD(4) [OF inv] i by simp
  have dev: "b_dev (bufat i s) = 1" using bc_invD(5,8) [OF inv i'] i by simp
  note P = pin_ok [OF inv i]
  let ?bn = "b_blockno (bufat i s)"
  let ?lh = "if ?bn \<in> set (log_lh s) then log_lh s else log_lh s @ [?bn]"
  let ?t = "set_buf i ((bufat i s)\<lparr>b_dirty := True\<rparr>) (s\<lparr>log_lh := ?lh\<rparr>)"
  have t: "?t = (set_buf i ((bufat i s)\<lparr>b_dirty := True\<rparr>) s)\<lparr>log_lh := ?lh\<rparr>" by (simp add: set_buf_def)
  have lw: "log_write i s = Ret () ?t"
    using tx by (auto simp: log_write_def tx_def Let_def)
  have core: "fs_core ?t = fs_core s" by simp
  have lh: "log_lh ?t = ?lh" by (simp add: set_buf_def)
  have key: "bkey_of (bufat i s) = (1, ?bn)" using dev by (simp add: bkey_of_def)
  have dk: "dirty_keys ?t \<subseteq> Pair 1 ` set ?lh"
    using tx unfolding t by (auto simp: P(3) key tx_def)
  have "tx H n ?t"
    using tx dk P(1) unfolding tx_def fs_core_fields [OF core] lh by (auto simp: t)
  moreover have "view ?t = view s" unfolding t by (simp add: P(2))
  moreover have "\<forall>j. bufat j ?t = (if j = i then (bufat i s)\<lparr>b_dirty := True\<rparr> else bufat j s)"
    unfolding t by (simp add: P(4))
  moreover have "set (log_lh ?t) = insert ?bn (set (log_lh s))" "length (log_lh ?t) \<le> Suc (length (log_lh s))"
    by (auto simp: lh)
  ultimately show thesis by (rule that [OF lw _ _ core])
qed

text \<open>
  A whole update: after it the block is \<open>d\<close>, nothing else is seen to change, and the buffer is
  released again.
\<close>

lemma tx_update:
  assumes tx: "tx H (Suc n) s" and i: "i \<in> H" and k: "bkey_of (bufat i s) = (1, bn)"
  obtains s2 t where "log_write i (set_data i d s) = Ret () s2" "brelse i s2 = Ret () t" "tx (H - {i}) n t"
    "view t = (view s)((1, bn) := d)" "fs_core t = fs_core s" "\<forall>j. j \<noteq> i \<longrightarrow> bufat j t = bufat j s"
    "set (log_lh t) = insert bn (set (log_lh s))" "length (log_lh t) \<le> Suc (length (log_lh s))"
proof -
  note S = tx_set_data [OF tx i, where d = d]
  from tx_log_write [OF S(1) i] obtain s2 where w: "log_write i (set_data i d s) = Ret () s2" "tx H n s2"
    "view s2 = view (set_data i d s)" "fs_core s2 = fs_core (set_data i d s)"
    "\<forall>j. bufat j s2 = (if j = i then (bufat i (set_data i d s))\<lparr>b_dirty := True\<rparr> else bufat j (set_data i d s))"
    "set (log_lh s2) = insert (b_blockno (bufat i (set_data i d s))) (set (log_lh (set_data i d s)))"
    "length (log_lh s2) \<le> Suc (length (log_lh (set_data i d s)))" by blast
  have "b_dirty (bufat i s2)" by (simp add: w(5))
  then obtain t where r: "brelse i s2 = Ret () t" "tx (H - {i}) n t" "view t = view s2" "fs_core t = fs_core s2"
    "log_lh t = log_lh s2" "\<forall>j. j \<noteq> i \<longrightarrow> bufat j t = bufat j s2"
    using tx_brelse [OF w(2) i] by blast
  show thesis
    by (rule that [OF w(1) r(1,2)]) (use w r S k in \<open>auto simp: bkey_of_def\<close>)
qed

subsection \<open>A file system with an open transaction\<close>

text \<open>Nothing is cached and nothing logged yet.\<close>

definition clean_fs :: "(bkey \<Rightarrow> block) \<Rightarrow> superblock \<Rightarrow> inode list \<Rightarrow> fsys" where
  "clean_fs d sb0 ic = \<lparr>disk = d, havedisk1 = True, dwrites = [], bufs = replicate NBUF idle_buf, lru = [0..<NBUF],
     log_start = 2, log_size = 30, log_outstanding = 1, log_committing = False, log_dev = 1, log_lh = [],
     sb = sb0, icache = ic, cons = empty_console, curpid = 1, curkilled = False\<rparr>"

lemma clean_fs_simps [simp]:
  "sb (clean_fs d sb0 ic) = sb0" "icache (clean_fs d sb0 ic) = ic" "disk (clean_fs d sb0 ic) = d"
  "log_lh (clean_fs d sb0 ic) = []" "curpid (clean_fs d sb0 ic) = 1"
  by (simp_all add: clean_fs_def)

lemma clean_fs_tx: "tx {} 29 (clean_fs d sb0 ic)" and clean_fs_view [simp]: "view (clean_fs d sb0 ic) = d"
proof -
  let ?s = "clean_fs d sb0 ic"
  have at: "bufat i ?s = idle_buf" if "i < NBUF" for i using that by (simp add: bufat_def clean_fs_def)
  have "bc_inv ?s {}"
    unfolding bc_inv_def by (auto simp: at idle_buf_def initsleeplock_def) (simp_all add: clean_fs_def)
  moreover have "dirty_keys ?s = {}" by (auto simp: dirty_keys_def dirty_bufs_def at idle_buf_def)
  ultimately show "tx {} 29 ?s" by (simp add: tx_def) (simp add: clean_fs_def)
  show "view ?s = d" using view_miss [of ?s] by (auto simp: at idle_buf_def fun_eq_iff)
qed

end
