(* ===== verification/Fs_Alloc.thy ===== *)
theory Fs_Alloc
  imports Fs_Trans
begin

section \<open>The block allocator\<close>

text \<open>
  \<open>balloc\<close> takes the first free block of the bitmap and \<open>bfree\<close> gives a block back. The disk has
  at most \<open>FSSIZE\<close> = 1000 blocks, so the bitmap is one block.
\<close>

subsection \<open>Bits\<close>

lemma bit_free_iff: "bit_free d b \<longleftrightarrow> \<not> bit (d ! (b div 8)) (b mod 8)"
  by (simp add: bit_free_def bit_iff_and_push_bit_not_eq_0)

lemma bit_mark:
  assumes "b div 8 < length d"
  shows "bit_free (mark_used d b) c \<longleftrightarrow> bit_free d c \<and> c \<noteq> b"
    "bit_free (mark_free d b) c \<longleftrightarrow> bit_free d c \<or> c = b"
proof -
  have e: "c = b \<longleftrightarrow> c div 8 = b div 8 \<and> c mod 8 = b mod 8" by (metis div_mult_mod_eq)
  have m: "c mod 8 < 8" by simp
  show "bit_free (mark_used d b) c \<longleftrightarrow> bit_free d c \<and> c \<noteq> b"
    unfolding e using assms m
    by (cases "c div 8 = b div 8") (auto simp: bit_free_iff mark_used_def bit_or_iff bit_exp_iff)
  show "bit_free (mark_free d b) c \<longleftrightarrow> bit_free d c \<or> c = b"
    unfolding e using assms m
    by (cases "c div 8 = b div 8")
      (auto simp: bit_free_iff mark_free_def bit_and_iff bit_not_iff bit_exp_iff)
qed

lemma length_mark [simp]: "length (mark_used d b) = length d" "length (mark_free d b) = length d"
  by (simp_all add: mark_used_def mark_free_def)

lemma mark_free_used:
  assumes "b div 8 < length d" "bit_free d b" shows "mark_free (mark_used d b) b = d"
proof -
  let ?w = "d ! (b div 8)" and ?m = "push_bit (b mod 8) 1 :: u8"
  have "(?w OR ?m) AND NOT ?m = ?w"
    using assms(2) by (intro bit_word_eqI) (auto simp: bit_free_iff bit_simps)
  then show ?thesis using assms(1) by (simp add: mark_free_def mark_used_def)
qed

subsection \<open>Allocation and release\<close>

definition bm_key :: "fsys \<Rightarrow> bkey" where
  "bm_key s = (1, sb_bmapstart (sb s))"

definition geom_ok :: "fsys \<Rightarrow> bool" where
  "geom_ok s \<longleftrightarrow> unat (sb_size (sb s)) \<le> 1000 \<and> sb_bmapstart (sb s) < FSSIZE \<and>
     length (view s (bm_key s)) = BSIZE"

definition in_use :: "fsys \<Rightarrow> nat set" where
  "in_use s = {b. b < unat (sb_size (sb s)) \<and> \<not> bit_free (view s (bm_key s)) b}"

definition not_held :: "fsys \<Rightarrow> nat set \<Rightarrow> u32 \<Rightarrow> bool" where
  "not_held s H bn \<longleftrightarrow> (\<forall>i \<in> H. bkey_of (bufat i s) \<noteq> (1, bn))"

lemma tx_bread_update:
  assumes tx: "tx H (Suc n) s" and room: "length (log_lh s) + Suc n + card H < 30" and bn: "bn < FSSIZE"
    and nh: "not_held s H bn"
  obtains i s1 s2 t where "bread 1 bn s = Ret i s1" "b_data (bufat i s1) = view s (1, bn)"
    "fs_core s1 = fs_core s" "log_write i (set_data i d s1) = Ret () s2" "brelse i s2 = Ret () t" "tx H n t"
    "view t = (view s)((1, bn) := d)" "fs_core t = fs_core s" "\<forall>j \<in> H. bufat j t = bufat j s"
    "length (log_lh t) \<le> Suc (length (log_lh s))"
proof -
  have nh': "bkey_of (bufat i s) \<noteq> (1, bn)" if "i \<in> H" for i using nh that by (simp add: not_held_def)
  from tx_bread [OF tx room bn nh'] obtain i s1 where b: "bread 1 bn s = Ret i s1" "i \<notin> H"
    "tx (insert i H) (Suc n) s1" "bkey_of (bufat i s1) = (1, bn)" "b_data (bufat i s1) = view s (1, bn)"
    "view s1 = view s" "fs_core s1 = fs_core s" "log_lh s1 = log_lh s" "\<forall>j. j \<noteq> i \<longrightarrow> bufat j s1 = bufat j s"
    "b_dirty (bufat i s1) \<or> b_data (bufat i s1) = disk s1 (1, bn)" .
  from tx_update [OF b(3) insertI1 b(4), where d = d] obtain s2 t where u: "log_write i (set_data i d s1) = Ret () s2"
    "brelse i s2 = Ret () t" "tx (insert i H - {i}) n t" "view t = (view s1)((1, bn) := d)" "fs_core t = fs_core s1"
    "\<forall>j. j \<noteq> i \<longrightarrow> bufat j t = bufat j s1" "set (log_lh t) = insert bn (set (log_lh s1))"
    "length (log_lh t) \<le> Suc (length (log_lh s1))" .
  have H: "insert i H - {i} = H" using b(2) by simp
  have keep: "\<forall>j \<in> H. bufat j t = bufat j s" using b(2,9) u(6) by (metis (no_types))
  show thesis by (rule that [OF b(1,5,7) u(1,2) _ _ _ keep]) (use u b H in auto)
qed

lemma bzero_ok:
  assumes "tx H (Suc n) s" "length (log_lh s) + Suc n + card H < 30" "bn < FSSIZE" "not_held s H bn"
  obtains t where "bzero 1 bn s = Ret () t" "tx H n t" "view t = (view s)((1, bn) := replicate BSIZE 0)"
    "fs_core t = fs_core s" "\<forall>j \<in> H. bufat j t = bufat j s"
    "length (log_lh t) \<le> Suc (length (log_lh s))"
proof -
  from tx_bread_update [OF assms, where d = "replicate BSIZE 0"] obtain i s1 s2 t where
    u: "bread 1 bn s = Ret i s1" "b_data (bufat i s1) = view s (1, bn)" "fs_core s1 = fs_core s"
      "log_write i (set_data i (replicate BSIZE 0) s1) = Ret () s2"
      "brelse i s2 = Ret () t" "tx H n t" "view t = (view s)((1, bn) := replicate BSIZE 0)"
      "fs_core t = fs_core s" "\<forall>j \<in> H. bufat j t = bufat j s"
      "length (log_lh t) \<le> Suc (length (log_lh s))" .
  have "bzero 1 bn s = Ret () t" by (simp add: bzero_def u(1,4,5))
  then show thesis by (rule that [OF _ u(6-10)])
qed

text \<open>The first free block, if any.\<close>

definition first_free :: "fsys \<Rightarrow> nat option" where
  "first_free s = find (bit_free (view s (bm_key s))) [0..<unat (sb_size (sb s))]"

lemma first_free_Some:
  "first_free s = Some b \<longleftrightarrow> b < unat (sb_size (sb s)) \<and> b \<notin> in_use s \<and> {..<b} \<subseteq> in_use s"
  by (auto simp: first_free_def find_Some_iff in_use_def) force+

lemma balloc_ok:
  assumes tx: "tx H (Suc (Suc n)) s" and room: "length (log_lh s) + Suc (Suc n) + card H < 30"
    and g: "geom_ok s" and nh: "not_held s H (sb_bmapstart (sb s))" "not_held s H (of_nat b)"
    and ff: "first_free s = Some b"
  obtains t where "balloc 1 s = Ret (of_nat b) t" "tx H n t"
    "view t = (view s)(bm_key s := mark_used (view s (bm_key s)) b, (1, of_nat b) := replicate BSIZE 0)"
    "fs_core t = fs_core s" "\<forall>j \<in> H. bufat j t = bufat j s"
    "length (log_lh t) \<le> Suc (Suc (length (log_lh s)))"
proof -
  let ?bm = "sb_bmapstart (sb s)" and ?sz = "unat (sb_size (sb s))"
  have sz: "?sz \<le> 1000" "?bm < FSSIZE" using g by (simp_all add: geom_ok_def)
  have b: "b < ?sz" using ff by (simp add: first_free_Some)
  let ?d = "mark_used (view s (bm_key s)) b"
  from tx_bread_update [OF tx room sz(2) nh(1), where d = ?d] obtain i s1 s2 s3 where
    u: "bread 1 ?bm s = Ret i s1" "b_data (bufat i s1) = view s (1, ?bm)" "fs_core s1 = fs_core s"
      "log_write i (set_data i ?d s1) = Ret () s2" "brelse i s2 = Ret () s3" "tx H (Suc n) s3"
      "view s3 = (view s)((1, ?bm) := ?d)" "fs_core s3 = fs_core s" "\<forall>j \<in> H. bufat j s3 = bufat j s"
      "length (log_lh s3) \<le> Suc (length (log_lh s))" .
  have r3: "length (log_lh s3) + Suc n + card H < 30" using u(10) room by linarith
  have "unat (of_nat b :: u32) = b" using b sz(1) by (simp add: unat_of_nat)
  then have bf: "(of_nat b :: u32) < FSSIZE" using b sz(1) by (simp add: word_less_nat_alt)
  have nh3: "not_held s3 H (of_nat b)" using nh(2) u(9) by (simp add: not_held_def)
  from bzero_ok [OF u(6) r3 bf nh3] obtain t where z: "bzero 1 (of_nat b) s3 = Ret () t" "tx H n t"
      "view t = (view s3)((1, of_nat b) := replicate BSIZE 0)" "fs_core t = fs_core s3"
      "\<forall>j \<in> H. bufat j t = bufat j s3" "length (log_lh t) \<le> Suc (length (log_lh s3))" .
  have "min BPB ?sz = ?sz" using sz by simp
  then have "balloc 1 s = Ret (of_nat b) t"
    using b u(1,2,4,5) z(1) ff
    by (simp add: balloc_def balloc_loop.simps [of 1 ?sz 0] BBLOCK_def first_free_def bm_key_def)
  moreover have "view t = (view s)(bm_key s := ?d, (1, of_nat b) := replicate BSIZE 0)"
    using z(3) u(7) by (simp add: bm_key_def)
  moreover have "fs_core t = fs_core s" "\<forall>j \<in> H. bufat j t = bufat j s"
    "length (log_lh t) \<le> Suc (Suc (length (log_lh s)))"
    using z(4-6) u(8-10) by simp_all
  ultimately show thesis using z(2) by (intro that)
qed

lemma balloc_full:
  assumes tx: "tx H n s" and room: "length (log_lh s) + n + card H < 30"
    and g: "geom_ok s" and nh: "not_held s H (sb_bmapstart (sb s))" and ff: "first_free s = None"
  shows "balloc 1 s = Panic ''balloc: out of blocks''"
proof (cases "unat (sb_size (sb s)) = 0")
  case True
  then show ?thesis by (simp add: balloc_def balloc_loop.simps)
next
  case False
  let ?bm = "sb_bmapstart (sb s)" and ?sz = "unat (sb_size (sb s))"
  have sz: "?sz \<le> 1000" "?bm < FSSIZE" using g by (simp_all add: geom_ok_def)
  have nh': "bkey_of (bufat i s) \<noteq> (1, ?bm)" if "i \<in> H" for i using nh that by (simp add: not_held_def)
  from tx_bread [OF tx room sz(2) nh'] obtain i s1 where b: "bread 1 ?bm s = Ret i s1" "i \<notin> H"
    "tx (insert i H) n s1" "bkey_of (bufat i s1) = (1, ?bm)" "b_data (bufat i s1) = view s (1, ?bm)"
    "view s1 = view s" "fs_core s1 = fs_core s" "log_lh s1 = log_lh s" "\<forall>j. j \<noteq> i \<longrightarrow> bufat j s1 = bufat j s"
    "b_dirty (bufat i s1) \<or> b_data (bufat i s1) = disk s1 (1, ?bm)" .
  from tx_brelse [OF b(3) insertI1] b(4,10) obtain s2 where "brelse i s1 = Ret () s2" by metis
  moreover have "min BPB ?sz = ?sz" using sz by simp
  ultimately show ?thesis
    using b(1,5) ff False sz
    by (simp add: balloc_def balloc_loop.simps BBLOCK_def first_free_def bm_key_def)
qed

lemma bfree_ok:
  assumes tx: "tx H (Suc n) s" and room: "length (log_lh s) + Suc n + card H < 30"
    and g: "geom_ok s" and nh: "not_held s H (sb_bmapstart (sb s))" and b: "unat b \<in> in_use s"
  obtains t where "bfree 1 b s = Ret () t" "tx H n t"
    "view t = (view s)(bm_key s := mark_free (view s (bm_key s)) (unat b))"
    "fs_core t = fs_core s" "\<forall>j \<in> H. bufat j t = bufat j s" "length (log_lh t) \<le> Suc (length (log_lh s))"
proof -
  let ?bm = "sb_bmapstart (sb s)" and ?d = "mark_free (view s (bm_key s)) (unat b)"
  have sz: "unat b < 1000" "?bm < FSSIZE" using g b by (auto simp: geom_ok_def in_use_def)
  from tx_bread_update [OF tx room sz(2) nh, where d = ?d] obtain i s1 s2 t where
    u: "bread 1 ?bm s = Ret i s1" "b_data (bufat i s1) = view s (1, ?bm)" "fs_core s1 = fs_core s"
      "log_write i (set_data i ?d s1) = Ret () s2" "brelse i s2 = Ret () t" "tx H n t"
      "view t = (view s)((1, ?bm) := ?d)" "fs_core t = fs_core s" "\<forall>j \<in> H. bufat j t = bufat j s"
      "length (log_lh t) \<le> Suc (length (log_lh s))" .
  have "bfree 1 b s = Ret () t"
    using u(1,2,4,5) b sz by (simp add: bfree_def BBLOCK_def bm_key_def in_use_def)
  then show thesis using u by (intro that) (simp_all add: bm_key_def)
qed

lemma bfree_free:
  assumes tx: "tx H n s" and room: "length (log_lh s) + n + card H < 30"
    and g: "geom_ok s" and nh: "not_held s H (sb_bmapstart (sb s))"
    and b: "unat b < 1000" "bit_free (view s (bm_key s)) (unat b)"
  shows "bfree 1 b s = Panic ''freeing free block''"
proof -
  let ?bm = "sb_bmapstart (sb s)"
  have sz: "?bm < FSSIZE" using g by (simp add: geom_ok_def)
  have nh': "bkey_of (bufat i s) \<noteq> (1, ?bm)" if "i \<in> H" for i using nh that by (simp add: not_held_def)
  from tx_bread [OF tx room sz nh'] obtain i s1 where "bread 1 ?bm s = Ret i s1" "i \<notin> H"
    "tx (insert i H) n s1" "bkey_of (bufat i s1) = (1, ?bm)" "b_data (bufat i s1) = view s (1, ?bm)"
    "view s1 = view s" "fs_core s1 = fs_core s" "log_lh s1 = log_lh s" "\<forall>j. j \<noteq> i \<longrightarrow> bufat j s1 = bufat j s"
    "b_dirty (bufat i s1) \<or> b_data (bufat i s1) = disk s1 (1, ?bm)" .
  then show ?thesis using b by (simp add: bfree_def BBLOCK_def bm_key_def)
qed

lemma in_use_mark:
  assumes "length (view s (bm_key s)) = BSIZE" "b < 1000" "sb t = sb s"
  shows "view t (bm_key s) = mark_used (view s (bm_key s)) b \<Longrightarrow> b < unat (sb_size (sb s)) \<Longrightarrow>
      in_use t = insert b (in_use s)"
    "view t (bm_key s) = mark_free (view s (bm_key s)) b \<Longrightarrow> in_use t = in_use s - {b}"
  using assms by (auto simp: in_use_def bm_key_def bit_mark)

subsection \<open>What the allocator guarantees\<close>

text \<open>
  (C24) Allocation never hands out a block that is in use. Inside a transaction with room for two
  blocks, \<open>balloc\<close> returns the lowest-numbered free block; it is in use afterwards and reads as
  zeros, every other block except the bitmap is seen unchanged, and nothing has been
  written to the disk. If every block is in use, \<open>balloc\<close> panics.
\<close>

theorem balloc_takes_first_free:
  assumes "tx {} (Suc (Suc n)) s" "geom_ok s" "unat (sb_bmapstart (sb s)) \<in> in_use s"
  shows "case first_free s of
      None \<Rightarrow> balloc 1 s = Panic ''balloc: out of blocks''
    | Some b \<Rightarrow> \<exists>t. balloc 1 s = Ret (of_nat b) t \<and> tx {} n t \<and> b \<notin> in_use s \<and> {..<b} \<subseteq> in_use s \<and>
        in_use t = insert b (in_use s) \<and> view t (1, of_nat b) = replicate BSIZE 0 \<and>
        (\<forall>k. k \<noteq> bm_key s \<and> k \<noteq> (1, of_nat b) \<longrightarrow> view t k = view s k) \<and>
        disk t = disk s \<and> dwrites t = dwrites s"
proof (cases "first_free s")
  case None
  have "length (log_lh s) + Suc (Suc n) + card {} < 30" using assms(1) by (simp add: tx_def)
  then show ?thesis using balloc_full [OF assms(1) _ assms(2)] None by (simp add: not_held_def)
next
  case (Some b)
  then have b: "b < unat (sb_size (sb s))" "b \<notin> in_use s" "{..<b} \<subseteq> in_use s" by (simp_all add: first_free_Some)
  have g: "unat (sb_size (sb s)) \<le> 1000" "length (view s (bm_key s)) = BSIZE"
    using assms(2) by (simp_all add: geom_ok_def)
  have u: "unat (of_nat b :: u32) = b" using b g by (simp add: unat_of_nat)
  then have ne: "sb_bmapstart (sb s) \<noteq> of_nat b" using assms(3) b(2) by auto
  have "length (log_lh s) + Suc (Suc n) + card {} < 30" using assms(1) by (simp add: tx_def)
  from balloc_ok [OF assms(1) this assms(2) _ _ Some] obtain t where t: "balloc 1 s = Ret (of_nat b) t"
    "tx {} n t" "view t = (view s)(bm_key s := mark_used (view s (bm_key s)) b, (1, of_nat b) := replicate BSIZE 0)"
    "fs_core t = fs_core s" by (auto simp: not_held_def)
  note F = fs_core_fields [OF t(4)]
  have "view t (bm_key s) = mark_used (view s (bm_key s)) b" using t(3) ne by (simp add: bm_key_def)
  from in_use_mark(1) [OF g(2) _ F(3) this b(1)] have "in_use t = insert b (in_use s)" using b g by simp
  then show ?thesis using Some t b F by simp
qed

definition small_sb :: superblock where
  "small_sb = \<lparr>sb_size = 200, sb_nblocks = 100, sb_ninodes = 20, sb_nlog = 30, sb_logstart = 2,
     sb_inodestart = 32, sb_bmapstart = 58\<rparr>"

definition small_disk :: "bkey \<Rightarrow> block" where
  "small_disk k = (if k = (1, 58) then replicate 8 255 @ replicate 504 0 else replicate BSIZE 0)"

lemma small_disk_bits: "b < 512 \<Longrightarrow> bit_free (small_disk (1, 58)) b \<longleftrightarrow> 64 \<le> b"
proof -
  assume "b < 512"
  have "bit (255 :: u8) (b mod 8)"
  proof -
    have "bit (mask 8 :: u8) (b mod 8)" unfolding bit_mask_iff by simp
    moreover have "(mask 8 :: u8) = 255" by (simp add: mask_eq_exp_minus_1)
    ultimately show ?thesis by (simp only:)
  qed
  then show ?thesis using \<open>b < 512\<close> by (auto simp: bit_free_iff small_disk_def nth_append)
qed

lemma small_fs_ok:
  defines "s \<equiv> clean_fs small_disk small_sb []"
  shows "geom_ok s" "unat (sb_bmapstart (sb s)) \<in> in_use s" "first_free s = Some 64" "in_use s = {..<64}"
proof -
  show iu: "in_use s = {..<64}"
    using small_disk_bits by (auto simp: s_def in_use_def bm_key_def small_sb_def)
  show "geom_ok s" by (simp add: s_def geom_ok_def bm_key_def small_sb_def small_disk_def)
  show "unat (sb_bmapstart (sb s)) \<in> in_use s" unfolding iu by (simp add: s_def small_sb_def)
  show "first_free s = Some 64" unfolding first_free_Some iu by (auto simp: s_def small_sb_def)
qed

theorem balloc_takes_first_free_witness:
  "\<exists>t. balloc 1 (clean_fs small_disk small_sb []) = Ret 64 t \<and> in_use t = insert 64 {..<64} \<and>
     view t (1, 64) = replicate BSIZE 0"
proof -
  let ?s = "clean_fs small_disk small_sb []"
  have "tx {} (Suc (Suc 27)) ?s" using clean_fs_tx by (simp add: numeral_nat)
  from balloc_takes_first_free [OF this small_fs_ok(1,2)] show ?thesis by (auto simp: small_fs_ok)
qed

text \<open>
  (C25) Releasing undoes allocation, and a double release is caught. The block that \<open>balloc\<close>
  returned can be released in the same transaction; the bitmap is then bit for bit what it
  was, and releasing the block once more panics.
\<close>

theorem balloc_bfree_restores:
  assumes "tx {} (Suc (Suc (Suc n))) s" "geom_ok s" "unat (sb_bmapstart (sb s)) \<in> in_use s" "first_free s = Some b"
  shows "\<exists>t u. balloc 1 s = Ret (of_nat b) t \<and> bfree 1 (of_nat b) t = Ret () u \<and> tx {} n u \<and>
    view u (bm_key s) = view s (bm_key s) \<and> in_use u = in_use s \<and>
    bfree 1 (of_nat b) u = Panic ''freeing free block''"
proof -
  have b: "b < unat (sb_size (sb s))" "b \<notin> in_use s" using assms(4) by (simp_all add: first_free_Some)
  have g: "unat (sb_size (sb s)) \<le> 1000" "length (view s (bm_key s)) = BSIZE" "sb_bmapstart (sb s) < FSSIZE"
    using assms(2) by (simp_all add: geom_ok_def)
  have u: "unat (of_nat b :: u32) = b" using b g by (simp add: unat_of_nat)
  then have ne: "sb_bmapstart (sb s) \<noteq> of_nat b" using assms(3) b(2) by auto
  have fr: "bit_free (view s (bm_key s)) b" using b by (simp add: in_use_def)
  have r: "length (log_lh s) + Suc (Suc (Suc n)) + card {} < 30" using assms(1) by (simp add: tx_def)
  from balloc_ok [OF assms(1) r assms(2) _ _ assms(4)] obtain t where t: "balloc 1 s = Ret (of_nat b) t"
    "tx {} (Suc n) t" "view t = (view s)(bm_key s := mark_used (view s (bm_key s)) b, (1, of_nat b) := replicate BSIZE 0)"
    "fs_core t = fs_core s" by (auto simp: not_held_def)
  have sbt: "sb t = sb s" by (rule fs_core_fields(3) [OF t(4)])
  have kt: "bm_key t = bm_key s" by (simp add: bm_key_def sbt)
  have vt: "view t (bm_key s) = mark_used (view s (bm_key s)) b" using t(3) ne by (simp add: bm_key_def)
  have gt: "geom_ok t" using assms(2) by (simp add: geom_ok_def sbt kt vt)
  have "in_use t = insert b (in_use s)" using in_use_mark(1) [OF g(2) _ sbt vt b(1)] b g by simp
  then have bu: "unat (of_nat b :: u32) \<in> in_use t" using u by simp
  have rt: "length (log_lh t) + Suc n + card {} < 30" using t(2) by (simp add: tx_def)
  from bfree_ok [OF t(2) rt gt _ bu] obtain v where v: "bfree 1 (of_nat b) t = Ret () v" "tx {} n v"
    "view v = (view t)(bm_key t := mark_free (view t (bm_key t)) b)" "fs_core v = fs_core t"
    by (auto simp: not_held_def u)
  have sbv: "sb v = sb s" using fs_core_fields(3) [OF v(4)] sbt by simp
  have kv: "bm_key v = bm_key s" by (simp add: bm_key_def sbv)
  have vv: "view v (bm_key s) = view s (bm_key s)"
    using v(3) vt fr b g by (simp add: kt mark_free_used)
  have gv: "geom_ok v" using assms(2) by (simp add: geom_ok_def sbv kv vv)
  have rv: "length (log_lh v) + n + card {} < 30" using v(2) by (simp add: tx_def)
  have "bfree 1 (of_nat b) v = Panic ''freeing free block''"
    using bfree_free [OF v(2) rv gv] fr b g by (simp add: not_held_def kv vv u)
  moreover have "in_use v = in_use s" by (simp add: in_use_def sbv kv vv)
  ultimately show ?thesis using t(1) v(1,2) vv by blast
qed

theorem balloc_bfree_restores_witness:
  "\<exists>t u. balloc 1 (clean_fs small_disk small_sb []) = Ret 64 t \<and> bfree 1 64 t = Ret () u \<and> in_use u = {..<64} \<and>
     bfree 1 64 u = Panic ''freeing free block''"
proof -
  let ?s = "clean_fs small_disk small_sb []"
  have "tx {} (Suc (Suc (Suc 26))) ?s" using clean_fs_tx by (simp add: numeral_nat)
  from balloc_bfree_restores [OF this small_fs_ok(1-3)] show ?thesis by (auto simp: small_fs_ok)
qed

end
