(* ===== verification/Fs_File.thy ===== *)
theory Fs_File
  imports Fs_Alloc
begin

section \<open>File contents\<close>

text \<open>
  The bytes of a file whose blocks are allocated, as a function of the offset, and the effect of
  \<open>readi\<close> and \<open>writei\<close> on them, over direct and indirect blocks and any alignment.
\<close>

definition faddr :: "fsys \<Rightarrow> nat \<Rightarrow> nat \<Rightarrow> u32" where
  "faddr s ip k = (if k < NDIRECT then addr_at ip k s
     else rd32 (view s (1, addr_at ip NDIRECT s)) (4 * (k - NDIRECT)))"

definition fmapped :: "fsys \<Rightarrow> nat \<Rightarrow> nat \<Rightarrow> bool" where
  "fmapped s ip n \<longleftrightarrow> i_dev (iat ip s) = 1 \<and> n \<le> MAXFILE \<and>
     (\<forall>k < n. faddr s ip k \<noteq> 0 \<and> faddr s ip k < FSSIZE \<and> length (view s (1, faddr s ip k)) = BSIZE) \<and>
     inj_on (faddr s ip) {..<n} \<and>
     (n > NDIRECT \<longrightarrow> addr_at ip NDIRECT s \<noteq> 0 \<and> addr_at ip NDIRECT s < FSSIZE \<and>
        addr_at ip NDIRECT s \<notin> faddr s ip ` {..<n})"

definition fbyte :: "fsys \<Rightarrow> nat \<Rightarrow> nat \<Rightarrow> u8" where
  "fbyte s ip j = view s (1, faddr s ip (j div BSIZE)) ! (j mod BSIZE)"

lemma tx_read:
  assumes tx: "tx {} n s" and bn: "bn < FSSIZE"
  obtains i s1 t where "bread 1 bn s = Ret i s1" "b_data (bufat i s1) = view s (1, bn)" "fs_core s1 = fs_core s"
    "brelse i s1 = Ret () t" "tx {} n t" "view t = view s" "fs_core t = fs_core s"
proof -
  have room: "length (log_lh s) + n + card {} < 30" using tx by (simp add: tx_def)
  have nh: "bkey_of (bufat i s) \<noteq> (1, bn)" if "i \<in> {}" for i using that by simp
  from tx_bread [OF tx room bn nh] obtain i s1 where b: "bread 1 bn s = Ret i s1" "i \<notin> {}"
    "tx {i} n s1" "bkey_of (bufat i s1) = (1, bn)" "b_data (bufat i s1) = view s (1, bn)"
    "view s1 = view s" "fs_core s1 = fs_core s" "log_lh s1 = log_lh s"
    "\<forall>j. j \<noteq> i \<longrightarrow> bufat j s1 = bufat j s" "b_dirty (bufat i s1) \<or> b_data (bufat i s1) = disk s1 (1, bn)" .
  have "b_dirty (bufat i s1) \<or> b_data (bufat i s1) = disk s1 (bkey_of (bufat i s1))" using b(4,10) by simp
  from tx_brelse [OF b(3) singletonI this] obtain t where t: "brelse i s1 = Ret () t" "tx ({i} - {i}) n t"
    "view t = view s1" "fs_core t = fs_core s1" "log_lh t = log_lh s1" "\<forall>j. j \<noteq> i \<longrightarrow> bufat j t = bufat j s1" .
  show thesis by (rule that [OF b(1,5,7) t(1)]) (use t b in simp_all)
qed

lemma bmap_mapped:
  assumes tx: "tx {} n s" and m: "fmapped s ip N" and k: "k < N"
  obtains t where "bmap ip k s = Ret (faddr s ip k) t" "tx {} n t" "view t = view s" "fs_core t = fs_core s"
proof (cases "k < NDIRECT")
  case True
  have "faddr s ip k \<noteq> 0" using m k by (simp add: fmapped_def)
  then have "bmap ip k s = Ret (faddr s ip k) s" using True by (simp add: bmap_def direct_block_def faddr_def)
  then show thesis using tx by (intro that) simp_all
next
  case False
  let ?a = "addr_at ip NDIRECT s" and ?j = "k - NDIRECT"
  have a: "?a \<noteq> 0" "?a < FSSIZE" "i_dev (iat ip s) = 1" "faddr s ip k \<noteq> 0" "k < MAXFILE"
    using m k False by (auto simp: fmapped_def)
  from tx_read [OF tx a(2)] obtain i s1 t where r: "bread 1 ?a s = Ret i s1"
    "b_data (bufat i s1) = view s (1, ?a)" "fs_core s1 = fs_core s" "brelse i s1 = Ret () t" "tx {} n t"
    "view t = view s" "fs_core t = fs_core s" .
  have "bmap ip k s = Ret (faddr s ip k) t"
    using False a r by (auto simp: bmap_def direct_block_def faddr_def Let_def)
  then show thesis by (rule that [OF _ r(5-7)])
qed

lemma fmapped_cong:
  assumes "fs_core t = fs_core s" "view t = view s"
  shows "faddr t = faddr s" "fmapped t = fmapped s" "fbyte t = fbyte s"
proof -
  have i: "iat ip t = iat ip s" for ip by (rule fs_core_fields(11) [OF assms(1)])
  show f: "faddr t = faddr s" by (simp add: faddr_def addr_at_def i assms(2) fun_eq_iff)
  show "fmapped t = fmapped s" by (simp add: fmapped_def f addr_at_def i assms(2) fun_eq_iff)
  show "fbyte t = fbyte s" by (simp add: fbyte_def f assms(2) fun_eq_iff)
qed

lemma get_bytes_nth:
  assumes "o' + m \<le> length d" shows "get_bytes o' m d = map (\<lambda>i. d ! i) [o'..<o' + m]"
  using assms by (intro nth_equalityI) (simp_all add: get_bytes_def)

lemma block_add:
  assumes "off mod BSIZE + i < BSIZE"
  shows "(off + i) div BSIZE = off div BSIZE" "(off + i) mod BSIZE = off mod BSIZE + i"
proof -
  have "(off + i) mod BSIZE = (off mod BSIZE + i) mod BSIZE" by (simp only: mod_add_left_eq)
  then show "(off + i) mod BSIZE = off mod BSIZE + i" using assms by simp
  have "i div BSIZE = 0" "i mod BSIZE = i" using assms by simp_all
  then show "(off + i) div BSIZE = off div BSIZE" using assms by (subst div_add1_eq) simp
qed

text \<open>A chunk of one block, by the offsets in the file.\<close>

lemma chunk_bytes:
  assumes "off mod BSIZE + m \<le> BSIZE" "length (view s (1, faddr s ip (off div BSIZE))) = BSIZE"
  shows "get_bytes (off mod BSIZE) m (view s (1, faddr s ip (off div BSIZE))) = map (fbyte s ip) [off..<off + m]"
proof (rule nth_equalityI)
  show "length (get_bytes (off mod BSIZE) m (view s (1, faddr s ip (off div BSIZE)))) =
      length (map (fbyte s ip) [off..<off + m])" using assms by (simp add: get_bytes_nth)
  fix i assume "i < length (get_bytes (off mod BSIZE) m (view s (1, faddr s ip (off div BSIZE))))"
  then have i: "i < m" using assms by (simp add: get_bytes_nth)
  have lt: "off mod BSIZE + i < BSIZE" using i assms(1) by linarith
  have "(off + i) div BSIZE = off div BSIZE" "(off + i) mod BSIZE = off mod BSIZE + i"
    using lt by (rule block_add)+
  then show "get_bytes (off mod BSIZE) m (view s (1, faddr s ip (off div BSIZE))) ! i =
      map (fbyte s ip) [off..<off + m] ! i"
    using i assms by (simp add: get_bytes_nth fbyte_def)
qed

lemma readi_loop_ok:
  assumes "tx {} l s" "fmapped s ip N" "off + n \<le> BSIZE * N"
  shows "\<exists>t. readi_loop ip off n acc s = Ret (acc @ map (fbyte s ip) [off..<off + n]) t \<and> tx {} l t \<and>
    view t = view s \<and> fs_core t = fs_core s"
  using assms
proof (induction n arbitrary: off acc s rule: less_induct)
  case (less n)
  show ?case
  proof (cases "n = 0")
    case True
    then show ?thesis using less.prems by (simp add: readi_loop.simps)
  next
    case False
    let ?k = "off div BSIZE" and ?m = "min n (BSIZE - off mod BSIZE)"
    have k: "?k < N" using less.prems(3) False by (simp add: less_mult_imp_div_less mult.commute)
    have F: "faddr s ip ?k < FSSIZE" "length (view s (1, faddr s ip ?k)) = BSIZE" "i_dev (iat ip s) = 1"
      using less.prems(2) k by (simp_all add: fmapped_def)
    from bmap_mapped [OF less.prems(1,2) k] obtain s1 where b: "bmap ip ?k s = Ret (faddr s ip ?k) s1"
      "tx {} l s1" "view s1 = view s" "fs_core s1 = fs_core s" .
    from tx_read [OF b(2) F(1)] obtain i s2 s3 where r: "bread 1 (faddr s ip ?k) s1 = Ret i s2"
      "b_data (bufat i s2) = view s1 (1, faddr s ip ?k)" "fs_core s2 = fs_core s1" "brelse i s2 = Ret () s3"
      "tx {} l s3" "view s3 = view s1" "fs_core s3 = fs_core s1" .
    have c: "fs_core s3 = fs_core s" "view s3 = view s" using b r by simp_all
    note C = fmapped_cong [OF c]
    have "?m > 0" "?m \<le> n" using False by simp_all
    then have lt: "n - ?m < n" using False by linarith
    have "off + ?m + (n - ?m) \<le> BSIZE * N" using less.prems(3) by simp
    from less.IH [OF lt r(5) _ this, of "acc @ map (fbyte s ip) [off..<off + ?m]"] less.prems(2)
    obtain t where t: "readi_loop ip (off + ?m) (n - ?m) (acc @ map (fbyte s ip) [off..<off + ?m]) s3 =
        Ret ((acc @ map (fbyte s ip) [off..<off + ?m]) @ map (fbyte s ip) [off + ?m..<off + ?m + (n - ?m)]) t"
      "tx {} l t" "view t = view s" "fs_core t = fs_core s" by (auto simp: C c)
    have ch: "get_bytes (off mod BSIZE) ?m (view s (1, faddr s ip ?k)) = map (fbyte s ip) [off..<off + ?m]"
      using F(2) by (intro chunk_bytes) (auto simp: min_def)
    have dev: "i_dev (iat ip s1) = 1" using F(3) fs_core_fields(11) [OF b(4)] by simp
    have "readi_loop ip off n acc s = readi_loop ip (off + ?m) (n - ?m) (acc @ map (fbyte s ip) [off..<off + ?m]) s3"
      using False b(1) r(1,2,4) dev ch by (subst readi_loop.simps) (simp add: b(3) Let_def)
    moreover have "[off..<off + ?m] @ [off + ?m..<off + ?m + (n - ?m)] = [off..<off + n]"
      using \<open>?m \<le> n\<close> upt_add_eq_append [of off "off + ?m" "n - ?m"] by simp
    then have "map (fbyte s ip) [off..<off + ?m] @ map (fbyte s ip) [off + ?m..<off + ?m + (n - ?m)] =
        map (fbyte s ip) [off..<off + n]" by (simp flip: map_append)
    ultimately show ?thesis using t by simp
  qed
qed

subsection \<open>Writing\<close>

lemma write_block:
  assumes m: "fmapped s ip N" and k: "k < N" and core: "fs_core t = fs_core s"
    and v: "view t = (view s)((1, faddr s ip k) := d)" and d: "length d = BSIZE"
  shows "j < N \<Longrightarrow> faddr t ip j = faddr s ip j" "fmapped t ip N"
    "i < BSIZE * N \<Longrightarrow> fbyte t ip i = (if i div BSIZE = k then d ! (i mod BSIZE) else fbyte s ip i)"
proof -
  have i: "iat q t = iat q s" for q by (rule fs_core_fields(11) [OF core])
  have f: "faddr t ip j = faddr s ip j" if j: "j < N" for j
  proof (cases "j < NDIRECT")
    case True
    then show ?thesis by (simp add: faddr_def addr_at_def i)
  next
    case False
    then have "addr_at ip NDIRECT s \<noteq> faddr s ip k" using m k j by (auto simp: fmapped_def)
    then show ?thesis using False v by (simp add: faddr_def addr_at_def i)
  qed
  then show "j < N \<Longrightarrow> faddr t ip j = faddr s ip j" .
  have img: "faddr t ip ` {..<N} = faddr s ip ` {..<N}" using f by (auto simp: image_iff)
  have inj: "inj_on (faddr s ip) {..<N}" using m by (simp add: fmapped_def)
  have inj': "inj_on (faddr t ip) {..<N}" using inj f by (auto simp: inj_on_def)
  show "fmapped t ip N"
    using m d inj' f img v unfolding fmapped_def by (auto simp: i addr_at_def)
  show "fbyte t ip i = (if i div BSIZE = k then d ! (i mod BSIZE) else fbyte s ip i)" if "i < BSIZE * N"
  proof -
    have b: "i div BSIZE < N" using that by (simp add: less_mult_imp_div_less mult.commute)
    have "faddr s ip (i div BSIZE) = faddr s ip k \<longleftrightarrow> i div BSIZE = k"
      using inj b k by (auto simp: inj_on_def)
    then show ?thesis using f [OF b] v by (simp add: fbyte_def)
  qed
qed

definition blocks_touched :: "nat \<Rightarrow> nat \<Rightarrow> nat" where
  "blocks_touched off n = (if n = 0 then 0 else (off mod BSIZE + n + 511) div BSIZE)"

lemma blocks_touched_step:
  assumes "0 < n" "m = min n (BSIZE - off mod BSIZE)"
  shows "blocks_touched off n = Suc (blocks_touched (off + m) (n - m)) \<or> n = m \<and> 0 < blocks_touched off n"
proof (cases "n = m")
  case True
  have "BSIZE \<le> off mod BSIZE + n + 511" using assms(1) by simp
  then have "0 < (off mod BSIZE + n + 511) div BSIZE" by (simp add: div_greater_zero_iff)
  then show ?thesis using True assms(1) by (simp add: blocks_touched_def)
next
  case False
  then have m: "m = BSIZE - off mod BSIZE" "m < n" using assms(2) by (auto simp: min_def split: if_splits)
  have "off mod BSIZE < BSIZE" by simp
  then have o: "off mod BSIZE + m = BSIZE" using m(1) by linarith
  have "(off + m) mod BSIZE = (off mod BSIZE + m) mod BSIZE" by (simp only: mod_add_left_eq)
  then have z: "(off + m) mod BSIZE = 0" using o by simp
  have e: "off mod BSIZE + n + 511 = BSIZE + ((n - m) + 511)" using o m by linarith
  have "(BSIZE + x) div BSIZE = Suc (x div BSIZE)" for x by (subst div_add_self1) simp_all
  then have "blocks_touched off n = Suc (blocks_touched (off + m) (n - m))"
    unfolding blocks_touched_def z e using assms(1) m(2) by (simp only: add_0) simp
  then show ?thesis ..
qed

lemma put_bytes_chunk:
  assumes "length d = BSIZE" "off mod BSIZE + length c \<le> BSIZE" "i div BSIZE = off div BSIZE"
  shows "put_bytes (off mod BSIZE) c d ! (i mod BSIZE) =
    (if off \<le> i \<and> i < off + length c then c ! (i - off) else d ! (i mod BSIZE))"
proof -
  have e: "i = (i div BSIZE) * BSIZE + i mod BSIZE" by simp
  have e': "off = (i div BSIZE) * BSIZE + off mod BSIZE" unfolding assms(3) by simp
  have "off \<le> i \<longleftrightarrow> off mod BSIZE \<le> i mod BSIZE" "i < off + length c \<longleftrightarrow> i mod BSIZE < off mod BSIZE + length c"
    "i - off = i mod BSIZE - off mod BSIZE" using e e' by linarith+
  then show ?thesis using assms by (simp add: nth_put_bytes)
qed

lemma writei_loop_ok:
  assumes "tx {} (l + blocks_touched off (length src)) s" "fmapped s ip N" "off + length src \<le> BSIZE * N"
  shows "\<exists>t. writei_loop ip off src s = Ret () t \<and> tx {} l t \<and> fs_core t = fs_core s \<and> fmapped t ip N \<and>
    (\<forall>i < BSIZE * N. fbyte t ip i = (if off \<le> i \<and> i < off + length src then src ! (i - off) else fbyte s ip i)) \<and>
    (\<forall>k. k \<notin> Pair 1 ` faddr s ip ` {..<N} \<longrightarrow> view t k = view s k)"
  using assms
proof (induction "length src" arbitrary: off src s rule: less_induct)
  case less
  let ?n = "length src"
  show ?case
  proof (cases "src = []")
    case True
    then have "tx {} l s" using tx_mono [OF less.prems(1), of l] by simp
    then show ?thesis using True less.prems by (auto simp: writei_loop.simps)
  next
    case False
    let ?k = "off div BSIZE" and ?m = "min ?n (BSIZE - off mod BSIZE)"
    let ?r = "l + blocks_touched (off + ?m) (?n - ?m)"
    have n: "0 < ?n" using False by simp
    have "off < N * BSIZE" using less.prems(3) n by linarith
    then have k: "?k < N" by (rule less_mult_imp_div_less)
    have m: "0 < ?m" "?m \<le> ?n" "off mod BSIZE + ?m \<le> BSIZE" using n by (auto simp: min_def)
    have "blocks_touched (off + ?m) (?n - ?m) = 0" if "?n = ?m"
      using that by (simp add: blocks_touched_def)
    then have "Suc (blocks_touched (off + ?m) (?n - ?m)) \<le> blocks_touched off ?n"
      using blocks_touched_step [OF n refl, of off] by (metis Suc_leI order_refl)
    then have tx: "tx {} (Suc ?r) s" using less.prems(1) by (elim tx_mono) simp
    have F: "faddr s ip ?k < FSSIZE" "length (view s (1, faddr s ip ?k)) = BSIZE" "i_dev (iat ip s) = 1"
      using less.prems(2) k by (simp_all add: fmapped_def)
    from bmap_mapped [OF tx less.prems(2) k] obtain s1 where b: "bmap ip ?k s = Ret (faddr s ip ?k) s1"
      "tx {} (Suc ?r) s1" "view s1 = view s" "fs_core s1 = fs_core s" .
    let ?c = "take ?m src" and ?d = "put_bytes (off mod BSIZE) (take ?m src) (view s (1, faddr s ip ?k))"
    have room: "length (log_lh s1) + Suc ?r + card {} < 30" using b(2) by (simp add: tx_def)
    have nh: "not_held s1 {} (faddr s ip ?k)" by (simp add: not_held_def)
    from tx_bread_update [OF b(2) room F(1) nh, where d = ?d] obtain i s2 s3 s4 where
      u: "bread 1 (faddr s ip ?k) s1 = Ret i s2" "b_data (bufat i s2) = view s1 (1, faddr s ip ?k)"
        "fs_core s2 = fs_core s1" "log_write i (set_data i ?d s2) = Ret () s3" "brelse i s3 = Ret () s4"
        "tx {} ?r s4" "view s4 = (view s1)((1, faddr s ip ?k) := ?d)" "fs_core s4 = fs_core s1"
        "\<forall>j \<in> {}. bufat j s4 = bufat j s1" "length (log_lh s4) \<le> Suc (length (log_lh s1))" .
    have core: "fs_core s4 = fs_core s" using u(8) b(4) by simp
    have v4: "view s4 = (view s)((1, faddr s ip ?k) := ?d)" using u(7) b(3) by simp
    have c: "length ?c = ?m" using m(2) by simp
    have d: "length ?d = BSIZE" using F(2) m(3) c by simp
    note W = write_block [OF less.prems(2) k core v4 d]
    have step: "writei_loop ip off src s = writei_loop ip (off + ?m) (drop ?m src) s4"
      using False b(1,3) u(1,2,4,5) F(3) fs_core_fields(11) [OF b(4)]
      by (subst writei_loop.simps) (simp add: Let_def)
    have lt: "length (drop ?m src) < ?n" using m n by simp
    have pre: "tx {} (l + blocks_touched (off + ?m) (length (drop ?m src))) s4"
      "off + ?m + length (drop ?m src) \<le> BSIZE * N" using u(6) m(2) less.prems(3) by simp_all
    from less.hyps [OF lt pre(1) W(2) pre(2)] obtain t where
      t: "writei_loop ip (off + ?m) (drop ?m src) s4 = Ret () t" "tx {} l t" "fs_core t = fs_core s4" "fmapped t ip N"
        "\<forall>i < BSIZE * N. fbyte t ip i = (if off + ?m \<le> i \<and> i < off + ?m + length (drop ?m src)
           then drop ?m src ! (i - (off + ?m)) else fbyte s4 ip i)"
        "\<forall>k. k \<notin> Pair 1 ` faddr s4 ip ` {..<N} \<longrightarrow> view t k = view s4 k" by (elim exE conjE)
    have img: "faddr s4 ip ` {..<N} = faddr s ip ` {..<N}" using W(1) by (auto simp: image_iff)
    have bytes: "fbyte t ip i = (if off \<le> i \<and> i < off + ?n then src ! (i - off) else fbyte s ip i)"
      if i: "i < BSIZE * N" for i
    proof -
      have f4: "fbyte s4 ip i = (if off \<le> i \<and> i < off + ?m then src ! (i - off) else fbyte s ip i)"
      proof (cases "i div BSIZE = ?k")
        case True
        have p: "off mod BSIZE + length ?c \<le> BSIZE" using m(3) c by simp
        have "fbyte s ip i = view s (1, faddr s ip ?k) ! (i mod BSIZE)" using True by (simp add: fbyte_def)
        moreover have "?c ! (i - off) = src ! (i - off)" if "off \<le> i \<and> i < off + ?m"
          using that by (intro nth_take) linarith
        ultimately show ?thesis unfolding W(3) [OF i] put_bytes_chunk [OF F(2) p True] c if_P [OF True]
          by (cases "off \<le> i \<and> i < off + ?m") (simp_all only: if_True if_False)
      next
        case False
        have "\<not> (off \<le> i \<and> i < off + ?m)"
        proof
          assume a: "off \<le> i \<and> i < off + ?m"
          then have "off mod BSIZE + (i - off) < BSIZE" "off + (i - off) = i" using m(3) by linarith+
          then show False using False block_add(1) [of off "i - off"] by simp
        qed
        then show ?thesis unfolding W(3) [OF i] if_not_P [OF False] by (simp only: if_False)
      qed
      have "drop ?m src ! (i - (off + ?m)) = src ! (i - off)" if "off + ?m \<le> i"
        using that m(2) by (subst nth_drop) auto
      moreover have "off + ?m + length (drop ?m src) = off + ?n" using m(2) by simp
      moreover have "i < off + ?n" if "\<not> off + ?m \<le> i" using that m(2) by linarith
      ultimately show ?thesis using t(5) i f4 by (cases "off + ?m \<le> i") simp_all
    qed
    have rest: "view t q = view s q" if "q \<notin> Pair 1 ` faddr s ip ` {..<N}" for q
    proof -
      have "(1, faddr s ip ?k) \<noteq> q" using that k by auto
      then have "view s4 q = view s q" by (simp add: v4)
      moreover have "view t q = view s4 q" using that t(6) unfolding img by blast
      ultimately show ?thesis by simp
    qed
    show ?thesis using t core bytes rest by (intro exI [of _ t]) (auto simp: step)
  qed
qed


subsection \<open>What \<open>writei\<close> and \<open>readi\<close> guarantee\<close>

text \<open>
  (C10) Write then read. In a file of allocated blocks (direct or indirect), a \<open>writei\<close> inside
  its size, at any alignment and in a transaction with room for the blocks it touches, returns
  the number of bytes; a \<open>readi\<close> of the same range then returns exactly the bytes written, every
  other byte of the file is unchanged, as is every block that is not one of the file's,
  and nothing has been written to the disk.
\<close>

theorem writei_readi:
  assumes "tx {} (l + blocks_touched (unat off) (length src)) s" "fmapped s ip N"
    "di_type (i_d (iat ip s)) \<noteq> T_DEV" "unat off + length src \<le> unat (di_size (i_d (iat ip s)))"
    "unat (di_size (i_d (iat ip s))) \<le> BSIZE * N"
  shows "\<exists>t u. writei ip src off s = Ret (int (length src)) t \<and>
    readi ip off (of_nat (length src)) t = Ret (int (length src), src) u \<and> tx {} l u \<and>
    (\<forall>i < BSIZE * N. i < unat off \<or> unat off + length src \<le> i \<longrightarrow> fbyte u ip i = fbyte s ip i) \<and>
    (\<forall>k. k \<notin> Pair 1 ` faddr s ip ` {..<N} \<longrightarrow> view u k = view s k) \<and> disk u = disk s"
proof -
  let ?n = "length src" and ?z = "di_size (i_d (iat ip s))"
  have N: "BSIZE * N \<le> 71680" using assms(2) by (simp add: fmapped_def)
  have b: "?n \<le> 71680" "unat off + ?n \<le> BSIZE * N" using assms(4,5) N by linarith+
  have un: "unat (of_nat ?n :: u32) = ?n" using b(1) by (simp add: unat_of_nat)
  have uz: "unat ?z \<le> 71680" using assms(5) N by linarith
  have uo: "unat (off + of_nat ?n) = unat off + ?n"
    using b N by (subst unat_add_lem [THEN iffD1]) (simp_all add: un)
  have le: "\<not> off > ?z" "\<not> off + of_nat ?n < off" "\<not> off + of_nat ?n > ?z" "\<not> off + of_nat ?n > 71680"
    using assms(4) uo uz by (simp_all add: word_less_nat_alt)
  have sn: "sint (of_nat ?n :: u32) = int ?n" using b(1) by (intro sint_of_nat_small) simp
  from writei_loop_ok [OF assms(1,2) b(2)] obtain t where
    t: "writei_loop ip (unat off) src s = Ret () t" "tx {} l t" "fs_core t = fs_core s" "fmapped t ip N"
      "\<forall>i < BSIZE * N. fbyte t ip i = (if unat off \<le> i \<and> i < unat off + ?n then src ! (i - unat off) else fbyte s ip i)"
      "\<forall>k. k \<notin> Pair 1 ` faddr s ip ` {..<N} \<longrightarrow> view t k = view s k" by (elim exE conjE)
  have it: "iat ip t = iat ip s" by (rule fs_core_fields(11) [OF t(3)])
  have w: "writei ip src off s = Ret (int ?n) t" using assms(3) le t(1) sn by (simp add: writei_def Let_def it)
  from readi_loop_ok [OF t(2,4) b(2), of "[]"] obtain u where
    u: "readi_loop ip (unat off) ?n [] t = Ret (map (fbyte t ip) [unat off..<unat off + ?n]) u" "tx {} l u"
      "view u = view t" "fs_core u = fs_core t" by auto
  have "map (fbyte t ip) [unat off..<unat off + ?n] = src"
    using t(5) b(2) by (intro nth_equalityI) auto
  then have r: "readi ip off (of_nat ?n) t = Ret (int ?n, src) u"
    using assms(3) le u(1) sn un by (simp add: readi_def Let_def it)
  have fb: "fbyte u = fbyte t" by (rule fmapped_cong [OF u(4,3)])
  have "disk u = disk s" using fs_core_fields(1) [OF u(4)] fs_core_fields(1) [OF t(3)] by simp
  then show ?thesis using w r u(2,3) t(5,6) fb by (intro exI [of _ t] exI [of _ u]) auto
qed

definition sample_inode :: inode where
  "sample_inode = \<lparr>i_dev = 1, i_inum = 5, i_ref = 1, i_lock = initsleeplock ''inode'', i_valid = True,
     i_d = \<lparr>di_type = 2, di_major = 0, di_minor = 0, di_nlink = 1, di_size = 1000,
       di_addrs = [70, 71] @ replicate 11 0\<rparr>\<rparr>"

theorem writei_readi_witness:
  "\<exists>t u. writei 0 [104, 105] 511 (clean_fs small_disk small_sb [sample_inode]) = Ret 2 t \<and>
     readi 0 511 2 t = Ret (2, [104, 105]) u \<and> fbyte u 0 513 = 0"
proof -
  let ?s = "clean_fs small_disk small_sb [sample_inode]"
  have tx: "tx {} (10 + blocks_touched (unat (511 :: u32)) (length [104, 105 :: u8])) ?s"
    by (rule tx_mono [OF clean_fs_tx]) (simp add: blocks_touched_def)
  have a: "addr_at 0 k ?s = (if k = 0 then 70 else 71)" if "k < 2" for k
    using that by (auto simp: addr_at_def iat_def sample_inode_def less_2_cases_iff)
  have f: "faddr ?s 0 k = (if k = 0 then 70 else 71)" if "k < 2" for k using a that by (simp add: faddr_def)
  have dev: "i_dev (iat 0 ?s) = 1" by (simp add: iat_def sample_inode_def)
  have m: "fmapped ?s 0 2"
    using dev by (auto simp: fmapped_def f inj_on_def small_disk_def less_2_cases_iff split: if_splits)
  have i: "i_d (iat 0 ?s) = i_d sample_inode" by (simp add: iat_def)
  from writei_readi [OF tx m, unfolded i] obtain t u where
    "writei 0 [104, 105] 511 ?s = Ret 2 t" "readi 0 511 2 t = Ret (2, [104, 105]) u"
    "fbyte u 0 513 = fbyte ?s 0 513" by (auto simp: sample_inode_def)
  moreover have "fbyte ?s 0 513 = 0" by (simp add: fbyte_def f small_disk_def)
  ultimately show ?thesis by auto
qed

end
