(* ===== verification/Pipe.thy ===== *)
theory Pipe
  imports Ring
begin

section \<open>Pipes: pipe.c\<close>

text \<open>
  A pipe is the record of its data area, its two running indices and its two open flags; its
  spin lock is held over every slice of code modelled here as one step. \<open>pipewrite\<close> and
  \<open>piperead\<close> may go to sleep: their result then says so, and what is still to be done when
  they are woken. \<open>pipe_step\<close> is the interleaving of one writer and one reader, in slices
  from entry or wakeup to return or sleep. The array is shown to be a queue of at most 512
  bytes (interface \<open>fifo\<close>), across the wrap-around of the indices at \<open>2^32\<close>.
\<close>

record pipe =
  data :: "u8 list"
  nread :: u32
  nwrite :: u32
  readopen :: bool
  writeopen :: bool

abbreviation "PIPESIZE \<equiv> 512 :: u32"

text \<open>The channels that \<open>wakeup\<close> is called on.\<close>

datatype pchan = Nread | Nwrite

definition pipe_init :: "u8 list \<Rightarrow> pipe" where
  "pipe_init d = \<lparr>data = d, nread = 0, nwrite = 0, readopen = True, writeopen = True\<rparr>"

definition pipe_full :: "pipe \<Rightarrow> bool" where
  "pipe_full p \<longleftrightarrow> nwrite p = nread p + PIPESIZE"

definition pipe_put :: "u8 \<Rightarrow> pipe \<Rightarrow> pipe" where
  "pipe_put b p = p\<lparr>data := (data p)[unat (nwrite p) mod 512 := b], nwrite := nwrite p + 1\<rparr>"

definition pipe_get :: "pipe \<Rightarrow> u8 \<times> pipe" where
  "pipe_get p = (data p ! (unat (nread p) mod 512), p\<lparr>nread := nread p + 1\<rparr>)"

text \<open>How a slice of \<open>pipewrite\<close> ends: all written, -1, or asleep with bytes left to write.\<close>

datatype pw = PwDone | PwFail | PwSleep "u8 list"

fun pipewrite :: "bool \<Rightarrow> u8 list \<Rightarrow> pipe \<Rightarrow> pw \<times> pchan list \<times> pipe" where
  "pipewrite killed [] p = (PwDone, [Nread], p)"
| "pipewrite killed (b # bs) p =
     (if pipe_full p then
        if \<not> readopen p \<or> killed then (PwFail, [], p)
        else (PwSleep (b # bs), [Nread], p)
      else pipewrite killed bs (pipe_put b p))"

fun piperead_copy :: "nat \<Rightarrow> pipe \<Rightarrow> u8 list \<times> pipe" where
  "piperead_copy 0 p = ([], p)"
| "piperead_copy (Suc n) p =
     (if nread p = nwrite p then ([], p)
      else let (b, p1) = pipe_get p; (bs, p2) = piperead_copy n p1 in (b # bs, p2))"

datatype pr = PrDone "u8 list" | PrFail | PrSleep

definition piperead :: "bool \<Rightarrow> nat \<Rightarrow> pipe \<Rightarrow> pr \<times> pchan list \<times> pipe" where
  "piperead killed n p =
     (if nread p = nwrite p \<and> writeopen p then
        if killed then (PrFail, [], p) else (PrSleep, [], p)
      else let (bs, p1) = piperead_copy n p in (PrDone bs, [Nwrite], p1))"

text \<open>The flag of the result says that the page of the pipe is freed.\<close>

definition pipeclose :: "bool \<Rightarrow> pipe \<Rightarrow> bool \<times> pchan list \<times> pipe" where
  "pipeclose writable p =
     (let (ch, p1) = (if writable then ([Nread], p\<lparr>writeopen := False\<rparr>)
                      else ([Nwrite], p\<lparr>readopen := False\<rparr>))
      in (\<not> readopen p1 \<and> \<not> writeopen p1, ch, p1))"

subsection \<open>The buffer is a queue\<close>

definition pipe_inv :: "pipe \<Rightarrow> bool" where
  "pipe_inv p \<longleftrightarrow> length (data p) = 512 \<and> unat (nwrite p - nread p) \<le> 512"

definition pipe_contents :: "pipe \<Rightarrow> u8 list" where
  "pipe_contents p = ring (data p) (nread p) (nwrite p)"

lemma pipe_full_iff: "pipe_inv p \<Longrightarrow> pipe_full p \<longleftrightarrow> length (pipe_contents p) = 512"
proof -
  have "nwrite p = nread p + 512 \<longleftrightarrow> nwrite p - nread p = 512" by (auto simp: algebra_simps)
  then show ?thesis by (simp add: pipe_full_def pipe_contents_def word_unat_eq_iff)
qed

interpretation pq: fifo pipe_inv pipe_contents 512 pipe_put pipe_get
proof
  fix p a
  assume "pipe_inv p" "length (pipe_contents p) < 512"
  then show "pipe_inv (pipe_put a p) \<and> pipe_contents (pipe_put a p) = pipe_contents p @ [a]"
    using ring_put [of "data p" 512 "nwrite p" "nread p" a]
      unat_diff_Suc [of "nwrite p" "nread p"]
    by (simp add: pipe_inv_def pipe_contents_def pipe_put_def)
next
  fix p
  assume p: "pipe_inv p" "pipe_contents p \<noteq> []"
  then have r: "pipe_contents p = fst (pipe_get p) # pipe_contents (snd (pipe_get p))"
    using ring_get [of "data p" 512 "nread p" "nwrite p"]
    by (simp add: pipe_inv_def pipe_contents_def pipe_get_def ring_empty_iff)
  from arg_cong [OF this, of length] p(1) r
  show "pipe_inv (snd (pipe_get p)) \<and> pipe_contents p = fst (pipe_get p) # pipe_contents (snd (pipe_get p))"
    by (simp add: pipe_inv_def pipe_contents_def pipe_get_def)
qed

lemma pipe_put_simps [simp]:
  "readopen (pipe_put b p) = readopen p" "writeopen (pipe_put b p) = writeopen p"
  "nread (pipe_put b p) = nread p"
  by (simp_all add: pipe_put_def)

text \<open>What one slice of \<open>pipewrite\<close> does: it writes a prefix of the bytes.\<close>

lemma pipewrite_spec:
  assumes "pipe_inv p" and "pipewrite killed bs p = (r, ch, q)"
  shows "\<exists>xs ys. bs = xs @ ys \<and> pq.run p xs [] q \<and> readopen q = readopen p \<and> writeopen q = writeopen p \<and>
    (r = PwDone \<and> ys = [] \<and> ch = [Nread] \<or>
     r = PwFail \<and> ys \<noteq> [] \<and> pipe_full q \<and> (\<not> readopen p \<or> killed) \<and> ch = [] \<or>
     r = PwSleep ys \<and> ys \<noteq> [] \<and> pipe_full q \<and> readopen p \<and> \<not> killed \<and> ch = [Nread])"
  using assms
proof (induction bs arbitrary: p)
  case Nil
  then show ?case by (auto intro: pq.r_init)
next
  case (Cons b bs)
  show ?case
  proof (cases "pipe_full p")
    case True
    show ?thesis
      by (rule exI [of _ "[]"], rule exI [of _ "b # bs"])
         (use True Cons.prems in \<open>auto intro: pq.r_init split: if_splits\<close>)
  next
    case False
    then have room: "length (pipe_contents p) < 512"
      using Cons.prems(1) pipe_full_iff [of p] by (simp add: pipe_inv_def pipe_contents_def)
    have "pipe_inv (pipe_put b p)" using pq.put_ok [OF Cons.prems(1) room] by simp
    from Cons.IH [OF this] Cons.prems(2) False obtain xs ys where
      x: "bs = xs @ ys" "pq.run (pipe_put b p) xs [] q" "readopen q = readopen p" "writeopen q = writeopen p"
        "r = PwDone \<and> ys = [] \<and> ch = [Nread] \<or>
         r = PwFail \<and> ys \<noteq> [] \<and> pipe_full q \<and> (\<not> readopen p \<or> killed) \<and> ch = [] \<or>
         r = PwSleep ys \<and> ys \<noteq> [] \<and> pipe_full q \<and> readopen p \<and> \<not> killed \<and> ch = [Nread]"
      by auto
    have "pq.run p [b] [] (pipe_put b p)" using pq.r_put [OF pq.r_init room, of b] by simp
    from pq.run_trans [OF this x(2)] have "pq.run p (b # xs) [] q" by simp
    then show ?thesis using x by (intro exI [of _ "b # xs"] exI [of _ ys]) auto
  qed
qed

lemma piperead_copy_spec:
  assumes "pipe_inv p" and "piperead_copy n p = (bs, q)"
  shows "bs = take n (pipe_contents p) \<and> pq.run p [] bs q \<and> readopen q = readopen p \<and> writeopen q = writeopen p"
  using assms
proof (induction n arbitrary: p bs)
  case (Suc n)
  show ?case
  proof (cases "nread p = nwrite p")
    case True
    then have "pipe_contents p = []" by (simp add: pipe_contents_def ring_empty_iff)
    then show ?thesis using Suc.prems True by (auto intro: pq.r_init)
  next
    case False
    then have ne: "pipe_contents p \<noteq> []" by (simp add: pipe_contents_def ring_empty_iff)
    obtain b p1 where g: "pipe_get p = (b, p1)" by (cases "pipe_get p")
    obtain cs where cs: "piperead_copy n p1 = (cs, q)" "bs = b # cs"
      using Suc.prems(2) False g by (auto split: prod.splits)
    have p1: "pipe_inv p1" "pipe_contents p = b # pipe_contents p1"
      using pq.get_ok [OF Suc.prems(1) ne] g by auto
    have "pq.run p [] [b] p1" using pq.r_get [OF pq.r_init ne] g by simp
    moreover have "pq.run p1 [] cs q" using Suc.IH [OF p1(1) cs(1)] by blast
    ultimately have "pq.run p [] bs q" using pq.run_trans [of p "[]" "[b]" p1 "[]" cs q] cs(2) by simp
    moreover have "readopen p1 = readopen p" "writeopen p1 = writeopen p"
      using g by (auto simp: pipe_get_def)
    ultimately show ?thesis
      using Suc.IH [OF p1(1) cs(1)] p1(2) cs(2) by auto
  qed
qed (auto intro: pq.r_init)

subsection \<open>A writer and a reader\<close>

text \<open>
  A process is outside the pipe code, asleep in it, or woken and about to go on. \<open>wlog\<close> is
  the list of bytes accepted from the writer so far, \<open>rlog\<close> of those given to the reader;
  no step depends on them.
\<close>

datatype wproc = WIdle | WAsleep "u8 list" | WReady "u8 list"
datatype rproc = RIdle | RAsleep nat | RReady nat

record psys =
  pp :: pipe
  wst :: wproc
  rst :: rproc
  wlog :: "u8 list"
  rlog :: "u8 list"

fun wake_w :: "wproc \<Rightarrow> wproc" where
  "wake_w (WAsleep bs) = WReady bs" | "wake_w w = w"

fun wake_r :: "rproc \<Rightarrow> rproc" where
  "wake_r (RAsleep n) = RReady n" | "wake_r r = r"

definition wakeups :: "pchan list \<Rightarrow> psys \<Rightarrow> psys" where
  "wakeups ch s = s\<lparr>rst := (if Nread \<in> set ch then wake_r (rst s) else rst s),
                     wst := (if Nwrite \<in> set ch then wake_w (wst s) else wst s)\<rparr>"

definition w_slice :: "bool \<Rightarrow> u8 list \<Rightarrow> psys \<Rightarrow> psys" where
  "w_slice killed bs s =
     (let (r, ch, p) = pipewrite killed bs (pp s)
      in wakeups ch (s\<lparr>pp := p,
           wst := (case r of PwSleep ys \<Rightarrow> WAsleep ys | _ \<Rightarrow> WIdle),
           wlog := wlog s @ take (unat (nwrite p - nwrite (pp s))) bs\<rparr>))"

definition r_slice :: "bool \<Rightarrow> nat \<Rightarrow> psys \<Rightarrow> psys" where
  "r_slice killed n s =
     (let (r, ch, p) = piperead killed n (pp s)
      in wakeups ch (s\<lparr>pp := p,
           rst := (case r of PrSleep \<Rightarrow> RAsleep n | _ \<Rightarrow> RIdle),
           rlog := rlog s @ (case r of PrDone bs \<Rightarrow> bs | _ \<Rightarrow> [])\<rparr>))"

inductive pipe_step :: "bool \<Rightarrow> psys \<Rightarrow> psys \<Rightarrow> bool" for killed where
  p_write: "wst s = WIdle \<Longrightarrow> writeopen (pp s) \<Longrightarrow> pipe_step killed s (w_slice killed bs s)"
| p_rewrite: "wst s = WReady bs \<Longrightarrow> pipe_step killed s (w_slice killed bs s)"
| p_read: "rst s = RIdle \<Longrightarrow> readopen (pp s) \<Longrightarrow> pipe_step killed s (r_slice killed n s)"
| p_reread: "rst s = RReady n \<Longrightarrow> pipe_step killed s (r_slice killed n s)"
| p_close_w: "wst s = WIdle \<Longrightarrow> pipeclose True (pp s) = (fr, ch, p) \<Longrightarrow>
     pipe_step killed s (wakeups ch (s\<lparr>pp := p\<rparr>))"
| p_close_r: "rst s = RIdle \<Longrightarrow> pipeclose False (pp s) = (fr, ch, p) \<Longrightarrow>
     pipe_step killed s (wakeups ch (s\<lparr>pp := p\<rparr>))"

definition pipe_start :: "psys \<Rightarrow> bool" where
  "pipe_start s \<longleftrightarrow> (\<exists>d. length d = 512 \<and> pp s = pipe_init d) \<and>
     wst s = WIdle \<and> rst s = RIdle \<and> wlog s = [] \<and> rlog s = []"

text \<open>
  The bytes in the pipe are those written and not yet read; who sleeps has a reason to, as
  long as the writer is not killed.
\<close>

definition ps_inv :: "bool \<Rightarrow> psys \<Rightarrow> bool" where
  "ps_inv killed s \<longleftrightarrow> pipe_inv (pp s) \<and> wlog s = rlog s @ pipe_contents (pp s) \<and>
     (rst s \<noteq> RIdle \<longrightarrow> readopen (pp s)) \<and> (wst s \<noteq> WIdle \<longrightarrow> writeopen (pp s)) \<and>
     (\<not> killed \<longrightarrow>
       (\<forall>n. rst s = RAsleep n \<longrightarrow> pipe_contents (pp s) = [] \<and> writeopen (pp s)) \<and>
       (\<forall>ys. wst s = WAsleep ys \<longrightarrow> length (pipe_contents (pp s)) = 512 \<and> readopen (pp s)))"

lemma run_nwrite: "pq.run p ws rs q \<Longrightarrow> nwrite q = nwrite p + of_nat (length ws)"
  by (induction rule: pq.run.induct) (auto simp: pipe_put_def pipe_get_def)

lemma wake_simps [simp]:
  "wake_r r \<noteq> RAsleep n" "wake_w w \<noteq> WAsleep ys" "wake_r r = RIdle \<longleftrightarrow> r = RIdle" "wake_w w = WIdle \<longleftrightarrow> w = WIdle"
  by (cases r; cases w; simp)+

lemma w_slice_inv:
  assumes "ps_inv killed s" "\<And>ys. wst s \<noteq> WAsleep ys" "writeopen (pp s)"
  shows "ps_inv killed (w_slice killed bs s)"
proof -
  obtain r ch q where w: "pipewrite killed bs (pp s) = (r, ch, q)" by (cases "pipewrite killed bs (pp s)")
  have inv: "pipe_inv (pp s)" using assms(1) by (simp add: ps_inv_def)
  from pipewrite_spec [OF inv w] obtain xs ys where
    x: "bs = xs @ ys" "pq.run (pp s) xs [] q" "readopen q = readopen (pp s)" "writeopen q = writeopen (pp s)"
      "r = PwDone \<and> ys = [] \<and> ch = [Nread] \<or>
       r = PwFail \<and> ys \<noteq> [] \<and> pipe_full q \<and> (\<not> readopen (pp s) \<or> killed) \<and> ch = [] \<or>
       r = PwSleep ys \<and> ys \<noteq> [] \<and> pipe_full q \<and> readopen (pp s) \<and> \<not> killed \<and> ch = [Nread]"
    by blast
  have q: "pipe_inv q" "pipe_contents (pp s) @ xs = pipe_contents q"
    using pq.run_fifo [OF x(2) inv] by simp_all
  then have "length xs \<le> 512" by (auto simp: pipe_inv_def pipe_contents_def dest!: arg_cong [where f = length])
  then have t: "take (unat (nwrite q - nwrite (pp s))) bs = xs"
    using run_nwrite [OF x(2)] by (simp add: x(1) unat_of_nat)
  show ?thesis
    using assms q x(5) pipe_full_iff [OF q(1)] t
    by (auto simp: ps_inv_def w_slice_def w wakeups_def x(3,4) split: wproc.splits rproc.splits)
qed

lemma r_slice_inv:
  assumes "ps_inv killed s" "\<And>m. rst s \<noteq> RAsleep m" "readopen (pp s)"
  shows "ps_inv killed (r_slice killed n s)"
proof (cases "nread (pp s) = nwrite (pp s) \<and> writeopen (pp s)")
  case True
  then show ?thesis
    using assms
    by (auto simp: ps_inv_def r_slice_def piperead_def wakeups_def pipe_contents_def ring_empty_iff)
next
  case False
  obtain bs q where c: "piperead_copy n (pp s) = (bs, q)" by (cases "piperead_copy n (pp s)")
  have inv: "pipe_inv (pp s)" using assms(1) by (simp add: ps_inv_def)
  note x = piperead_copy_spec [OF inv c]
  then have "pipe_inv q" "pipe_contents (pp s) = bs @ pipe_contents q"
    using pq.run_fifo [of "pp s" "[]" bs q] inv by auto
  then show ?thesis
    using assms x False c
    by (auto simp: ps_inv_def r_slice_def piperead_def wakeups_def)
qed

lemma close_inv:
  assumes "ps_inv killed s" "pipeclose w (pp s) = (fr, ch, p)" "w \<Longrightarrow> wst s = WIdle" "\<not> w \<Longrightarrow> rst s = RIdle"
  shows "ps_inv killed (wakeups ch (s\<lparr>pp := p\<rparr>))"
  using assms
  by (cases w) (auto simp: ps_inv_def pipeclose_def wakeups_def pipe_inv_def pipe_contents_def)

lemma pipe_step_inv: "pipe_step killed s t \<Longrightarrow> ps_inv killed s \<Longrightarrow> ps_inv killed t"
proof (induction rule: pipe_step.induct)
  case (p_rewrite s bs)
  then have "writeopen (pp s)" by (simp add: ps_inv_def)
  with p_rewrite show ?case by (intro w_slice_inv) simp_all
next
  case (p_reread s n)
  then have "readopen (pp s)" by (simp add: ps_inv_def)
  with p_reread show ?case by (intro r_slice_inv) simp_all
qed (auto intro: w_slice_inv r_slice_inv close_inv)

lemma pipe_reachable_inv: "(pipe_step killed)\<^sup>*\<^sup>* s t \<Longrightarrow> pipe_start s \<Longrightarrow> ps_inv killed t"
proof (induction rule: rtranclp_induct)
  case base
  have "ring d 0 0 = []" for d :: "u8 list" by (simp add: ring_empty_iff)
  with base show ?case
    by (auto simp: pipe_start_def ps_inv_def pipe_inv_def pipe_init_def pipe_contents_def)
qed (auto intro: pipe_step_inv)

subsection \<open>Properties\<close>

text \<open>A fresh pipe, a reader that finds it empty, and a writer with one byte.\<close>

definition pdemo :: psys where
  "pdemo = \<lparr>pp = pipe_init (replicate 512 0), wst = WIdle, rst = RIdle, wlog = [], rlog = []\<rparr>"

lemma pdemo_start: "pipe_start pdemo"
  by (auto simp: pdemo_def pipe_start_def intro: exI [of _ "replicate 512 0"])

lemma pdemo_run: "(pipe_step False)\<^sup>*\<^sup>* pdemo (w_slice False [7] (r_slice False 3 pdemo))"
proof -
  have "pipe_step False pdemo (r_slice False 3 pdemo)"
    by (rule p_read) (simp_all add: pdemo_def pipe_init_def)
  moreover have "pipe_step False (r_slice False 3 pdemo) (w_slice False [7] (r_slice False 3 pdemo))"
    by (rule p_write) (simp_all add: pdemo_def pipe_init_def r_slice_def piperead_def wakeups_def)
  ultimately show ?thesis by simp
qed

text \<open>
  (C20) Pipes are FIFO and lossless: in every interleaving of a writer and a reader, killed or
  not, the bytes accepted from the writer are exactly those delivered to the reader followed
  by those in the buffer, of which there are never more than 512, also after the indices
  have wrapped around.
\<close>

theorem pipe_fifo:
  assumes "pipe_start s" and "(pipe_step killed)\<^sup>*\<^sup>* s t"
  shows "wlog t = rlog t @ pipe_contents (pp t) \<and> length (pipe_contents (pp t)) \<le> 512"
  using pipe_reachable_inv [OF assms(2,1)] by (simp add: ps_inv_def pipe_inv_def pipe_contents_def)

theorem pipe_fifo_witness:
  "wlog (w_slice False [7] (r_slice False 3 pdemo)) =
     rlog (w_slice False [7] (r_slice False 3 pdemo)) @
     pipe_contents (pp (w_slice False [7] (r_slice False 3 pdemo)))"
  using pipe_fifo [OF pdemo_start pdemo_run] by simp

text \<open>
  (C21) No lost wakeup and no deadlock: as long as nobody is killed, a sleeping reader finds the
  pipe empty with its write end open, a sleeping writer finds it full with its read end open,
  and hence the two are never asleep at the same time.
\<close>

theorem pipe_no_deadlock:
  assumes "pipe_start s" and "(pipe_step False)\<^sup>*\<^sup>* s t"
  shows "(\<forall>n. rst t = RAsleep n \<longrightarrow> nread (pp t) = nwrite (pp t) \<and> writeopen (pp t)) \<and>
    (\<forall>ys. wst t = WAsleep ys \<longrightarrow> pipe_full (pp t) \<and> readopen (pp t)) \<and>
    \<not> (\<exists>n ys. rst t = RAsleep n \<and> wst t = WAsleep ys)"
proof -
  have i: "ps_inv False t" by (rule pipe_reachable_inv [OF assms(2,1)])
  then have "pipe_full (pp t) \<longleftrightarrow> length (pipe_contents (pp t)) = 512"
    by (intro pipe_full_iff) (simp add: ps_inv_def)
  moreover have "pipe_contents (pp t) = [] \<longleftrightarrow> nread (pp t) = nwrite (pp t)"
    by (simp add: pipe_contents_def ring_empty_iff)
  ultimately show ?thesis using i by (auto simp: ps_inv_def)
qed

theorem pipe_no_deadlock_witness:
  "rst (r_slice False 3 pdemo) = RAsleep 3 \<and> nread (pp (r_slice False 3 pdemo)) = nwrite (pp (r_slice False 3 pdemo))"
proof -
  have e: "rst (r_slice False 3 pdemo) = RAsleep 3"
    by (simp add: pdemo_def pipe_init_def r_slice_def piperead_def wakeups_def)
  have "pipe_step False pdemo (r_slice False 3 pdemo)"
    by (rule p_read) (simp_all add: pdemo_def pipe_init_def)
  then have "(pipe_step False)\<^sup>*\<^sup>* pdemo (r_slice False 3 pdemo)" by simp
  from pipe_no_deadlock [OF pdemo_start this] e show ?thesis by blast
qed

text \<open>
  (C40) The killed writer is the exception: a writer with a pending kill that fills an empty pipe
  returns -1 without \<open>wakeup(&p->nread)\<close>, so a reader that went to sleep on the empty pipe
  sleeps on although the pipe is full.
\<close>

theorem pipe_killed_writer_no_wakeup:
  assumes "pipe_inv p" and "pipe_contents p = []" and "length bs > 512"
  shows "\<exists>q. pipewrite True bs p = (PwFail, [], q) \<and> pipe_contents q = take 512 bs"
proof -
  obtain r ch q where w: "pipewrite True bs p = (r, ch, q)" by (cases "pipewrite True bs p")
  from pipewrite_spec [OF assms(1) w] obtain xs ys where
    x: "bs = xs @ ys" "pq.run p xs [] q"
      "r = PwDone \<and> ys = [] \<or> r = PwFail \<and> pipe_full q \<and> ch = []" by auto
  have q: "pipe_inv q" "pipe_contents q = xs" using pq.run_fifo [OF x(2) assms(1)] assms(2) by simp_all
  then have "length xs \<le> 512" by (auto simp: pipe_inv_def pipe_contents_def)
  then have "ys \<noteq> []" using x(1) assms(3) by auto
  then have "r = PwFail" "pipe_full q" "ch = []" using x(3) by auto
  moreover have "length xs = 512" using pipe_full_iff [OF q(1)] q(2) \<open>pipe_full q\<close> by simp
  ultimately show ?thesis using w q(2) x(1) by simp
qed

theorem pipe_killed_writer_no_wakeup_witness:
  "\<exists>q. pipewrite True (replicate 600 1) (pipe_init (replicate 512 0)) = (PwFail, [], q) \<and>
     pipe_contents q = replicate 512 1"
  using pipe_killed_writer_no_wakeup [of "pipe_init (replicate 512 0)" "replicate 600 1"]
  by (simp add: pipe_inv_def pipe_init_def pipe_contents_def ring_empty_iff)

end
