(* ===== verification/Dir.thy ===== *)
theory Dir
  imports Fs Str
begin

section \<open>Directories and paths: fs.c\<close>

text \<open>
  A path is the list of its bytes before the NUL, a name is what \<open>skipelem\<close> puts into
  \<open>name[DIRSIZ]\<close>: at most 14 bytes, none of them NUL. A null inode pointer is \<open>None\<close>.
\<close>

abbreviation "DIRSIZ \<equiv> 14 :: nat"
abbreviation "DIRENT \<equiv> 16 :: nat"
abbreviation "SLASH \<equiv> 47 :: u8"
abbreviation "ROOTDEV \<equiv> 1 :: u32"
abbreviation "ROOTINO \<equiv> 1 :: u32"

definition cstring_of :: "u8 list \<Rightarrow> cstring" where
  "cstring_of xs = (\<lambda>i. if i < length xs then xs ! i else 0)"

definition namecmp :: "u8 list \<Rightarrow> u8 list \<Rightarrow> int" where
  "namecmp s t = strncmp (cstring_of s) (cstring_of t) DIRSIZ"

subsection \<open>Directory entries\<close>

definition de_inum :: "u8 list \<Rightarrow> u16" where
  "de_inum de = rd16 de 0"

definition de_name :: "u8 list \<Rightarrow> u8 list" where
  "de_name de = take DIRSIZ (drop 2 de)"

text \<open>The field \<open>name\<close> after \<open>strncpy(de.name, name, DIRSIZ)\<close>.\<close>

definition name_field :: "u8 list \<Rightarrow> u8 list" where
  "name_field name = take DIRSIZ (name @ replicate DIRSIZ 0)"

definition dirent_offsets :: "u32 \<Rightarrow> u32 list" where
  "dirent_offsets sz = map (\<lambda>k. of_nat (DIRENT * k)) [0..<(unat sz + 15) div DIRENT]"

fun dirlookup_loop :: "nat \<Rightarrow> u8 list \<Rightarrow> u32 list \<Rightarrow> fsys \<Rightarrow> ((nat \<times> u32) option, fsys) res" where
  "dirlookup_loop dp name [] s = Ret None s"
| "dirlookup_loop dp name (off # offs) s =
     bindr (readi dp off 16 s) (\<lambda>r s1.
       if fst r \<noteq> 16 then Panic ''dirlookup read''
       else let de = snd r
            in if de_inum de = 0 then dirlookup_loop dp name offs s1
               else if namecmp name (de_name de) = 0 then
                 bindr (iget (i_dev (iat dp s1)) (ucast (de_inum de)) s1) (\<lambda>ip s2. Ret (Some (ip, off)) s2)
               else dirlookup_loop dp name offs s1)"

definition dirlookup :: "nat \<Rightarrow> u8 list \<Rightarrow> fsys \<Rightarrow> ((nat \<times> u32) option, fsys) res" where
  "dirlookup dp name s =
     (if di_type (i_d (iat dp s)) \<noteq> T_DIR then Panic ''dirlookup not DIR''
      else dirlookup_loop dp name (dirent_offsets (di_size (i_d (iat dp s)))) s)"

text \<open>The offset of the first free entry, or that of the end of the directory.\<close>

fun dirlink_slot :: "nat \<Rightarrow> u32 list \<Rightarrow> fsys \<Rightarrow> (u32, fsys) res" where
  "dirlink_slot dp [] s = Ret (of_nat (DIRENT * ((unat (di_size (i_d (iat dp s))) + 15) div DIRENT))) s"
| "dirlink_slot dp (off # offs) s =
     bindr (readi dp off 16 s) (\<lambda>r s1.
       if fst r \<noteq> 16 then Panic ''dirlink read''
       else if de_inum (snd r) = 0 then Ret off s1
       else dirlink_slot dp offs s1)"

definition dirlink :: "nat \<Rightarrow> u8 list \<Rightarrow> u32 \<Rightarrow> fsys \<Rightarrow> (int, fsys) res" where
  "dirlink dp name inum s =
     bindr (dirlookup dp name s) (\<lambda>r s1.
       case r of
         Some (ip, _) \<Rightarrow> bindr (iput ip s1) (\<lambda>_ s2. Ret (-1) s2)
       | None \<Rightarrow>
           bindr (dirlink_slot dp (dirent_offsets (di_size (i_d (iat dp s1)))) s1) (\<lambda>off s2.
           bindr (writei dp (le16 (ucast inum) @ name_field name) off s2) (\<lambda>n s3.
             if n \<noteq> 16 then Panic ''dirlink'' else Ret 0 s3)))"

subsection \<open>Paths\<close>

definition skipelem :: "u8 list \<Rightarrow> (u8 list \<times> u8 list) option" where
  "skipelem path =
     (let p = dropWhile (\<lambda>c. c = SLASH) path
      in if p = [] then None
         else let elem = takeWhile (\<lambda>c. c \<noteq> SLASH) p;
                  rest = dropWhile (\<lambda>c. c \<noteq> SLASH) p
              in Some (take DIRSIZ elem, dropWhile (\<lambda>c. c = SLASH) rest))"

lemma skipelem_shorter: "skipelem path = Some (name, rest) \<Longrightarrow> length rest < length path"
proof -
  assume a: "skipelem path = Some (name, rest)"
  let ?p = "dropWhile (\<lambda>c. c = SLASH) path"
  have p: "?p \<noteq> []" "rest = dropWhile (\<lambda>c. c = SLASH) (dropWhile (\<lambda>c. c \<noteq> SLASH) ?p)"
    using a by (auto simp: skipelem_def Let_def split: if_splits)
  have hd: "hd ?p \<noteq> SLASH" using hd_dropWhile [OF p(1)] by simp
  have "length rest \<le> length (dropWhile (\<lambda>c. c \<noteq> SLASH) ?p)" using p(2) by (simp add: length_dropWhile_le)
  also have "\<dots> < length ?p"
    using p(1) hd by (cases ?p) (auto simp: length_dropWhile_le less_Suc_eq_le)
  also have "\<dots> \<le> length path" by (rule length_dropWhile_le)
  finally show ?thesis .
qed

function namex_loop :: "bool \<Rightarrow> nat \<Rightarrow> u8 list \<Rightarrow> u8 list \<Rightarrow> fsys \<Rightarrow> ((nat \<times> u8 list) option, fsys) res" where
  "namex_loop parent ip name path s =
     (case skipelem path of
        None \<Rightarrow>
          if parent then bindr (iput ip s) (\<lambda>_ s1. Ret None s1) else Ret (Some (ip, name)) s
      | Some (name1, rest) \<Rightarrow>
          bindr (ilock ip s) (\<lambda>_ s1.
            if di_type (i_d (iat ip s1)) \<noteq> T_DIR then bindr (iunlockput ip s1) (\<lambda>_ s2. Ret None s2)
            else if parent \<and> rest = [] then bindr (iunlock ip s1) (\<lambda>_ s2. Ret (Some (ip, name1)) s2)
            else bindr (dirlookup ip name1 s1) (\<lambda>r s2.
                   case r of
                     None \<Rightarrow> bindr (iunlockput ip s2) (\<lambda>_ s3. Ret None s3)
                   | Some (nxt, _) \<Rightarrow> bindr (iunlockput ip s2) (\<lambda>_ s3. namex_loop parent nxt name1 rest s3))))"
  by pat_completeness auto
termination
  by (relation "measure (\<lambda>(parent, ip, name, path, s). length path)") (auto dest: skipelem_shorter)

declare namex_loop.simps [simp del]

definition namex :: "nat \<Rightarrow> u8 list \<Rightarrow> bool \<Rightarrow> fsys \<Rightarrow> ((nat \<times> u8 list) option, fsys) res" where
  "namex cwd path parent s =
     bindr (case path of
              c # _ \<Rightarrow> if c = SLASH then iget ROOTDEV ROOTINO s else idup cwd s
            | [] \<Rightarrow> idup cwd s) (\<lambda>ip s1. namex_loop parent ip [] path s1)"

definition namei :: "nat \<Rightarrow> u8 list \<Rightarrow> fsys \<Rightarrow> (nat option, fsys) res" where
  "namei cwd path s = bindr (namex cwd path False s) (\<lambda>r s1. Ret (map_option fst r) s1)"

definition nameiparent :: "nat \<Rightarrow> u8 list \<Rightarrow> fsys \<Rightarrow> ((nat \<times> u8 list) option, fsys) res" where
  "nameiparent cwd path s = namex cwd path True s"

end
