(* ===== verification/Kernel.thy ===== *)
theory Kernel
  imports Vm Pipe Dir
begin

section \<open>The kernel state: proc.h, file.h, x86.h, wmap.h\<close>

text \<open>
  The kernel state extends the memory state \<open>mm\<close> by the file system, the open-file table,
  the pipes (by the kernel address of the page that holds the \<open>struct pipe\<close>), the process
  table and the tick counter. Pointers to table entries are indices, a null pointer is
  \<open>None\<close>. \<open>cur\<close> is the process that \<open>myproc()\<close> returns on the processor that executes the
  modelled code, and each function is one step of that process, from its call to its return
  or to the point where it gives up the processor. The saved kernel context and the stack
  contents are not modelled.

  A sleep channel is the address of some kernel object; \<open>chan\<close> names the objects that the
  modelled code sleeps on. Waiting for a lock or for log space inside the file system is the
  outcome \<open>Sleeps\<close> without a change of the process table.
\<close>

datatype procstate = UNUSED | EMBRYO | SLEEPING | RUNNABLE | RUNNING | ZOMBIE

datatype chan = ChProc nat | ChPipe u32 pchan | ChTicks | ChInput

record trapframe =
  tf_edi :: u32
  tf_esi :: u32
  tf_ebp :: u32
  tf_ebx :: u32
  tf_edx :: u32
  tf_ecx :: u32
  tf_eax :: u32
  tf_gs :: u16
  tf_fs :: u16
  tf_es :: u16
  tf_ds :: u16
  tf_trapno :: u32
  tf_err :: u32
  tf_eip :: u32
  tf_cs :: u16
  tf_eflags :: u32
  tf_esp :: u32
  tf_ss :: u16

abbreviation "MAX_WMMAP_INFO \<equiv> 16 :: nat"
abbreviation "NOFILE \<equiv> 16 :: nat"
abbreviation "NFILE \<equiv> 100 :: nat"
abbreviation "NPROC \<equiv> 64 :: nat"
abbreviation "VA_START \<equiv> 0x60000000 :: u32"
abbreviation "VA_END \<equiv> 0x80000000 :: u32"
abbreviation "MAP_SHARED \<equiv> 2 :: u32"
abbreviation "MAP_ANONYMOUS \<equiv> 4 :: u32"
abbreviation "MAP_FIXED \<equiv> 8 :: u32"

record wmap_data =
  w_total :: u32
  w_addr :: "u32 list"
  w_length :: "u32 list"
  w_loaded :: "u32 list"
  w_fd :: "int list"
  w_flags :: "u32 list"

record proc =
  p_sz :: u32
  p_pgdir :: u32
  p_kstack :: u32
  p_state :: procstate
  p_pid :: int
  p_parent :: "nat option"
  p_tf :: trapframe
  p_chan :: "chan option"
  p_killed :: bool
  p_ofile :: "nat option list"
  p_cwd :: "nat option"
  p_name :: "u8 list"
  p_wmap :: wmap_data

datatype ftype = FD_NONE | FD_PIPE | FD_INODE

record xfile =
  f_type :: ftype
  f_ref :: int
  f_readable :: bool
  f_writable :: bool
  f_pipe :: u32
  f_ip :: nat
  f_off :: u32

record kernel = mm +
  kfs :: fsys
  ftable :: "xfile list"
  pipes :: "u32 \<Rightarrow> pipe"
  ptable :: "proc list"
  initproc :: "nat option"
  nextpid :: int
  cur :: nat
  ticks :: u32

subsection \<open>Access to the tables\<close>

definition procat :: "nat \<Rightarrow> kernel \<Rightarrow> proc" where
  "procat i s = ptable s ! i"

definition set_proc :: "nat \<Rightarrow> proc \<Rightarrow> kernel \<Rightarrow> kernel" where
  "set_proc i p s = s\<lparr>ptable := (ptable s)[i := p]\<rparr>"

definition myproc :: "kernel \<Rightarrow> proc" where
  "myproc s = procat (cur s) s"

definition set_my :: "proc \<Rightarrow> kernel \<Rightarrow> kernel" where
  "set_my p s = set_proc (cur s) p s"

definition fileat :: "nat \<Rightarrow> kernel \<Rightarrow> xfile" where
  "fileat i s = ftable s ! i"

definition set_file :: "nat \<Rightarrow> xfile \<Rightarrow> kernel \<Rightarrow> kernel" where
  "set_file i f s = s\<lparr>ftable := (ftable s)[i := f]\<rparr>"

text \<open>A file-system operation run by the current process.\<close>

definition on_fs :: "(fsys \<Rightarrow> ('a, fsys) res) \<Rightarrow> kernel \<Rightarrow> ('a, kernel) res" where
  "on_fs f s =
     (case f ((kfs s)\<lparr>curpid := p_pid (myproc s), curkilled := p_killed (myproc s)\<rparr>) of
        Ret x t \<Rightarrow> Ret x (s\<lparr>kfs := t\<rparr>)
      | Sleeps t \<Rightarrow> Sleeps (s\<lparr>kfs := t\<rparr>)
      | Panic m \<Rightarrow> Panic m
      | Diverge \<Rightarrow> Diverge)"

text \<open>Text printed by \<open>cprintf\<close>, as its characters.\<close>

definition kputs :: "int list \<Rightarrow> kernel \<Rightarrow> (unit, kernel) res" where
  "kputs cs s = on_fs (on_cons (consputs cs)) s"

definition text_chars :: "string \<Rightarrow> int list" where
  "text_chars str = map of_char str"

subsection \<open>Wakeups\<close>

definition wakeup1 :: "chan \<Rightarrow> kernel \<Rightarrow> kernel" where
  "wakeup1 ch s =
     s\<lparr>ptable := map (\<lambda>p. if p_state p = SLEEPING \<and> p_chan p = Some ch then p\<lparr>p_state := RUNNABLE\<rparr> else p)
                     (ptable s)\<rparr>"

definition wakeup :: "chan \<Rightarrow> kernel \<Rightarrow> kernel" where
  "wakeup ch s = wakeup1 ch s"

text \<open>
  \<open>sleep\<close> up to the switch to the scheduler; \<open>resume\<close> is what it does when it runs again.
\<close>

definition ksleep :: "chan \<Rightarrow> kernel \<Rightarrow> ('a, kernel) res" where
  "ksleep ch s = Sleeps (set_my ((myproc s)\<lparr>p_chan := Some ch, p_state := SLEEPING\<rparr>) s)"

definition resume :: "kernel \<Rightarrow> kernel" where
  "resume s = set_my ((myproc s)\<lparr>p_chan := None\<rparr>) s"

fun pipe_wakeups :: "u32 \<Rightarrow> pchan list \<Rightarrow> kernel \<Rightarrow> kernel" where
  "pipe_wakeups p [] s = s"
| "pipe_wakeups p (c # cs) s = pipe_wakeups p cs (wakeup (ChPipe p c) s)"

end
