(* ===== verification/File.thy ===== *)
theory File
  imports Kernel
begin

section \<open>Open files: file.c, and the pipe ends of pipe.c\<close>

text \<open>
  The open-file table, its reference counts and the descriptors of a process. A descriptor
  is the index of the first null entry of \<open>ofile\<close>; -1 means failure. Reading and writing
  through a descriptor needs user memory and is in the theory \<open>Fileio\<close>.
\<close>

subsection \<open>The table\<close>

definition filealloc :: "kernel \<Rightarrow> nat option \<times> kernel" where
  "filealloc s =
     (case find (\<lambda>f. f_ref (fileat f s) = 0) [0..<NFILE] of
        None \<Rightarrow> (None, s)
      | Some f \<Rightarrow> (Some f, set_file f ((fileat f s)\<lparr>f_ref := 1\<rparr>) s))"

definition filedup :: "nat \<Rightarrow> kernel \<Rightarrow> (nat, kernel) res" where
  "filedup f s =
     (if f_ref (fileat f s) < 1 then Panic ''filedup''
      else Ret f (set_file f ((fileat f s)\<lparr>f_ref := f_ref (fileat f s) + 1\<rparr>) s))"

text \<open>\<open>pipeclose\<close> on the pipe in the page \<open>p\<close>.\<close>

definition kpipeclose :: "u32 \<Rightarrow> bool \<Rightarrow> kernel \<Rightarrow> (unit, kernel) res" where
  "kpipeclose p writable s =
     (let (freed, ch, q) = pipeclose writable (pipes s p);
          s1 = pipe_wakeups p ch (s\<lparr>pipes := (pipes s)(p := q)\<rparr>)
      in if freed then kfree p s1 else Ret () s1)"

text \<open>A file-system call in a transaction of its own.\<close>

definition in_op :: "(fsys \<Rightarrow> ('a, fsys) res) \<Rightarrow> fsys \<Rightarrow> ('a, fsys) res" where
  "in_op f s =
     bindr (begin_op s) (\<lambda>_ s1. bindr (f s1) (\<lambda>r s2. bindr (end_op s2) (\<lambda>_ s3. Ret r s3)))"

definition fileclose :: "nat \<Rightarrow> kernel \<Rightarrow> (unit, kernel) res" where
  "fileclose f s =
     (if f_ref (fileat f s) < 1 then Panic ''fileclose''
      else let r = f_ref (fileat f s) - 1
           in if r > 0 then Ret () (set_file f ((fileat f s)\<lparr>f_ref := r\<rparr>) s)
              else let ff = fileat f s;
                       s1 = set_file f (ff\<lparr>f_ref := 0, f_type := FD_NONE\<rparr>) s
                   in if f_type ff = FD_PIPE then kpipeclose (f_pipe ff) (f_writable ff) s1
                      else if f_type ff = FD_INODE then on_fs (in_op (iput (f_ip ff))) s1
                      else Ret () s1)"

definition filestat :: "nat \<Rightarrow> kernel \<Rightarrow> (stat option, kernel) res" where
  "filestat f s =
     (if f_type (fileat f s) = FD_INODE then
        on_fs (\<lambda>t. bindr (ilock (f_ip (fileat f s)) t) (\<lambda>_ t1.
                   let st = stati (f_ip (fileat f s)) t1
                   in bindr (iunlock (f_ip (fileat f s)) t1) (\<lambda>_ t2. Ret (Some st) t2))) s
      else Ret None s)"

subsection \<open>Pipe ends\<close>

text \<open>\<open>struct pipe\<close> has its data area after the spin lock of 52 bytes.\<close>

definition pipe_end :: "u32 \<Rightarrow> bool \<Rightarrow> xfile \<Rightarrow> xfile" where
  "pipe_end p w f = f\<lparr>f_type := FD_PIPE, f_readable := \<not> w, f_writable := w, f_pipe := p\<rparr>"

definition pipealloc :: "kernel \<Rightarrow> ((nat \<times> nat) option, kernel) res" where
  "pipealloc s =
     (case filealloc s of
        (None, s1) \<Rightarrow> Ret None s1
      | (Some f0, s1) \<Rightarrow>
          (case filealloc s1 of
             (None, s2) \<Rightarrow> bindr (fileclose f0 s2) (\<lambda>_ s3. Ret None s3)
           | (Some f1, s2) \<Rightarrow>
               let (p, s3) = kalloc s2
               in if p = 0 then
                    bindr (fileclose f0 s3) (\<lambda>_ s4. bindr (fileclose f1 s4) (\<lambda>_ s5. Ret None s5))
                  else let s4 = s3\<lparr>pipes := (pipes s3)(p := pipe_init (load_bytes (V2P p + 52) 512 s3))\<rparr>;
                           s5 = set_file f0 (pipe_end p False (fileat f0 s4)) s4;
                           s6 = set_file f1 (pipe_end p True (fileat f1 s5)) s5
                       in Ret (Some (f0, f1)) s6))"

subsection \<open>Descriptors\<close>

definition fdalloc :: "nat \<Rightarrow> kernel \<Rightarrow> int \<times> kernel" where
  "fdalloc f s =
     (case find (\<lambda>fd. p_ofile (myproc s) ! fd = None) [0..<NOFILE] of
        None \<Rightarrow> (-1, s)
      | Some fd \<Rightarrow> (int fd, set_my ((myproc s)\<lparr>p_ofile := (p_ofile (myproc s))[fd := Some f]\<rparr>) s))"

text \<open>
  \<open>dup\<close> of proc.c does not test the descriptor it is given: duplicating an entry that is null
  calls \<open>filedup(0)\<close>.
\<close>

definition dup :: "int \<Rightarrow> kernel \<Rightarrow> (int, kernel) res" where
  "dup fd s =
     (case p_ofile (myproc s) ! nat fd of
        None \<Rightarrow>
          if find (\<lambda>fd. p_ofile (myproc s) ! fd = None) [0..<NOFILE] = None then Ret (-1) s
          else Panic ''null dereference''
      | Some f \<Rightarrow>
          let (newfd, s1) = fdalloc f s
          in if newfd < 0 then Ret (-1) s1 else bindr (filedup f s1) (\<lambda>_ s2. Ret newfd s2))"

end
