(* ===== verification/Wmap.thy ===== *)
theory Wmap
  imports File
begin

section \<open>Lazy memory mappings and copy on write: proc.c\<close>

text \<open>
  The mappings of a process are five parallel arrays of 16 entries; an entry is in use when
  its address is not 0. Physical pages are allocated by the page-fault handler, which also
  resolves writes to copy-on-write pages. The processor runs with write protection on in
  kernel mode, so the kernel's own accesses to user addresses fault like those of user code:
  \<open>uload8\<close> and \<open>ustore8\<close> are such accesses. A fault in the kernel that the handler cannot
  resolve returns to the faulting instruction, which faults again, for ever: \<open>Diverge\<close>.

  The messages of \<open>dprintf\<close> have levels above \<open>DEBUG_LEVEL\<close> and are never printed, but their
  arguments are evaluated; the walk of proc.c thus reads through the page it failed to
  allocate. Reading or writing through a null pointer is \<open>Panic ''null dereference''\<close>.
\<close>

subsection \<open>The table of mappings\<close>

definition get_free_idx :: "kernel \<Rightarrow> int" where
  "get_free_idx s =
     (case find (\<lambda>i. w_addr (p_wmap (myproc s)) ! i = 0) [0..<MAX_WMMAP_INFO] of
        None \<Rightarrow> -1 | Some i \<Rightarrow> int i)"

definition set_wmap :: "wmap_data \<Rightarrow> kernel \<Rightarrow> kernel" where
  "set_wmap w s = set_my ((myproc s)\<lparr>p_wmap := w\<rparr>) s"

definition free_lazy_idx :: "nat \<Rightarrow> kernel \<Rightarrow> kernel" where
  "free_lazy_idx idx s =
     (let w = p_wmap (myproc s)
      in set_wmap (w\<lparr>w_addr := (w_addr w)[idx := 0], w_length := (w_length w)[idx := 0],
           w_loaded := (w_loaded w)[idx := 0], w_fd := (w_fd w)[idx := -1],
           w_flags := (w_flags w)[idx := -1], w_total := w_total w - 1\<rparr>) s)"

definition add_lazy_mapping :: "u32 \<Rightarrow> u32 \<Rightarrow> int \<Rightarrow> u32 \<Rightarrow> kernel \<Rightarrow> (int, kernel) res" where
  "add_lazy_mapping addr len fd flags s =
     (let idx = get_free_idx s
      in if idx = -1 then Ret (-1) s
         else bindr (if flags AND MAP_ANONYMOUS = 0 then dup fd s else Ret fd s) (\<lambda>fd1 s1.
                let i = nat idx; w = p_wmap (myproc s1)
                in Ret 0 (set_wmap (w\<lparr>w_addr := (w_addr w)[i := addr], w_length := (w_length w)[i := len],
                     w_loaded := (w_loaded w)[i := 0], w_fd := (w_fd w)[i := fd1],
                     w_flags := (w_flags w)[i := flags], w_total := w_total w + 1\<rparr>) s1)))"

definition in_mapping :: "wmap_data \<Rightarrow> u32 \<Rightarrow> nat \<Rightarrow> bool" where
  "in_mapping w addr i \<longleftrightarrow>
     (let start = w_addr w ! i in start > 0 \<and> addr \<ge> start \<and> addr < start + w_length w ! i)"

definition lazily_mapped_index :: "u32 \<Rightarrow> kernel \<Rightarrow> int" where
  "lazily_mapped_index addr s =
     (case find (in_mapping (p_wmap (myproc s)) addr) [0..<MAX_WMMAP_INFO] of
        None \<Rightarrow> -1 | Some i \<Rightarrow> int i)"

subsection \<open>Page faults\<close>

definition proc_walkpgdir :: "u32 \<Rightarrow> u32 \<Rightarrow> bool \<Rightarrow> kernel \<Rightarrow> (pteptr option, kernel) res" where
  "proc_walkpgdir pgdir va alloc s =
     (let pde = mem s (kfn pgdir) (unat (PDX va))
      in if has pde PTE_P then Ret (Some (kfn (P2V (PTE_ADDR pde)), unat (PTX va))) s
         else if \<not> alloc then Ret None s
         else let (pgtab, s1) = kalloc s
              in if pgtab = 0 then Panic ''null dereference''
                 else let s2 = set_page (kfn pgtab) (\<lambda>_. 0) s1;
                          s3 = set_word (kfn pgdir) (unat (PDX va)) (V2P pgtab OR PTE_P OR PTE_W OR PTE_U) s2
                      in Ret (Some (kfn pgtab, unat (PTX va))) s3)"

definition map_single_page :: "u32 \<Rightarrow> u32 \<Rightarrow> u32 \<Rightarrow> u32 \<Rightarrow> kernel \<Rightarrow> (int, kernel) res" where
  "map_single_page pgdir va pa perm s =
     bindr (proc_walkpgdir pgdir va True s) (\<lambda>r s1.
       case r of
         None \<Rightarrow> Panic ''null dereference''
       | Some pte \<Rightarrow> Ret 0 (increment_refcount pa (wr pte (pa OR perm OR PTE_P) s1)))"

text \<open>The file behind a mapping: \<open>ofile[fd]\<close>, with the index not checked.\<close>

definition mapped_file :: "nat \<Rightarrow> kernel \<Rightarrow> (nat, kernel) res" where
  "mapped_file idx s =
     (let fd = w_fd (p_wmap (myproc s)) ! idx
      in if fd < 0 \<or> fd \<ge> int NOFILE then Panic ''index out of bounds''
         else case p_ofile (myproc s) ! nat fd of
                None \<Rightarrow> Panic ''null dereference'' | Some f \<Rightarrow> Ret f s)"

text \<open>The bytes of the file for a page whose frame is at the kernel address \<open>m\<close>.\<close>

definition read_in :: "nat \<Rightarrow> u32 \<Rightarrow> u32 \<Rightarrow> kernel \<Rightarrow> (unit, kernel) res" where
  "read_in idx addr m s =
     (let w = p_wmap (myproc s);
          start_addr = w_addr w ! idx;
          offset = addr - start_addr;
          rem0 = start_addr + w_length w ! idx - addr;
          remaining = (if rem0 > PGSIZE then PGSIZE else rem0)
      in bindr (mapped_file idx s) (\<lambda>f s1.
         let ip = f_ip (fileat f s1)
         in bindr (on_fs begin_op s1) (\<lambda>_ s2.
            bindr (on_fs (ilock ip) s2) (\<lambda>_ s3.
            bindr (on_fs (readi ip offset remaining) s3) (\<lambda>rd s4.
            bindr (on_fs (iunlock ip) (store_bytes (V2P m) (snd rd) s4)) (\<lambda>_ s5. on_fs end_op s5))))))"

definition do_real_mapping :: "u32 \<Rightarrow> nat \<Rightarrow> kernel \<Rightarrow> (int, kernel) res" where
  "do_real_mapping addr idx s =
     (let (m, s1) = kalloc s
      in if m = 0 then Panic ''Kernel OOM!''
         else let s2 = set_page (kfn m) (\<lambda>_. 0) s1; aligned = PGROUNDDOWN addr
              in bindr (map_single_page (p_pgdir (myproc s2)) aligned (V2P m) (PTE_W OR PTE_U) s2) (\<lambda>r s3.
                   if r < 0 then Ret (-1) s3
                   else let w = p_wmap (myproc s3);
                            s4 = set_wmap (w\<lparr>w_loaded := (w_loaded w)[idx := w_loaded w ! idx + 1]\<rparr>) s3
                        in if w_flags w ! idx AND MAP_ANONYMOUS = 0
                           then bindr (read_in idx addr m s4) (\<lambda>_ s5. Ret 0 s5) else Ret 0 s4))"

definition do_copy_on_write :: "u32 \<Rightarrow> kernel \<Rightarrow> (int, kernel) res" where
  "do_copy_on_write addr s =
     (let pgdir = p_pgdir (myproc s)
      in bindr (proc_walkpgdir pgdir addr False s) (\<lambda>r s1.
           case r of
             None \<Rightarrow> Panic ''copyonwrite: pte should exist''
           | Some pte \<Rightarrow>
               let v = rd pte s1
               in if \<not> has v PTE_P then Panic ''copyonwrite: page not present''
                  else if \<not> has v PTE_COW then Ret (-1) s1
                  else let pa = PTE_ADDR v; flags = (PTE_FLAGS v AND NOT PTE_COW) OR PTE_W
                       in if getrefcount pa s1 = 1 then Ret 0 (wr pte (pa OR flags) s1)
                          else let (m, s2) = kalloc s1
                               in if m = 0 then Panic ''Kernel OOM!''
                                  else let s3 = set_page (kfn m) (mem s2 (pfn pa)) s2
                                       in bindr (map_single_page pgdir (PGROUNDDOWN addr) (V2P m) flags s3) (\<lambda>r s4.
                                            if r < 0 then bindr (kfree m s4) (\<lambda>_ s5. Ret (-1) s5)
                                            else Ret 0 (decrement_refcount pa s4))))"

text \<open>The \<open>T_PGFLT\<close> case of \<open>trap\<close> up to its test of \<open>success\<close>.\<close>

definition page_fault :: "u32 \<Rightarrow> kernel \<Rightarrow> (int, kernel) res" where
  "page_fault addr s =
     (if addr < VA_START then do_copy_on_write addr s
      else let idx = lazily_mapped_index addr s
           in if idx \<noteq> -1 then do_real_mapping addr (nat idx) s else Ret (-1) s)"

subsection \<open>Access to user memory from the kernel\<close>

definition user_pte :: "u32 \<Rightarrow> kernel \<Rightarrow> u32" where
  "user_pte va s =
     (case walkpgdir (p_pgdir (myproc s)) va False s of (None, _) \<Rightarrow> 0 | (Some pte, _) \<Rightarrow> rd pte s)"

definition user_pa :: "u32 \<Rightarrow> kernel \<Rightarrow> u32" where
  "user_pa va s = PTE_ADDR (user_pte va s) OR (va AND 0xFFF)"

definition uload8 :: "u32 \<Rightarrow> kernel \<Rightarrow> (u8, kernel) res" where
  "uload8 va s =
     (if has (user_pte va s) PTE_P then Ret (load8 (user_pa va s) s) s
      else bindr (page_fault va s) (\<lambda>r s1.
             if r = 0 \<and> has (user_pte va s1) PTE_P then Ret (load8 (user_pa va s1) s1) s1 else Diverge))"

definition ustore8 :: "u32 \<Rightarrow> u8 \<Rightarrow> kernel \<Rightarrow> (unit, kernel) res" where
  "ustore8 va b s =
     (if has (user_pte va s) PTE_P \<and> has (user_pte va s) PTE_W then Ret () (store8 (user_pa va s) b s)
      else bindr (page_fault va s) (\<lambda>r s1.
             if r = 0 \<and> has (user_pte va s1) PTE_P \<and> has (user_pte va s1) PTE_W
             then Ret () (store8 (user_pa va s1) b s1) else Diverge))"

fun uload_bytes :: "u32 \<Rightarrow> nat \<Rightarrow> kernel \<Rightarrow> (u8 list, kernel) res" where
  "uload_bytes va 0 s = Ret [] s"
| "uload_bytes va (Suc n) s =
     bindr (uload8 va s) (\<lambda>b s1. bindr (uload_bytes (va + 1) n s1) (\<lambda>bs s2. Ret (b # bs) s2))"

fun ustore_bytes :: "u32 \<Rightarrow> u8 list \<Rightarrow> kernel \<Rightarrow> (unit, kernel) res" where
  "ustore_bytes va [] s = Ret () s"
| "ustore_bytes va (b # bs) s = bindr (ustore8 va b s) (\<lambda>_ s1. ustore_bytes (va + 1) bs s1)"

subsection \<open>The system calls\<close>

abbreviation "FAILED \<equiv> -1 :: u32"

definition wmap :: "u32 \<Rightarrow> u32 \<Rightarrow> u32 \<Rightarrow> int \<Rightarrow> kernel \<Rightarrow> (u32, kernel) res" where
  "wmap addr len flags fd s =
     (if lazily_mapped_index addr s \<noteq> -1 then Ret FAILED s
      else bindr (add_lazy_mapping addr len fd flags s) (\<lambda>_ s1. Ret addr s1))"

text \<open>The write-back of one page at \<open>a\<close> of a file mapping.\<close>

definition write_back :: "nat \<Rightarrow> u32 \<Rightarrow> kernel \<Rightarrow> (unit, kernel) res" where
  "write_back idx a s =
     (let w = p_wmap (myproc s);
          start_addr = w_addr w ! idx;
          offset = a - start_addr;
          rem0 = start_addr + w_length w ! idx - a;
          remaining = (if rem0 > PGSIZE then PGSIZE else rem0)
      in bindr (mapped_file idx s) (\<lambda>f s1.
         let ip = f_ip (fileat f s1)
         in bindr (on_fs begin_op s1) (\<lambda>_ s2.
            bindr (on_fs (ilock ip) s2) (\<lambda>_ s3.
            bindr (uload_bytes a (unat remaining) s3) (\<lambda>bs s4.
            bindr (on_fs (writei ip bs offset) s4) (\<lambda>_ s5.
            bindr (on_fs (iunlock ip) s5) (\<lambda>_ s6. on_fs end_op s6)))))))"

definition unmap_page :: "nat \<Rightarrow> pteptr \<Rightarrow> u32 \<Rightarrow> kernel \<Rightarrow> (unit, kernel) res" where
  "unmap_page idx pte a s =
     (let pa = PTE_ADDR (rd pte s)
      in if pa = 0 then Panic ''kfree''
         else let s1 = decrement_refcount pa s
              in bindr (if w_flags (p_wmap (myproc s1)) ! idx AND MAP_ANONYMOUS = 0
                        then write_back idx a s1 else Ret () s1) (\<lambda>_ s2.
                 bindr (if getrefcount pa s2 = 0 then kfree (P2V pa) s2 else Ret () s2) (\<lambda>_ s3.
                 Ret () (wr pte 0 s3))))"

text \<open>The loop goes on with the same address when there is no page table for it.\<close>

fun wunmap_loop :: "nat \<Rightarrow> nat \<Rightarrow> u32 \<Rightarrow> kernel \<Rightarrow> (unit, kernel) res" where
  "wunmap_loop idx 0 a s = Ret () s"
| "wunmap_loop idx (Suc n) a s =
     bindr (proc_walkpgdir (p_pgdir (myproc s)) a False s) (\<lambda>r s1.
       case r of
         None \<Rightarrow> wunmap_loop idx n a s1
       | Some pte \<Rightarrow>
           bindr (if has (rd pte s1) PTE_P then unmap_page idx pte a s1 else Ret () s1) (\<lambda>_ s2.
             wunmap_loop idx n (a + PGSIZE) s2))"

text \<open>
  The number of iterations of \<open>while (n_pages--)\<close>, where \<open>length / PGSIZE\<close> is a signed division:
  a negative count would run down through all 32-bit values.
\<close>

definition wmap_pages :: "u32 \<Rightarrow> nat" where
  "wmap_pages len =
     (let n = (if sint len < 0 then - (- sint len div 4096) else sint len div 4096)
      in unat (of_int (if sint len mod 4096 \<noteq> 0 then n + 1 else n) :: u32))"

definition wunmap_handler :: "u32 \<Rightarrow> bool \<Rightarrow> kernel \<Rightarrow> (int, kernel) res" where
  "wunmap_handler addr freeidx s =
     (let idx = lazily_mapped_index addr s
      in if idx = -1 then Ret (-1) s
         else let i = nat idx
              in bindr (wunmap_loop i (wmap_pages (w_length (p_wmap (myproc s)) ! i)) addr s) (\<lambda>_ s1.
                   Ret 0 (if freeidx then free_lazy_idx i s1 else s1)))"

definition wunmap :: "u32 \<Rightarrow> kernel \<Rightarrow> (int, kernel) res" where
  "wunmap addr s = wunmap_handler addr True s"

definition va2pa :: "u32 \<Rightarrow> kernel \<Rightarrow> (u32, kernel) res" where
  "va2pa addr s =
     bindr (proc_walkpgdir (p_pgdir (myproc s)) addr False s) (\<lambda>r s1.
       case r of
         None \<Rightarrow> Ret FAILED s1
       | Some pte \<Rightarrow>
           if rd pte s1 = 0 \<or> \<not> has (rd pte s1) PTE_P then Ret FAILED s1
           else Ret (PTE_ADDR (rd pte s1) OR PTE_FLAGS addr) s1)"

text \<open>
  \<open>struct wmapinfo\<close> is \<open>total_mmaps\<close> and the arrays \<open>addr\<close>, \<open>length\<close> and \<open>n_loaded_pages\<close>, stored
  entry by entry with the total at the end.
\<close>

fun getwmapinfo_loop :: "u32 \<Rightarrow> wmap_data \<Rightarrow> nat list \<Rightarrow> kernel \<Rightarrow> (unit, kernel) res" where
  "getwmapinfo_loop ps w [] s = Ret () s"
| "getwmapinfo_loop ps w (i # is) s =
     bindr (ustore_bytes (ps + of_nat (4 + 4 * i)) (le32 (w_addr w ! i)) s) (\<lambda>_ s1.
     bindr (ustore_bytes (ps + of_nat (68 + 4 * i)) (le32 (w_length w ! i)) s1) (\<lambda>_ s2.
     bindr (ustore_bytes (ps + of_nat (132 + 4 * i)) (le32 (w_loaded w ! i)) s2) (\<lambda>_ s3.
       getwmapinfo_loop ps w is s3)))"

definition getwmapinfo :: "u32 \<Rightarrow> kernel \<Rightarrow> (int, kernel) res" where
  "getwmapinfo ps s =
     (let w = p_wmap (myproc s)
      in bindr (getwmapinfo_loop ps w [0..<MAX_WMMAP_INFO] s) (\<lambda>_ s1.
         bindr (ustore_bytes ps (le32 (w_total w)) s1) (\<lambda>_ s2. Ret 0 s2)))"

subsection \<open>Mappings at fork and exit\<close>

definition copywmapdata :: "nat \<Rightarrow> kernel \<Rightarrow> kernel" where
  "copywmapdata np s = set_proc np ((procat np s)\<lparr>p_wmap := p_wmap (myproc s)\<rparr>) s"

function copywmap_pages :: "u32 \<Rightarrow> u32 \<Rightarrow> u32 \<Rightarrow> kernel \<Rightarrow> (bool, kernel) res" where
  "copywmap_pages child va vend s =
     (if va < vend then
        bindr (proc_walkpgdir (p_pgdir (myproc s)) va False s) (\<lambda>r s1.
        bindr (case r of
                 None \<Rightarrow> Ret True s1
               | Some pte \<Rightarrow>
                   let v = rd pte s1
                   in if \<not> has v PTE_P then Panic ''copywmap: page not present''
                      else bindr (map_single_page child va (PTE_ADDR v) (PTE_FLAGS v) s1) (\<lambda>q s2.
                             if q < 0 then bindr (freevm child s2) (\<lambda>_ s3. Ret False s3) else Ret True s2))
          (\<lambda>ok s4. if \<not> ok then Ret False s4
                   else if va < va + PGSIZE then copywmap_pages child (va + PGSIZE) vend s4 else Diverge))
      else Ret True s)"
  by pat_completeness auto
termination
  by (relation "measure (\<lambda>(child, va, vend, s). unat vend - unat va)") (auto simp: word_less_nat_alt)

declare copywmap_pages.simps [simp del]

fun copywmap_loop :: "u32 \<Rightarrow> nat list \<Rightarrow> kernel \<Rightarrow> (u32, kernel) res" where
  "copywmap_loop child [] s = Ret child s"
| "copywmap_loop child (i # is) s =
     (let start = w_addr (p_wmap (myproc s)) ! i; len = w_length (p_wmap (myproc s)) ! i
      in if start > 0 then
           bindr (copywmap_pages child start (start + len) s) (\<lambda>ok s1.
             if ok then copywmap_loop child is s1 else Ret 0 s1)
         else copywmap_loop child is s)"

definition copywmap :: "u32 \<Rightarrow> kernel \<Rightarrow> (u32, kernel) res" where
  "copywmap child s = copywmap_loop child [0..<MAX_WMMAP_INFO] s"

fun freewmaps_loop :: "nat list \<Rightarrow> kernel \<Rightarrow> (unit, kernel) res" where
  "freewmaps_loop [] s = Ret () s"
| "freewmaps_loop (i # is) s =
     (let addr = w_addr (p_wmap (myproc s)) ! i
      in bindr (if addr > 0 then wunmap_handler addr False s else Ret 0 s) (\<lambda>_ s1. freewmaps_loop is s1))"

definition freewmaps :: "kernel \<Rightarrow> (unit, kernel) res" where
  "freewmaps s = freewmaps_loop [0..<MAX_WMMAP_INFO] s"

end
