(* ===== verification/Proc.thy ===== *)
theory Proc
  imports Wmap
begin

section \<open>Processes: proc.c\<close>

text \<open>
  The life cycle of processes. A kernel function that gives up the processor for good or until
  a wakeup ends with the outcome \<open>Sleeps\<close> in the state at that point; the scheduler then
  chooses the next process. The contents of kernel stacks, the saved contexts and the
  segment registers are not modelled. The program \<open>initcode\<close> of the first process is built
  by the assembler and is an argument of \<open>userinit\<close>.
\<close>

subsection \<open>Allocation\<close>

definition empty_wmap :: wmap_data where
  "empty_wmap = \<lparr>w_total = 0, w_addr = replicate MAX_WMMAP_INFO 0, w_length = replicate MAX_WMMAP_INFO 0,
     w_loaded = replicate MAX_WMMAP_INFO 0, w_fd = replicate MAX_WMMAP_INFO 0,
     w_flags = replicate MAX_WMMAP_INFO 0\<rparr>"

definition allocproc :: "kernel \<Rightarrow> nat option \<times> kernel" where
  "allocproc s =
     (case find (\<lambda>i. p_state (procat i s) = UNUSED) [0..<NPROC] of
        None \<Rightarrow> (None, s)
      | Some i \<Rightarrow>
          let s1 = set_proc i ((procat i s)\<lparr>p_state := EMBRYO, p_pid := nextpid s\<rparr>) (s\<lparr>nextpid := nextpid s + 1\<rparr>);
              (ks, s2) = kalloc s1
          in if ks = 0 then (None, set_proc i ((procat i s2)\<lparr>p_kstack := ks, p_state := UNUSED\<rparr>) s2)
             else (Some i, set_proc i ((procat i s2)\<lparr>p_kstack := ks, p_wmap := empty_wmap\<rparr>) s2))"

definition userinit :: "u8 list \<Rightarrow> kernel \<Rightarrow> (unit, kernel) res" where
  "userinit initcode s =
     (case allocproc s of
        (None, s1) \<Rightarrow> Panic ''null dereference''
      | (Some i, s1) \<Rightarrow>
          bindr (setupkvm (s1\<lparr>initproc := Some i\<rparr>)) (\<lambda>d s2.
            if d = 0 then Panic ''userinit: out of memory?''
            else bindr (inituvm d initcode (set_proc i ((procat i s2)\<lparr>p_pgdir := d\<rparr>) s2)) (\<lambda>_ s3.
                 bindr (on_fs (namei 0 [SLASH]) s3) (\<lambda>ip s4.
                   let tf = \<lparr>tf_edi = 0, tf_esi = 0, tf_ebp = 0, tf_ebx = 0, tf_edx = 0, tf_ecx = 0, tf_eax = 0,
                             tf_gs = 0, tf_fs = 0, tf_es = 0x23, tf_ds = 0x23, tf_trapno = 0, tf_err = 0,
                             tf_eip = 0, tf_cs = 0x1B, tf_eflags = 0x200, tf_esp = PGSIZE, tf_ss = 0x23\<rparr>
                   in Ret () (set_proc i ((procat i s4)\<lparr>p_sz := PGSIZE, p_tf := tf,
                                p_name := map of_char ''initcode'', p_cwd := ip, p_state := RUNNABLE\<rparr>) s4)))))"

definition switchuvm :: "proc \<Rightarrow> kernel \<Rightarrow> (unit, kernel) res" where
  "switchuvm p s =
     (if p_kstack p = 0 then Panic ''switchuvm: no kstack''
      else if p_pgdir p = 0 then Panic ''switchuvm: no pgdir''
      else Ret () s)"

definition growproc :: "u32 \<Rightarrow> kernel \<Rightarrow> (int, kernel) res" where
  "growproc n s =
     (let p = myproc s; sz = p_sz p
      in bindr (if sint n > 0 then allocuvm (p_pgdir p) sz (sz + n) s
                else if sint n < 0 then deallocuvm (p_pgdir p) sz (sz + n) s
                else Ret sz s) (\<lambda>sz1 s1.
           if sint n \<noteq> 0 \<and> sz1 = 0 then Ret (-1) s1
           else let s2 = set_my ((myproc s1)\<lparr>p_sz := sz1\<rparr>) s1
                in bindr (switchuvm (myproc s2) s2) (\<lambda>_ s3. Ret 0 s3)))"

subsection \<open>fork, exit and wait\<close>

definition fork_undo :: "nat \<Rightarrow> kernel \<Rightarrow> (int, kernel) res" where
  "fork_undo np s =
     bindr (kfree (p_kstack (procat np s)) s) (\<lambda>_ s1.
       Ret (-1) (set_proc np ((procat np s1)\<lparr>p_kstack := 0, p_state := UNUSED\<rparr>) s1))"

fun dup_files :: "nat \<Rightarrow> nat list \<Rightarrow> kernel \<Rightarrow> (unit, kernel) res" where
  "dup_files np [] s = Ret () s"
| "dup_files np (i # is) s =
     (case p_ofile (myproc s) ! i of
        None \<Rightarrow> dup_files np is s
      | Some f \<Rightarrow>
          bindr (filedup f s) (\<lambda>f1 s1.
            dup_files np is (set_proc np ((procat np s1)\<lparr>p_ofile := (p_ofile (procat np s1))[i := Some f1]\<rparr>) s1)))"

definition fork :: "kernel \<Rightarrow> (int, kernel) res" where
  "fork s =
     (case allocproc s of
        (None, s1) \<Rightarrow> Ret (-1) s1
      | (Some np, s1) \<Rightarrow>
          bindr (copyuvm (p_pgdir (myproc s1)) (p_sz (myproc s1)) s1) (\<lambda>d s2.
          let s3 = set_proc np ((procat np s2)\<lparr>p_pgdir := d\<rparr>) s2
          in if d = 0 then fork_undo np s3
             else bindr (copywmap d (copywmapdata np s3)) (\<lambda>d1 s4.
             let s5 = set_proc np ((procat np s4)\<lparr>p_pgdir := d1\<rparr>) s4
             in if d1 = 0 then fork_undo np s5
                else let me = myproc s5;
                         s6 = set_proc np ((procat np s5)\<lparr>p_sz := p_sz me, p_parent := Some (cur s5),
                                p_tf := (p_tf me)\<lparr>tf_eax := 0\<rparr>\<rparr>) s5
                     in bindr (dup_files np [0..<NOFILE] s6) (\<lambda>_ s7.
                        bindr (case p_cwd (myproc s7) of
                                 None \<Rightarrow> Panic ''null dereference'' | Some c \<Rightarrow> on_fs (idup c) s7) (\<lambda>c s8.
                          let s9 = set_proc np ((procat np s8)\<lparr>p_cwd := Some c,
                                     p_name := take 15 (p_name (myproc s8)), p_state := RUNNABLE\<rparr>) s8
                          in Ret (p_pid (procat np s9)) s9)))))"

fun close_files :: "nat list \<Rightarrow> kernel \<Rightarrow> (unit, kernel) res" where
  "close_files [] s = Ret () s"
| "close_files (fd # fds) s =
     (case p_ofile (myproc s) ! fd of
        None \<Rightarrow> close_files fds s
      | Some f \<Rightarrow>
          bindr (fileclose f s) (\<lambda>_ s1.
            close_files fds (set_my ((myproc s1)\<lparr>p_ofile := (p_ofile (myproc s1))[fd := None]\<rparr>) s1)))"

definition wake_parent :: "nat option \<Rightarrow> kernel \<Rightarrow> kernel" where
  "wake_parent p s = (case p of None \<Rightarrow> s | Some i \<Rightarrow> wakeup1 (ChProc i) s)"

fun reparent :: "nat list \<Rightarrow> kernel \<Rightarrow> kernel" where
  "reparent [] s = s"
| "reparent (i # is) s =
     (if p_parent (procat i s) = Some (cur s) then
        let s1 = set_proc i ((procat i s)\<lparr>p_parent := initproc s\<rparr>) s
        in reparent is (if p_state (procat i s1) = ZOMBIE then wake_parent (initproc s1) s1 else s1)
      else reparent is s)"

text \<open>\<open>sched\<close> switches to the scheduler; its tests of the locks are in the theory \<open>Locks\<close>.\<close>

definition sched :: "kernel \<Rightarrow> ('a, kernel) res" where
  "sched s = (if p_state (myproc s) = RUNNING then Panic ''sched running'' else Sleeps s)"

definition exit :: "kernel \<Rightarrow> ('a, kernel) res" where
  "exit s =
     (if initproc s = Some (cur s) then Panic ''init exiting''
      else bindr (freewmaps s) (\<lambda>_ s1.
           bindr (close_files [0..<NOFILE] s1) (\<lambda>_ s2.
           bindr (case p_cwd (myproc s2) of
                    None \<Rightarrow> Panic ''null dereference'' | Some c \<Rightarrow> on_fs (in_op (iput c)) s2) (\<lambda>_ s3.
           let s4 = set_my ((myproc s3)\<lparr>p_cwd := None\<rparr>) s3;
               s5 = wake_parent (p_parent (myproc s4)) s4;
               s6 = reparent [0..<NPROC] s5
           in sched (set_my ((myproc s6)\<lparr>p_state := ZOMBIE\<rparr>) s6)))))"

definition reap :: "nat \<Rightarrow> kernel \<Rightarrow> (int, kernel) res" where
  "reap i s =
     (let pid = p_pid (procat i s)
      in bindr (kfree (p_kstack (procat i s)) s) (\<lambda>_ s1.
         bindr (freevm (p_pgdir (procat i s1)) (set_proc i ((procat i s1)\<lparr>p_kstack := 0\<rparr>) s1)) (\<lambda>_ s2.
           Ret pid (set_proc i ((procat i s2)\<lparr>p_pid := 0, p_parent := None, p_name := [], p_killed := False,
                      p_state := UNUSED\<rparr>) s2))))"

fun wait_scan :: "bool \<Rightarrow> nat list \<Rightarrow> kernel \<Rightarrow> (int, kernel) res" where
  "wait_scan havekids [] s =
     (if \<not> havekids \<or> p_killed (myproc s) then Ret (-1) s else ksleep (ChProc (cur s)) s)"
| "wait_scan havekids (i # is) s =
     (if p_parent (procat i s) \<noteq> Some (cur s) then wait_scan havekids is s
      else if p_state (procat i s) = ZOMBIE then reap i s
      else wait_scan True is s)"

definition wait :: "kernel \<Rightarrow> (int, kernel) res" where
  "wait s = wait_scan False [0..<NPROC] s"

subsection \<open>Scheduling\<close>

text \<open>
  One visit of the scheduler loop to the entry \<open>i\<close>: the result says whether the processor was
  given to it. \<open>yield\<close> and \<open>sleep\<close> come back to the loop, which goes on with the next entry.
\<close>

definition scheduler_visit :: "nat \<Rightarrow> kernel \<Rightarrow> (bool, kernel) res" where
  "scheduler_visit i s =
     (if p_state (procat i s) \<noteq> RUNNABLE then Ret False s
      else bindr (switchuvm (procat i s) (s\<lparr>cur := i\<rparr>)) (\<lambda>_ s1.
             Ret True (set_proc i ((procat i s1)\<lparr>p_state := RUNNING\<rparr>) s1)))"

definition yield :: "kernel \<Rightarrow> (unit, kernel) res" where
  "yield s = sched (set_my ((myproc s)\<lparr>p_state := RUNNABLE\<rparr>) s)"

definition forkret :: "bool \<Rightarrow> kernel \<Rightarrow> (unit, kernel) res" where
  "forkret first s =
     (if first then bindr (on_fs (iinit ROOTDEV) s) (\<lambda>_ s1. on_fs (initlog ROOTDEV) s1) else Ret () s)"

definition kill :: "int \<Rightarrow> kernel \<Rightarrow> int \<times> kernel" where
  "kill pid s =
     (case find (\<lambda>i. p_pid (procat i s) = pid) [0..<NPROC] of
        None \<Rightarrow> (-1, s)
      | Some i \<Rightarrow>
          let p = procat i s
          in (0, set_proc i (p\<lparr>p_killed := True,
                   p_state := (if p_state p = SLEEPING then RUNNABLE else p_state p)\<rparr>) s))"

subsection \<open>The process listing\<close>

definition state_name :: "procstate \<Rightarrow> string" where
  "state_name st = (case st of UNUSED \<Rightarrow> ''unused'' | EMBRYO \<Rightarrow> ''embryo'' | SLEEPING \<Rightarrow> ''sleep ''
     | RUNNABLE \<Rightarrow> ''runble'' | RUNNING \<Rightarrow> ''run   '' | ZOMBIE \<Rightarrow> ''zombie'')"

text \<open>The return addresses that \<open>getcallerpcs\<close> finds on the stack of a process are an argument.\<close>

definition procdump_line :: "(nat \<Rightarrow> u32 list) \<Rightarrow> nat \<Rightarrow> kernel \<Rightarrow> int list" where
  "procdump_line callerpcs i s =
     (let p = procat i s
      in if p_state p = UNUSED then []
         else printint (of_int (p_pid p)) 10 True @ [32] @ text_chars (state_name (p_state p)) @ [32] @
              map sint (p_name p) @
              (if p_state p = SLEEPING
               then concat (map (\<lambda>pc. 32 # printint pc 16 False) (takeWhile (\<lambda>pc. pc \<noteq> 0) (take 10 (callerpcs i))))
               else []) @ [10])"

definition procdump :: "(nat \<Rightarrow> u32 list) \<Rightarrow> kernel \<Rightarrow> (unit, kernel) res" where
  "procdump callerpcs s = kputs (concat (map (\<lambda>i. procdump_line callerpcs i s) [0..<NPROC])) s"

end
