(* ===== verification/Fileio.thy ===== *)
theory Fileio
  imports Proc
begin

section \<open>Reading and writing open files, and system call arguments: file.c, pipe.c, syscall.c\<close>

text \<open>
  The calls that move bytes between a file and user memory. The bytes that a read returns are
  stored at the user address once \<open>readi\<close> or \<open>piperead\<close> has collected them, with the inode
  still locked; the bytes that a write transfers are loaded before \<open>writei\<close> or \<open>pipewrite\<close>.
\<close>

subsection \<open>Pipes\<close>

definition kpiperead :: "u32 \<Rightarrow> u32 \<Rightarrow> int \<Rightarrow> kernel \<Rightarrow> (int, kernel) res" where
  "kpiperead p addr n s =
     (let (r, ch, q) = piperead (p_killed (myproc s)) (nat n) (pipes s p);
          s1 = pipe_wakeups p ch (s\<lparr>pipes := (pipes s)(p := q)\<rparr>)
      in case r of
           PrFail \<Rightarrow> Ret (-1) s1
         | PrSleep \<Rightarrow> ksleep (ChPipe p Nread) s1
         | PrDone bs \<Rightarrow> bindr (ustore_bytes addr bs s1) (\<lambda>_ s2. Ret (int (length bs)) s2))"

definition kpipewrite :: "u32 \<Rightarrow> u32 \<Rightarrow> int \<Rightarrow> kernel \<Rightarrow> (int, kernel) res" where
  "kpipewrite p addr n s =
     bindr (uload_bytes addr (nat n) s) (\<lambda>bs s0.
       let (r, ch, q) = pipewrite (p_killed (myproc s0)) bs (pipes s0 p);
           s1 = pipe_wakeups p ch (s0\<lparr>pipes := (pipes s0)(p := q)\<rparr>)
       in case r of
            PwDone \<Rightarrow> Ret n s1
          | PwFail \<Rightarrow> Ret (-1) s1
          | PwSleep rest \<Rightarrow> ksleep (ChPipe p Nwrite) s1)"

subsection \<open>Files\<close>

definition advance :: "nat \<Rightarrow> int \<Rightarrow> kernel \<Rightarrow> kernel" where
  "advance f r s =
     (if r > 0 then set_file f ((fileat f s)\<lparr>f_off := f_off (fileat f s) + of_int r\<rparr>) s else s)"

definition fileread :: "nat \<Rightarrow> u32 \<Rightarrow> int \<Rightarrow> kernel \<Rightarrow> (int, kernel) res" where
  "fileread f addr n s =
     (let ff = fileat f s
      in if \<not> f_readable ff then Ret (-1) s
         else case f_type ff of
           FD_PIPE \<Rightarrow> kpiperead (f_pipe ff) addr n s
         | FD_INODE \<Rightarrow>
             bindr (on_fs (ilock (f_ip ff)) s) (\<lambda>_ s1.
             bindr (on_fs (readi (f_ip ff) (f_off (fileat f s1)) (of_int n)) s1) (\<lambda>r s2.
             bindr (ustore_bytes addr (snd r) s2) (\<lambda>_ s3.
             bindr (on_fs (iunlock (f_ip ff)) (advance f (fst r) s3)) (\<lambda>_ s4. Ret (fst r) s4))))
         | FD_NONE \<Rightarrow> Panic ''fileread'')"

abbreviation "WRITE_MAX \<equiv> 1536 :: nat"

text \<open>One transaction of \<open>filewrite\<close>: at most \<open>max\<close> bytes.\<close>

definition filewrite_chunk :: "nat \<Rightarrow> u32 \<Rightarrow> nat \<Rightarrow> kernel \<Rightarrow> (int, kernel) res" where
  "filewrite_chunk f addr n1 s =
     (let ip = f_ip (fileat f s)
      in bindr (on_fs begin_op s) (\<lambda>_ s1.
         bindr (on_fs (ilock ip) s1) (\<lambda>_ s2.
         bindr (uload_bytes addr n1 s2) (\<lambda>bs s3.
         bindr (on_fs (writei ip bs (f_off (fileat f s3))) s3) (\<lambda>r s4.
         bindr (on_fs (iunlock ip) (advance f r s4)) (\<lambda>_ s5.
         bindr (on_fs end_op s5) (\<lambda>_ s6. Ret r s6)))))))"

function filewrite_loop :: "nat \<Rightarrow> u32 \<Rightarrow> nat \<Rightarrow> kernel \<Rightarrow> (bool, kernel) res" where
  "filewrite_loop f addr n s =
     (if n = 0 then Ret True s
      else let n1 = min n WRITE_MAX
           in bindr (filewrite_chunk f addr n1 s) (\<lambda>r s1.
                if r < 0 then Ret False s1
                else if r \<noteq> int n1 then Panic ''short filewrite''
                else filewrite_loop f (addr + of_nat n1) (n - n1) s1))"
  by pat_completeness auto
termination by (relation "measure (\<lambda>(f, addr, n, s). n)") auto

declare filewrite_loop.simps [simp del]

definition filewrite :: "nat \<Rightarrow> u32 \<Rightarrow> int \<Rightarrow> kernel \<Rightarrow> (int, kernel) res" where
  "filewrite f addr n s =
     (let ff = fileat f s
      in if \<not> f_writable ff then Ret (-1) s
         else case f_type ff of
           FD_PIPE \<Rightarrow> kpipewrite (f_pipe ff) addr n s
         | FD_INODE \<Rightarrow>
             if n < 0 then Ret (-1) s
             else bindr (filewrite_loop f addr (nat n) s) (\<lambda>ok s1. Ret (if ok then n else -1) s1)
         | FD_NONE \<Rightarrow> Panic ''filewrite'')"

subsection \<open>System call arguments\<close>

definition fetchint :: "u32 \<Rightarrow> kernel \<Rightarrow> (u32 option, kernel) res" where
  "fetchint addr s =
     (let sz = p_sz (myproc s)
      in if addr \<ge> sz \<or> addr + 4 > sz then Ret None s
         else bindr (uload_bytes addr 4 s) (\<lambda>bs s1. Ret (Some (rd32 bs 0)) s1))"

fun fetchstr_loop :: "u32 \<Rightarrow> nat \<Rightarrow> u8 list \<Rightarrow> kernel \<Rightarrow> (u8 list option, kernel) res" where
  "fetchstr_loop va 0 acc s = Ret None s"
| "fetchstr_loop va (Suc n) acc s =
     bindr (uload8 va s) (\<lambda>b s1.
       if b = 0 then Ret (Some acc) s1 else fetchstr_loop (va + 1) n (acc @ [b]) s1)"

text \<open>The string itself stands for the pointer to it; its length is the returned number.\<close>

definition fetchstr :: "u32 \<Rightarrow> kernel \<Rightarrow> (u8 list option, kernel) res" where
  "fetchstr addr s =
     (let sz = p_sz (myproc s)
      in if addr \<ge> sz then Ret None s
         else fetchstr_loop addr (unat sz - unat addr) [] s)"

definition argint :: "nat \<Rightarrow> kernel \<Rightarrow> (u32 option, kernel) res" where
  "argint n s = fetchint (tf_esp (p_tf (myproc s)) + 4 + 4 * of_nat n) s"

definition argptr :: "nat \<Rightarrow> int \<Rightarrow> kernel \<Rightarrow> (u32 option, kernel) res" where
  "argptr n len s =
     bindr (argint n s) (\<lambda>r s1.
       case r of
         None \<Rightarrow> Ret None s1
       | Some i \<Rightarrow>
           let sz = p_sz (myproc s1)
           in if len < 0 \<or> i \<ge> sz \<or> i + of_int len > sz then Ret None s1 else Ret (Some i) s1)"

definition argstr :: "nat \<Rightarrow> kernel \<Rightarrow> (u8 list option, kernel) res" where
  "argstr n s =
     bindr (argint n s) (\<lambda>r s1. case r of None \<Rightarrow> Ret None s1 | Some addr \<Rightarrow> fetchstr addr s1)"

text \<open>Calls whose failure makes the system call return -1 at once.\<close>

definition need :: "('a option, kernel) res \<Rightarrow> ('a \<Rightarrow> kernel \<Rightarrow> (int, kernel) res) \<Rightarrow> (int, kernel) res" where
  "need r f = bindr r (\<lambda>x s. case x of None \<Rightarrow> Ret (-1) s | Some v \<Rightarrow> f v s)"

definition argfd :: "nat \<Rightarrow> kernel \<Rightarrow> ((nat \<times> nat) option, kernel) res" where
  "argfd n s =
     bindr (argint n s) (\<lambda>r s1.
       case r of
         None \<Rightarrow> Ret None s1
       | Some w \<Rightarrow>
           let fd = sint w
           in if fd < 0 \<or> fd \<ge> int NOFILE then Ret None s1
              else Ret (map_option (\<lambda>f. (nat fd, f)) (p_ofile (myproc s1) ! nat fd)) s1)"

end
