(* ===== verification/Exec.thy ===== *)
theory Exec
  imports Fileio
begin

section \<open>Program loading: exec.c, elf.h\<close>

text \<open>
  The argument strings are lists of bytes; the argument vector is the list of them. The label
  \<open>bad\<close> is \<open>exec_bad\<close>: it frees the new page table if there is one and releases the program's
  inode while it is still held.
\<close>

record proghdr =
  ph_type :: u32
  ph_off :: u32
  ph_vaddr :: u32
  ph_filesz :: u32
  ph_memsz :: u32
  ph_flags :: u32

definition proghdr_of :: "u8 list \<Rightarrow> proghdr" where
  "proghdr_of b = \<lparr>ph_type = rd32 b 0, ph_off = rd32 b 4, ph_vaddr = rd32 b 8, ph_filesz = rd32 b 16,
     ph_memsz = rd32 b 20, ph_flags = rd32 b 24\<rparr>"

abbreviation "ELF_MAGIC \<equiv> 0x464C457F :: u32"
abbreviation "MAXARG \<equiv> 32 :: nat"

definition elf_magic :: "u8 list \<Rightarrow> u32" where "elf_magic b = rd32 b 0"
definition elf_entry :: "u8 list \<Rightarrow> u32" where "elf_entry b = rd32 b 24"
definition elf_phoff :: "u8 list \<Rightarrow> u32" where "elf_phoff b = rd32 b 28"
definition elf_phnum :: "u8 list \<Rightarrow> u16" where "elf_phnum b = rd16 b 44"

definition with_cwd :: "(nat \<Rightarrow> kernel \<Rightarrow> ('a, kernel) res) \<Rightarrow> kernel \<Rightarrow> ('a, kernel) res" where
  "with_cwd f s = (case p_cwd (myproc s) of None \<Rightarrow> Panic ''null dereference'' | Some c \<Rightarrow> f c s)"

definition exec_bad :: "u32 \<Rightarrow> nat option \<Rightarrow> kernel \<Rightarrow> (int, kernel) res" where
  "exec_bad pgdir ip s =
     bindr (if pgdir \<noteq> 0 then freevm pgdir s else Ret () s) (\<lambda>_ s1.
     bindr (case ip of
              None \<Rightarrow> Ret () s1
            | Some i \<Rightarrow> bindr (on_fs (iunlockput i) s1) (\<lambda>_ s2. on_fs end_op s2)) (\<lambda>_ s3. Ret (-1) s3))"

text \<open>The loop over the program headers: the new size, or \<open>None\<close> for a jump to \<open>bad\<close>.\<close>

fun exec_load :: "nat \<Rightarrow> u32 \<Rightarrow> nat \<Rightarrow> u32 \<Rightarrow> u32 \<Rightarrow> kernel \<Rightarrow> (u32 option, kernel) res" where
  "exec_load ip pgdir 0 off sz s = Ret (Some sz) s"
| "exec_load ip pgdir (Suc n) off sz s =
     bindr (on_fs (readi ip off 32) s) (\<lambda>r s1.
       let ph = proghdr_of (snd r)
       in if fst r \<noteq> 32 then Ret None s1
          else if ph_type ph \<noteq> 1 then exec_load ip pgdir n (off + 32) sz s1
          else if ph_memsz ph < ph_filesz ph then Ret None s1
          else if ph_vaddr ph + ph_memsz ph < ph_vaddr ph then Ret None s1
          else bindr (allocuvm pgdir sz (ph_vaddr ph + ph_memsz ph) s1) (\<lambda>sz1 s2.
                 if sz1 = 0 then Ret None s2
                 else if ph_vaddr ph mod PGSIZE \<noteq> 0 then Ret None s2
                 else bindr (loaduvm (\<lambda>o' m. on_fs (readi ip o' m)) pgdir (ph_vaddr ph) (ph_off ph)
                               (ph_filesz ph) (ph_flags ph) s2) (\<lambda>q s3.
                        if q < 0 then Ret None s3 else exec_load ip pgdir n (off + 32) sz1 s3)))"

text \<open>The strings are pushed in order; the result is the stack pointer and their addresses.\<close>

fun push_args :: "u32 \<Rightarrow> nat \<Rightarrow> u8 list list \<Rightarrow> u32 \<Rightarrow> u32 list \<Rightarrow> kernel \<Rightarrow> ((u32 \<times> u32 list) option, kernel) res" where
  "push_args pgdir argc [] sp ptrs s = Ret (Some (sp, ptrs)) s"
| "push_args pgdir argc (a # as) sp ptrs s =
     (if argc \<ge> MAXARG then Ret None s
      else let sp1 = (sp - of_nat (length a + 1)) AND NOT 3
           in bindr (copyout pgdir sp1 (a @ [0]) s) (\<lambda>r s1.
                if r < 0 then Ret None s1 else push_args pgdir (Suc argc) as sp1 (ptrs @ [sp1]) s1))"

definition ustack :: "u32 \<Rightarrow> u32 list \<Rightarrow> u32 list" where
  "ustack sp ptrs = [0xFFFFFFFF, of_nat (length ptrs), sp - of_nat ((length ptrs + 1) * 4)] @ ptrs @ [0]"

text \<open>The part of the path after its last slash.\<close>

definition last_elem :: "u8 list \<Rightarrow> u8 list" where
  "last_elem path = rev (takeWhile (\<lambda>c. c \<noteq> SLASH) (rev path))"

definition exec_commit :: "u32 \<Rightarrow> u32 \<Rightarrow> u32 \<Rightarrow> u32 \<Rightarrow> u8 list \<Rightarrow> kernel \<Rightarrow> (int, kernel) res" where
  "exec_commit pgdir sz entry sp path s =
     (let p = myproc s; oldpgdir = p_pgdir p;
          p1 = p\<lparr>p_name := take 15 (last_elem path), p_pgdir := pgdir, p_sz := sz,
                 p_tf := (p_tf p)\<lparr>tf_eip := entry, tf_esp := sp\<rparr>\<rparr>
      in bindr (switchuvm p1 (set_my p1 s)) (\<lambda>_ s1. bindr (freevm oldpgdir s1) (\<lambda>_ s2. Ret 0 s2)))"

definition exec_stack :: "u32 \<Rightarrow> u32 \<Rightarrow> u32 \<Rightarrow> u8 list \<Rightarrow> u8 list list \<Rightarrow> kernel \<Rightarrow> (int, kernel) res" where
  "exec_stack pgdir sz0 entry path argv s =
     (let szr = PGROUNDUP sz0
      in bindr (allocuvm pgdir szr (szr + 2 * PGSIZE) s) (\<lambda>sz s1.
           if sz = 0 then exec_bad pgdir None s1
           else bindr (clearpteu pgdir (sz - 2 * PGSIZE) s1) (\<lambda>_ s2.
                bindr (push_args pgdir 0 argv sz [] s2) (\<lambda>r s3.
                  case r of
                    None \<Rightarrow> exec_bad pgdir None s3
                  | Some (sp, ptrs) \<Rightarrow>
                      let us = ustack sp ptrs; sp1 = sp - of_nat ((3 + length ptrs + 1) * 4)
                      in bindr (copyout pgdir sp1 (concat (map le32 us)) s3) (\<lambda>q s4.
                           if q < 0 then exec_bad pgdir None s4
                           else exec_commit pgdir sz entry sp1 path s4)))))"

definition exec :: "u8 list \<Rightarrow> u8 list list \<Rightarrow> kernel \<Rightarrow> (int, kernel) res" where
  "exec path argv s =
     bindr (on_fs begin_op s) (\<lambda>_ s1.
     bindr (with_cwd (\<lambda>c. on_fs (namei c path)) s1) (\<lambda>r s2.
       case r of
         None \<Rightarrow> bindr (on_fs end_op s2) (\<lambda>_ s3. bindr (kputs (text_chars ''exec: fail'' @ [10]) s3) (\<lambda>_ s4. Ret (-1) s4))
       | Some ip \<Rightarrow>
           bindr (on_fs (ilock ip) s2) (\<lambda>_ s3.
           bindr (on_fs (readi ip 0 52) s3) (\<lambda>h s4.
             let elf = snd h
             in if fst h \<noteq> 52 \<or> elf_magic elf \<noteq> ELF_MAGIC then exec_bad 0 (Some ip) s4
                else bindr (setupkvm s4) (\<lambda>pgdir s5.
                  if pgdir = 0 then exec_bad 0 (Some ip) s5
                  else bindr (exec_load ip pgdir (unat (elf_phnum elf)) (elf_phoff elf) 0 s5) (\<lambda>l s6.
                    case l of
                      None \<Rightarrow> exec_bad pgdir (Some ip) s6
                    | Some sz \<Rightarrow>
                        bindr (on_fs (iunlockput ip) s6) (\<lambda>_ s7.
                        bindr (on_fs end_op s7) (\<lambda>_ s8.
                          exec_stack pgdir sz (elf_entry elf) path argv s8))))))))"

end
