(* ===== verification/Sysfile.thy ===== *)
theory Sysfile
  imports Exec
begin

section \<open>File system calls: sysfile.c\<close>

text \<open>
  The bodies of \<open>link\<close>, \<open>unlink\<close> and \<open>create\<close> between \<open>begin_op\<close> and \<open>end_op\<close> work on the file
  system only and are stated on \<open>fsys\<close>; the system calls fetch the arguments and run them.
\<close>

abbreviation "O_WRONLY \<equiv> 1 :: u32"
abbreviation "O_RDWR \<equiv> 2 :: u32"
abbreviation "O_CREATE \<equiv> 0x200 :: u32"

subsection \<open>Links\<close>

definition upd_dinode :: "nat \<Rightarrow> (dinode \<Rightarrow> dinode) \<Rightarrow> fsys \<Rightarrow> fsys" where
  "upd_dinode ip f s = set_inode ip ((iat ip s)\<lparr>i_d := f (i_d (iat ip s))\<rparr>) s"

definition add_nlink :: "u16 \<Rightarrow> dinode \<Rightarrow> dinode" where
  "add_nlink k d = d\<lparr>di_nlink := di_nlink d + k\<rparr>"

definition link_bad :: "nat \<Rightarrow> fsys \<Rightarrow> (int, fsys) res" where
  "link_bad ip s =
     bindr (ilock ip s) (\<lambda>_ s1.
     bindr (iupdate ip (upd_dinode ip (add_nlink (-1)) s1)) (\<lambda>_ s2.
     bindr (iunlockput ip s2) (\<lambda>_ s3. Ret (-1) s3)))"

definition link_body :: "nat \<Rightarrow> u8 list \<Rightarrow> u8 list \<Rightarrow> fsys \<Rightarrow> (int, fsys) res" where
  "link_body cwd old new s =
     bindr (namei cwd old s) (\<lambda>r s1.
       case r of
         None \<Rightarrow> Ret (-1) s1
       | Some ip \<Rightarrow>
           bindr (ilock ip s1) (\<lambda>_ s2.
             if di_type (i_d (iat ip s2)) = T_DIR then bindr (iunlockput ip s2) (\<lambda>_ s3. Ret (-1) s3)
             else bindr (iupdate ip (upd_dinode ip (add_nlink 1) s2)) (\<lambda>_ s3.
                  bindr (iunlock ip s3) (\<lambda>_ s4.
                  bindr (nameiparent cwd new s4) (\<lambda>q s5.
                    case q of
                      None \<Rightarrow> link_bad ip s5
                    | Some (dp, name) \<Rightarrow>
                        bindr (ilock dp s5) (\<lambda>_ s6.
                        bindr (if i_dev (iat dp s6) \<noteq> i_dev (iat ip s6) then Ret (-1) s6
                               else dirlink dp name (i_inum (iat ip s6)) s6) (\<lambda>l s7.
                        bindr (iunlockput dp s7) (\<lambda>_ s8.
                          if l < 0 then link_bad ip s8
                          else bindr (iput ip s8) (\<lambda>_ s9. Ret 0 s9)))))))))"

fun isdirempty_loop :: "nat \<Rightarrow> u32 list \<Rightarrow> fsys \<Rightarrow> (bool, fsys) res" where
  "isdirempty_loop dp [] s = Ret True s"
| "isdirempty_loop dp (off # offs) s =
     bindr (readi dp off 16 s) (\<lambda>r s1.
       if fst r \<noteq> 16 then Panic ''isdirempty: readi''
       else if de_inum (snd r) \<noteq> 0 then Ret False s1
       else isdirempty_loop dp offs s1)"

definition isdirempty :: "nat \<Rightarrow> fsys \<Rightarrow> (bool, fsys) res" where
  "isdirempty dp s = isdirempty_loop dp (drop 2 (dirent_offsets (di_size (i_d (iat dp s))))) s"

definition is_dot :: "u8 list \<Rightarrow> bool" where
  "is_dot name \<longleftrightarrow> namecmp name [46] = 0 \<or> namecmp name [46, 46] = 0"

definition unlink_entry :: "nat \<Rightarrow> nat \<Rightarrow> u32 \<Rightarrow> fsys \<Rightarrow> (int, fsys) res" where
  "unlink_entry dp ip off s =
     bindr (writei dp (replicate DIRENT 0) off s) (\<lambda>n s1.
       if n \<noteq> 16 then Panic ''unlink: writei''
       else bindr (if di_type (i_d (iat ip s1)) = T_DIR then iupdate dp (upd_dinode dp (add_nlink (-1)) s1)
                   else Ret () s1) (\<lambda>_ s2.
            bindr (iunlockput dp s2) (\<lambda>_ s3.
            bindr (iupdate ip (upd_dinode ip (add_nlink (-1)) s3)) (\<lambda>_ s4.
            bindr (iunlockput ip s4) (\<lambda>_ s5. Ret 0 s5)))))"

definition unlink_body :: "nat \<Rightarrow> u8 list \<Rightarrow> fsys \<Rightarrow> (int, fsys) res" where
  "unlink_body cwd path s =
     bindr (nameiparent cwd path s) (\<lambda>r s1.
       case r of
         None \<Rightarrow> Ret (-1) s1
       | Some (dp, name) \<Rightarrow>
           let bad = (\<lambda>t. bindr (iunlockput dp t) (\<lambda>_ t1. Ret (-1) t1))
           in bindr (ilock dp s1) (\<lambda>_ s2.
                if is_dot name then bad s2
                else bindr (dirlookup dp name s2) (\<lambda>q s3.
                  case q of
                    None \<Rightarrow> bad s3
                  | Some (ip, off) \<Rightarrow>
                      bindr (ilock ip s3) (\<lambda>_ s4.
                        if sint (di_nlink (i_d (iat ip s4))) < 1 then Panic ''unlink: nlink < 1''
                        else bindr (if di_type (i_d (iat ip s4)) = T_DIR then isdirempty ip s4 else Ret True s4)
                               (\<lambda>ok s5. if \<not> ok then bindr (iunlockput ip s5) (\<lambda>_ s6. bad s6)
                                        else unlink_entry dp ip off s5)))))"

subsection \<open>Creation\<close>

definition create_new :: "nat \<Rightarrow> u8 list \<Rightarrow> u16 \<Rightarrow> u16 \<Rightarrow> u16 \<Rightarrow> fsys \<Rightarrow> (nat option, fsys) res" where
  "create_new dp name ty major minor s =
     bindr (ialloc (i_dev (iat dp s)) ty s) (\<lambda>ip s1.
     bindr (ilock ip s1) (\<lambda>_ s2.
     bindr (iupdate ip (upd_dinode ip (\<lambda>d. d\<lparr>di_major := major, di_minor := minor, di_nlink := 1\<rparr>) s2)) (\<lambda>_ s3.
     bindr (if ty = T_DIR then
              bindr (iupdate dp (upd_dinode dp (add_nlink 1) s3)) (\<lambda>_ s4.
              bindr (dirlink ip [46] (i_inum (iat ip s4)) s4) (\<lambda>a s5.
                if a < 0 then Panic ''create dots''
                else bindr (dirlink ip [46, 46] (i_inum (iat dp s5)) s5) (\<lambda>b s6.
                       if b < 0 then Panic ''create dots'' else Ret () s6)))
            else Ret () s3) (\<lambda>_ s7.
     bindr (dirlink dp name (i_inum (iat ip s7)) s7) (\<lambda>l s8.
       if l < 0 then Panic ''create: dirlink''
       else bindr (iunlockput dp s8) (\<lambda>_ s9. Ret (Some ip) s9))))))"

definition create :: "nat \<Rightarrow> u8 list \<Rightarrow> u16 \<Rightarrow> u16 \<Rightarrow> u16 \<Rightarrow> fsys \<Rightarrow> (nat option, fsys) res" where
  "create cwd path ty major minor s =
     bindr (nameiparent cwd path s) (\<lambda>r s1.
       case r of
         None \<Rightarrow> Ret None s1
       | Some (dp, name) \<Rightarrow>
           bindr (ilock dp s1) (\<lambda>_ s2.
           bindr (dirlookup dp name s2) (\<lambda>q s3.
             case q of
               Some (ip, _) \<Rightarrow>
                 bindr (iunlockput dp s3) (\<lambda>_ s4.
                 bindr (ilock ip s4) (\<lambda>_ s5.
                   if ty = T_FILE \<and> di_type (i_d (iat ip s5)) = T_FILE then Ret (Some ip) s5
                   else bindr (iunlockput ip s5) (\<lambda>_ s6. Ret None s6)))
             | None \<Rightarrow> create_new dp name ty major minor s3)))"

definition open_ip :: "nat \<Rightarrow> u8 list \<Rightarrow> u32 \<Rightarrow> fsys \<Rightarrow> (nat option, fsys) res" where
  "open_ip cwd path omode s =
     (if omode AND O_CREATE \<noteq> 0 then create cwd path T_FILE 0 0 s
      else bindr (namei cwd path s) (\<lambda>r s1.
        case r of
          None \<Rightarrow> Ret None s1
        | Some ip \<Rightarrow>
            bindr (ilock ip s1) (\<lambda>_ s2.
              if di_type (i_d (iat ip s2)) = T_DIR \<and> omode \<noteq> 0 then bindr (iunlockput ip s2) (\<lambda>_ s3. Ret None s3)
              else Ret (Some ip) s2)))"

subsection \<open>The system calls\<close>

definition sys_dup :: "kernel \<Rightarrow> (int, kernel) res" where
  "sys_dup s =
     need (argfd 0 s) (\<lambda>(_, f) s1.
       let (fd, s2) = fdalloc f s1
       in if fd < 0 then Ret (-1) s2 else bindr (filedup f s2) (\<lambda>_ s3. Ret fd s3))"

definition sys_read :: "kernel \<Rightarrow> (int, kernel) res" where
  "sys_read s =
     need (argfd 0 s) (\<lambda>(_, f) s1. need (argint 2 s1) (\<lambda>n s2. need (argptr 1 (sint n) s2) (\<lambda>p s3.
       fileread f p (sint n) s3)))"

definition sys_write :: "kernel \<Rightarrow> (int, kernel) res" where
  "sys_write s =
     need (argfd 0 s) (\<lambda>(_, f) s1. need (argint 2 s1) (\<lambda>n s2. need (argptr 1 (sint n) s2) (\<lambda>p s3.
       filewrite f p (sint n) s3)))"

definition sys_close :: "kernel \<Rightarrow> (int, kernel) res" where
  "sys_close s =
     need (argfd 0 s) (\<lambda>(fd, f) s1.
       bindr (fileclose f (set_my ((myproc s1)\<lparr>p_ofile := (p_ofile (myproc s1))[fd := None]\<rparr>) s1)) (\<lambda>_ s2. Ret 0 s2))"

text \<open>\<open>struct stat\<close> in user memory; its padding is not written.\<close>

definition store_stat :: "u32 \<Rightarrow> stat \<Rightarrow> kernel \<Rightarrow> (unit, kernel) res" where
  "store_stat a st s =
     bindr (ustore_bytes (a + 4) (le32 (st_dev st) @ le32 (st_ino st)) s) (\<lambda>_ s1.
     bindr (ustore_bytes a (le16 (st_type st)) s1) (\<lambda>_ s2.
     bindr (ustore_bytes (a + 12) (le16 (st_nlink st)) s2) (\<lambda>_ s3. ustore_bytes (a + 16) (le32 (st_size st)) s3)))"

definition sys_fstat :: "kernel \<Rightarrow> (int, kernel) res" where
  "sys_fstat s =
     need (argfd 0 s) (\<lambda>(_, f) s1. need (argptr 1 20 s1) (\<lambda>a s2.
       bindr (filestat f s2) (\<lambda>r s3.
         case r of None \<Rightarrow> Ret (-1) s3 | Some st \<Rightarrow> bindr (store_stat a st s3) (\<lambda>_ s4. Ret 0 s4))))"

definition sys_link :: "kernel \<Rightarrow> (int, kernel) res" where
  "sys_link s =
     need (argstr 0 s) (\<lambda>old s1. need (argstr 1 s1) (\<lambda>new s2.
       with_cwd (\<lambda>c. on_fs (in_op (link_body c old new))) s2))"

definition sys_unlink :: "kernel \<Rightarrow> (int, kernel) res" where
  "sys_unlink s =
     need (argstr 0 s) (\<lambda>path s1. with_cwd (\<lambda>c. on_fs (in_op (unlink_body c path))) s1)"

definition set_open :: "nat \<Rightarrow> nat \<Rightarrow> u32 \<Rightarrow> kernel \<Rightarrow> kernel" where
  "set_open f ip omode s =
     set_file f ((fileat f s)\<lparr>f_type := FD_INODE, f_ip := ip, f_off := 0, f_readable := (omode AND O_WRONLY = 0),
       f_writable := (omode AND O_WRONLY \<noteq> 0 \<or> omode AND O_RDWR \<noteq> 0)\<rparr>) s"

definition open_fail :: "nat \<Rightarrow> kernel \<Rightarrow> (int, kernel) res" where
  "open_fail ip s =
     bindr (on_fs (iunlockput ip) s) (\<lambda>_ s1. bindr (on_fs end_op s1) (\<lambda>_ s2. Ret (-1) s2))"

definition sys_open :: "kernel \<Rightarrow> (int, kernel) res" where
  "sys_open s =
     need (argstr 0 s) (\<lambda>path s1. need (argint 1 s1) (\<lambda>omode s2.
       bindr (on_fs begin_op s2) (\<lambda>_ s3.
       bindr (with_cwd (\<lambda>c. on_fs (open_ip c path omode)) s3) (\<lambda>r s4.
         case r of
           None \<Rightarrow> bindr (on_fs end_op s4) (\<lambda>_ s5. Ret (-1) s5)
         | Some ip \<Rightarrow>
             (case filealloc s4 of
                (None, s5) \<Rightarrow> open_fail ip s5
              | (Some f, s5) \<Rightarrow>
                  let (fd, s6) = fdalloc f s5
                  in if fd < 0 then bindr (fileclose f s6) (\<lambda>_ s7. open_fail ip s7)
                     else bindr (on_fs (iunlock ip) s6) (\<lambda>_ s7.
                          bindr (on_fs end_op s7) (\<lambda>_ s8. Ret fd (set_open f ip omode s8))))))))"

text \<open>\<open>mkdir\<close> and \<open>mknod\<close> fetch their arguments inside the transaction.\<close>

definition create_node :: "u8 list \<Rightarrow> u16 \<Rightarrow> u16 \<Rightarrow> u16 \<Rightarrow> kernel \<Rightarrow> (int, kernel) res" where
  "create_node path ty major minor s =
     bindr (with_cwd (\<lambda>c. on_fs (create c path ty major minor)) s) (\<lambda>r s1.
       case r of
         None \<Rightarrow> bindr (on_fs end_op s1) (\<lambda>_ s2. Ret (-1) s2)
       | Some ip \<Rightarrow> bindr (on_fs (iunlockput ip) s1) (\<lambda>_ s2. bindr (on_fs end_op s2) (\<lambda>_ s3. Ret 0 s3)))"

definition need_op :: "('a option, kernel) res \<Rightarrow> ('a \<Rightarrow> kernel \<Rightarrow> (int, kernel) res) \<Rightarrow> (int, kernel) res" where
  "need_op r f = bindr r (\<lambda>x s. case x of None \<Rightarrow> bindr (on_fs end_op s) (\<lambda>_ s1. Ret (-1) s1) | Some v \<Rightarrow> f v s)"

definition sys_mkdir :: "kernel \<Rightarrow> (int, kernel) res" where
  "sys_mkdir s =
     bindr (on_fs begin_op s) (\<lambda>_ s1. need_op (argstr 0 s1) (\<lambda>path s2. create_node path T_DIR 0 0 s2))"

definition sys_mknod :: "kernel \<Rightarrow> (int, kernel) res" where
  "sys_mknod s =
     bindr (on_fs begin_op s) (\<lambda>_ s1.
       need_op (argstr 0 s1) (\<lambda>path s2. need_op (argint 1 s2) (\<lambda>major s3. need_op (argint 2 s3) (\<lambda>minor s4.
         create_node path T_DEV (ucast major) (ucast minor) s4))))"

definition sys_chdir :: "kernel \<Rightarrow> (int, kernel) res" where
  "sys_chdir s =
     bindr (on_fs begin_op s) (\<lambda>_ s1.
       need_op (argstr 0 s1) (\<lambda>path s2.
       need_op (with_cwd (\<lambda>c. on_fs (namei c path)) s2) (\<lambda>ip s3.
         bindr (on_fs (ilock ip) s3) (\<lambda>_ s4.
           if di_type (i_d (iat ip (kfs s4))) \<noteq> T_DIR then open_fail ip s4
           else bindr (on_fs (iunlock ip) s4) (\<lambda>_ s5.
                bindr (with_cwd (\<lambda>c. on_fs (iput c)) s5) (\<lambda>_ s6.
                bindr (on_fs end_op s6) (\<lambda>_ s7. Ret 0 (set_my ((myproc s7)\<lparr>p_cwd := Some ip\<rparr>) s7))))))))"

fun exec_args :: "u32 \<Rightarrow> nat \<Rightarrow> u8 list list \<Rightarrow> kernel \<Rightarrow> (u8 list list option, kernel) res" where
  "exec_args uargv 0 acc s = Ret None s"
| "exec_args uargv (Suc n) acc s =
     bindr (fetchint uargv s) (\<lambda>r s1.
       case r of
         None \<Rightarrow> Ret None s1
       | Some uarg \<Rightarrow>
           if uarg = 0 then Ret (Some acc) s1
           else bindr (fetchstr uarg s1) (\<lambda>q s2.
                  case q of None \<Rightarrow> Ret None s2 | Some str \<Rightarrow> exec_args (uargv + 4) n (acc @ [str]) s2))"

definition sys_exec :: "kernel \<Rightarrow> (int, kernel) res" where
  "sys_exec s =
     need (argstr 0 s) (\<lambda>path s1. need (argint 1 s1) (\<lambda>uargv s2.
       need (exec_args uargv MAXARG [] s2) (\<lambda>argv s3. exec path argv s3)))"

definition clear_fd :: "int \<Rightarrow> kernel \<Rightarrow> kernel" where
  "clear_fd fd s =
     (if fd \<ge> 0 then set_my ((myproc s)\<lparr>p_ofile := (p_ofile (myproc s))[nat fd := None]\<rparr>) s else s)"

definition pipe_fail :: "int \<Rightarrow> nat \<Rightarrow> nat \<Rightarrow> kernel \<Rightarrow> (int, kernel) res" where
  "pipe_fail fd0 rfile wfile s =
     bindr (fileclose rfile (clear_fd fd0 s)) (\<lambda>_ s1. bindr (fileclose wfile s1) (\<lambda>_ s2. Ret (-1) s2))"

definition sys_pipe :: "kernel \<Rightarrow> (int, kernel) res" where
  "sys_pipe s =
     need (argptr 0 8 s) (\<lambda>fd s1.
       need (pipealloc s1) (\<lambda>(rfile, wfile) s2.
         let (fd0, s3) = fdalloc rfile s2
         in if fd0 < 0 then pipe_fail fd0 rfile wfile s3
            else let (fd1, s4) = fdalloc wfile s3
                 in if fd1 < 0 then pipe_fail fd0 rfile wfile s4
                    else bindr (ustore_bytes fd (le32 (of_int fd0)) s4) (\<lambda>_ s5.
                         bindr (ustore_bytes (fd + 4) (le32 (of_int fd1)) s5) (\<lambda>_ s6. Ret 0 s6))))"

end
