(* ===== verification/Syscall.thy ===== *)
theory Syscall
  imports Sysfile
begin

section \<open>System calls and traps: sysproc.c, syscall.c, trap.c\<close>

text \<open>
  A system call leaves its result in the saved \<open>eax\<close> of the caller. \<open>trap\<close> is given the trap
  frame together with the fault address in \<open>cr2\<close>; device interrupts are given what the device
  delivers. A call or trap that ends the process or gives up the processor has the outcome
  \<open>Sleeps\<close>; what \<open>trap\<close> does after a \<open>yield\<close> is \<open>trap_resume\<close>.
\<close>

subsection \<open>sysproc.c\<close>

definition sys_kill :: "kernel \<Rightarrow> (int, kernel) res" where
  "sys_kill s = need (argint 0 s) (\<lambda>pid s1. let (r, s2) = kill (sint pid) s1 in Ret r s2)"

definition sys_getpid :: "kernel \<Rightarrow> (int, kernel) res" where
  "sys_getpid s = Ret (p_pid (myproc s)) s"

definition sys_sbrk :: "kernel \<Rightarrow> (int, kernel) res" where
  "sys_sbrk s =
     need (argint 0 s) (\<lambda>n s1.
       let addr = p_sz (myproc s1)
       in bindr (growproc n s1) (\<lambda>r s2. Ret (if r < 0 then -1 else sint addr) s2))"

text \<open>
  One pass of the loop of \<open>sys_sleep\<close>; \<open>ticks0\<close> is the tick count at the call. The comparison is
  unsigned, so a negative argument waits for almost all of \<open>2^32\<close> ticks.
\<close>

definition sleep_pass :: "u32 \<Rightarrow> u32 \<Rightarrow> kernel \<Rightarrow> (int, kernel) res" where
  "sleep_pass ticks0 n s =
     (if ticks s - ticks0 < n then
        if p_killed (myproc s) then Ret (-1) s else ksleep ChTicks s
      else Ret 0 s)"

definition sys_sleep :: "kernel \<Rightarrow> (int, kernel) res" where
  "sys_sleep s = need (argint 0 s) (\<lambda>n s1. sleep_pass (ticks s1) n s1)"

definition sys_uptime :: "kernel \<Rightarrow> (int, kernel) res" where
  "sys_uptime s = Ret (sint (ticks s)) s"

definition wmap_args_ok :: "u32 \<Rightarrow> u32 \<Rightarrow> u32 \<Rightarrow> u32 \<Rightarrow> bool" where
  "wmap_args_ok addr len flags fd \<longleftrightarrow>
     \<not> sint addr < 0 \<and>
     \<not> (addr < VA_START \<or> addr \<ge> VA_END \<or> addr mod PGSIZE \<noteq> 0) \<and>
     \<not> (sint len \<le> 0 \<or> len > VA_END - VA_START) \<and>
     \<not> (sint flags \<le> 0 \<or> flags AND 1 \<noteq> 0 \<or> sint flags > 16) \<and>
     \<not> (flags AND MAP_SHARED = 0 \<or> flags AND MAP_FIXED = 0) \<and>
     \<not> (flags AND MAP_ANONYMOUS = 0 \<and> (sint fd < 0 \<or> sint fd \<ge> int NOFILE))"

definition sys_wmap :: "kernel \<Rightarrow> (int, kernel) res" where
  "sys_wmap s =
     need (argint 0 s) (\<lambda>addr s1. need (argint 1 s1) (\<lambda>len s2. need (argint 2 s2) (\<lambda>flags s3.
     need (argint 3 s3) (\<lambda>fd s4.
       if \<not> wmap_args_ok addr len flags fd then Ret (-1) s4
       else bindr (wmap addr len flags (sint fd) s4) (\<lambda>r s5. Ret (sint r) s5)))))"

definition sys_wunmap :: "kernel \<Rightarrow> (int, kernel) res" where
  "sys_wunmap s =
     need (argint 0 s) (\<lambda>addr s1. if sint addr < 0 then Ret (-1) s1 else wunmap addr s1)"

definition sys_va2pa :: "kernel \<Rightarrow> (int, kernel) res" where
  "sys_va2pa s =
     need (argint 0 s) (\<lambda>addr s1.
       if sint addr < 0 then Ret (-1) s1 else bindr (va2pa addr s1) (\<lambda>r s2. Ret (sint r) s2))"

definition sys_getwmapinfo :: "kernel \<Rightarrow> (int, kernel) res" where
  "sys_getwmapinfo s =
     need (argptr 0 196 s) (\<lambda>ps s1. if ps = 0 then Ret (-1) s1 else getwmapinfo ps s1)"

subsection \<open>syscall.c\<close>

definition syscalls :: "int \<Rightarrow> (kernel \<Rightarrow> (int, kernel) res) option" where
  "syscalls num =
     (if num = 1 then Some fork else if num = 2 then Some exit else if num = 3 then Some wait
      else if num = 4 then Some sys_pipe else if num = 5 then Some sys_read else if num = 6 then Some sys_kill
      else if num = 7 then Some sys_exec else if num = 8 then Some sys_fstat else if num = 9 then Some sys_chdir
      else if num = 10 then Some sys_dup else if num = 11 then Some sys_getpid else if num = 12 then Some sys_sbrk
      else if num = 13 then Some sys_sleep else if num = 14 then Some sys_uptime else if num = 15 then Some sys_open
      else if num = 16 then Some sys_write else if num = 17 then Some sys_mknod else if num = 18 then Some sys_unlink
      else if num = 19 then Some sys_link else if num = 20 then Some sys_mkdir else if num = 21 then Some sys_close
      else if num = 22 then Some sys_wmap else if num = 23 then Some sys_wunmap else if num = 24 then Some sys_va2pa
      else if num = 25 then Some sys_getwmapinfo else None)"

definition set_eax :: "int \<Rightarrow> kernel \<Rightarrow> kernel" where
  "set_eax r s = set_my ((myproc s)\<lparr>p_tf := (p_tf (myproc s))\<lparr>tf_eax := of_int r\<rparr>\<rparr>) s"

definition unknown_call :: "int \<Rightarrow> kernel \<Rightarrow> int list" where
  "unknown_call num s =
     printint (of_int (p_pid (myproc s))) 10 True @ [32] @ map sint (p_name (myproc s)) @
     text_chars '': unknown sys call '' @ printint (of_int num) 10 True @ [10]"

definition syscall :: "kernel \<Rightarrow> (unit, kernel) res" where
  "syscall s =
     (let num = sint (tf_eax (p_tf (myproc s)))
      in case syscalls num of
           Some f \<Rightarrow> bindr (f s) (\<lambda>r s1. Ret () (set_eax r s1))
         | None \<Rightarrow> bindr (kputs (unknown_call num s) s) (\<lambda>_ s1. Ret () (set_eax (-1) s1)))"

subsection \<open>trap.c\<close>

text \<open>What an interrupt brings: the keys read by \<open>kbdgetc\<close> or \<open>uartgetc\<close>, or none.\<close>

definition kbd_interrupt :: "(nat \<Rightarrow> u32 list) \<Rightarrow> int list \<Rightarrow> kernel \<Rightarrow> (unit, kernel) res" where
  "kbd_interrupt callerpcs keys s =
     (case consoleintr keys (cons (kfs s)) of
        Ret (woken, dump) c \<Rightarrow>
          let s1 = s\<lparr>kfs := (kfs s)\<lparr>cons := c\<rparr>\<rparr>;
              s2 = (if woken then wakeup ChInput s1 else s1)
          in if dump then procdump callerpcs s2 else Ret () s2
      | Sleeps c \<Rightarrow> Sleeps s
      | Panic m \<Rightarrow> Panic m
      | Diverge \<Rightarrow> Diverge)"

definition user_mode :: "trapframe \<Rightarrow> bool" where
  "user_mode tf \<longleftrightarrow> tf_cs tf AND 3 = 3"

definition set_killed :: "kernel \<Rightarrow> kernel" where
  "set_killed s = set_my ((myproc s)\<lparr>p_killed := True\<rparr>) s"

definition exit_if_killed :: "trapframe \<Rightarrow> kernel \<Rightarrow> (unit, kernel) res" where
  "exit_if_killed tf s = (if p_killed (myproc s) \<and> user_mode tf then exit s else Ret () s)"

text \<open>The end of \<open>trap\<close>: forced exit, and the yield on a clock tick.\<close>

definition trap_end :: "trapframe \<Rightarrow> kernel \<Rightarrow> (unit, kernel) res" where
  "trap_end tf s =
     bindr (exit_if_killed tf s) (\<lambda>_ s1.
       if p_state (myproc s1) = RUNNING \<and> tf_trapno tf = 32 then yield s1 else exit_if_killed tf s1)"

definition trap_resume :: "trapframe \<Rightarrow> kernel \<Rightarrow> (unit, kernel) res" where
  "trap_resume tf s = exit_if_killed tf s"

definition trap_syscall :: "trapframe \<Rightarrow> kernel \<Rightarrow> (unit, kernel) res" where
  "trap_syscall tf s =
     (if p_killed (myproc s) then exit s
      else bindr (syscall (set_my ((myproc s)\<lparr>p_tf := tf\<rparr>) s)) (\<lambda>_ s1.
             if p_killed (myproc s1) then exit s1 else Ret () s1))"

definition trap_pgflt :: "trapframe \<Rightarrow> u32 \<Rightarrow> kernel \<Rightarrow> (unit, kernel) res" where
  "trap_pgflt tf cr2 s =
     bindr (page_fault cr2 s) (\<lambda>success s1.
       if success = 0 then Ret () s1
       else bindr (kputs (text_chars ''Segmentation Fault'' @ [10]) s1) (\<lambda>_ s2. trap_end tf (set_killed s2)))"

definition trap_other :: "u32 \<Rightarrow> trapframe \<Rightarrow> u32 \<Rightarrow> kernel \<Rightarrow> (unit, kernel) res" where
  "trap_other cpu tf cr2 s =
     (if tf_cs tf AND 3 = 0 then Panic ''trap''
      else bindr (kputs (text_chars ''pid '' @ printint (of_int (p_pid (myproc s))) 10 True @ [32] @
                    map sint (p_name (myproc s)) @ text_chars '': trap '' @ printint (tf_trapno tf) 10 True @
                    text_chars '' err '' @ printint (tf_err tf) 10 True @ text_chars '' on cpu '' @
                    printint cpu 10 True @ text_chars '' eip 0x'' @ printint (tf_eip tf) 16 False @
                    text_chars '' addr 0x'' @ printint cr2 16 False @ text_chars ''--kill proc'' @ [10]) s)
             (\<lambda>_ s1. trap_end tf (set_killed s1)))"

definition trap_timer :: "u32 \<Rightarrow> kernel \<Rightarrow> kernel" where
  "trap_timer cpu s = (if cpu = 0 then wakeup ChTicks (s\<lparr>ticks := ticks s + 1\<rparr>) else s)"

definition trap :: "(nat \<Rightarrow> u32 list) \<Rightarrow> u32 \<Rightarrow> int list \<Rightarrow> trapframe \<Rightarrow> u32 \<Rightarrow> kernel \<Rightarrow> (unit, kernel) res" where
  "trap callerpcs cpu keys tf cr2 s =
     (let n = tf_trapno tf
      in if n = 64 then trap_syscall tf s
         else if n = 32 then trap_end tf (trap_timer cpu s)
         else if n = 46 \<or> n = 47 then trap_end tf s
         else if n = 33 \<or> n = 36 then bindr (kbd_interrupt callerpcs keys s) (\<lambda>_ s1. trap_end tf s1)
         else if n = 39 \<or> n = 63 then
           bindr (kputs (text_chars ''cpu'' @ printint cpu 10 True @ text_chars '': spurious interrupt at '' @
                    printint (ucast (tf_cs tf)) 16 False @ [58] @ printint (tf_eip tf) 16 False @ [10]) s)
             (\<lambda>_ s1. trap_end tf s1)
         else if n = 14 then trap_pgflt tf cr2 s
         else trap_other cpu tf cr2 s)"

end
