(* ===== verification/Cow.thy ===== *)
theory Cow
  imports Wmap Vm_Map Fs_Alloc
begin

section \<open>What the page-fault handler guarantees\<close>

text \<open>
  The handlers of page faults on the page table of the current process, read as a map from
  pages to entries: a write to a copy-on-write page gives the process a copy of its own, and
  the first touch of a page of an anonymous mapping gives it a page of zeros. \<open>pt_inv\<close> says
  that the table is separate from the pages of the free list.
\<close>

lemma kernel_more:
  fixes s t :: kernel
  assumes "mm.more t = mm.more s"
  shows "ptable t = ptable s" "cur t = cur s" "kfs t = kfs s" "ftable t = ftable s" "pipes t = pipes s"
    "nextpid t = nextpid s" "initproc t = initproc s" "ticks t = ticks s" "myproc t = myproc s"
    "procat i t = procat i s" "fileat i t = fileat i s"
  using assms by (cases s, cases t, simp add: myproc_def procat_def fileat_def)+

subsection \<open>Walking and mapping in proc.c\<close>

lemma proc_walk_noalloc:
  "proc_walkpgdir pgdir va False s =
     Ret (if present s pgdir (unat (PDX va))
          then Some (tab_frame s pgdir (unat (PDX va)), unat (PTX va)) else None) s"
  by (simp add: proc_walkpgdir_def present_def tab_frame_def Let_def)

lemma proc_walk_alloc:
  "proc_walkpgdir pgdir va True s =
     (case walkpgdir pgdir va True s of (None, _) \<Rightarrow> Panic ''null dereference'' | (Some pte, t) \<Rightarrow> Ret (Some pte) t)"
  by (simp add: proc_walkpgdir_def walkpgdir_def Let_def split: prod.splits)

lemma has_or_P [simp]: "has (w OR PTE_P) PTE_P"
  by (simp add: has_def)

text \<open>Taking a page off the free list and filling it.\<close>

lemma take_page:
  assumes inv: "pt_inv s d (v # vs)"
  shows "kalloc s = (v, s\<lparr>freelist := mem s (kfn v) 0\<rparr>)" "v \<noteq> 0" "heap_page s v"
    "kfn v \<notin> pt_frames s d" "kfn v \<notin> kfn ` set vs"
proof -
  have fp: "free_pages s (v # vs)" using inv by (simp add: pt_inv_def)
  show "kalloc s = (v, s\<lparr>freelist := mem s (kfn v) 0\<rparr>)" by (rule free_pages_alloc [OF fp])
  show hv: "heap_page s v" using fp by (simp add: free_pages_def)
  then show "v \<noteq> 0" by (rule heap_page_nonzero)
  show "kfn v \<notin> pt_frames s d" using pt_inv_free_frame [OF inv] by simp
  show "kfn v \<notin> kfn ` set vs" using free_pages_kfn_distinct [OF fp] by fastforce
qed

lemma fill_page:
  fixes pg :: "nat \<Rightarrow> u32"
  assumes inv: "pt_inv s d (v # vs)"
  defines "t \<equiv> set_page (kfn v) pg (s\<lparr>freelist := mem s (kfn v) 0\<rparr>)"
  shows "pt_inv t d vs" "pte_val t d = pte_val s d" "present t d = present s d" "pt_frames t d = pt_frames s d"
    "mem t = (mem s)(kfn v := pg)" "refcounts t = refcounts s" "use_lock t = use_lock s" "mm.more t = mm.more s"
proof -
  have fp: "free_pages s (v # vs)" using inv by (simp add: pt_inv_def)
  note A = free_pages_alloc [OF fp] and P = take_page [OF inv]
  show m: "mem t = (mem s)(kfn v := pg)" "refcounts t = refcounts s" "use_lock t = use_lock s" "mm.more t = mm.more s"
    by (simp_all add: t_def set_page_def)
  have "mem t g = mem s g" if "g \<in> pt_frames s d" for g using that P(4) m(1) by auto
  note C = pt_mem_cong [of s d t, OF this]
  show "pte_val t d = pte_val s d" "present t d = present s d" "pt_frames t d = pt_frames s d" by (rule C, simp)+
  have "kfn x \<noteq> kfn v" if "x \<in> set vs" for x using that P(5) by (metis imageI)
  then have "free_pages t vs"
    by (intro free_pages_mem_cong [OF A(2)]) (simp_all add: t_def set_page_def)
  moreover have "heap_page t = heap_page s" by (rule heap_page_cong) (simp add: t_def set_page_def)
  moreover have "kfn d \<noteq> kfn v" using P(4) by (auto simp: pt_frames_def)
  then have "mem t (kfn d) = mem s (kfn d)" using m(1) by simp
  ultimately show "pt_inv t d vs"
    using inv by (auto simp: pt_inv_def pt_heap_def C)
qed

lemma map_single_page_ok:
  assumes inv: "pt_inv s d vs" and room: "present s d (unat (PDX va)) \<or> vs \<noteq> []"
  obtains t ws where "map_single_page d va pa perm s = Ret 0 t" "pt_grow d s vs t ws"
    "pte_val t d = (\<lambda>va'. if pfn va' = pfn va then pa OR perm OR PTE_P else pte_val s d va')"
    "refcounts t = (if use_lock s then (refcounts s)(pfn pa := refcounts s (pfn pa) + 1) else refcounts s)"
proof -
  obtain r s1 where w: "walkpgdir d va True s = (r, s1)" by fastforce
  have "r \<noteq> None"
  proof
    assume "r = None"
    then show False using walk_None_oom [OF inv, of va s1] w room by simp
  qed
  then obtain pte where r: "r = Some pte" by blast
  let ?t = "increment_refcount pa (wr pte (pa OR perm OR PTE_P) s1)"
  note M = map_one [OF inv w [unfolded r] refl [of ?t]]
  from M(1) obtain ws where g: "pt_grow d s vs ?t ws" by blast
  have "map_single_page d va pa perm s = Ret 0 ?t"
    by (simp add: map_single_page_def proc_walk_alloc w r)
  then show thesis using g M(3,4) by (rule that)
qed

lemma pt_growD:
  assumes "pt_grow d s vs t ws"
  shows "pt_inv t d ws" "use_lock t = use_lock s" "mm.more t = mm.more s"
    "f \<notin> pt_frames s d \<Longrightarrow> f \<notin> kfn ` set vs \<Longrightarrow> mem t f = mem s f"
    "f \<notin> pt_frames t d \<Longrightarrow> mem t f = mem s f" "pt_frames t d \<subseteq> pt_frames s d \<union> kfn ` set vs"
  using assms by (auto simp: pt_grow_def)

lemma mem_decrement [simp]: "mem (decrement_refcount a s) = mem s"
  by (simp add: decrement_frame)

lemma refcounts_decrement:
  "refcounts (decrement_refcount pa s) =
     (if use_lock s then (refcounts s)(pfn pa := refcounts s (pfn pa) - 1) else refcounts s)"
  by (simp add: decrement_refcount_def va2idx_pfn)

lemma pt_same_mem:
  assumes "mem t = mem s" "freelist t = freelist s" "k_end t = k_end s"
  shows "pt_inv t d vs = pt_inv s d vs" "pte_val t d = pte_val s d" "pt_frames t d = pt_frames s d"
proof -
  note C = pt_mem_cong [of s d t, unfolded assms(1), OF refl]
  have "heap_page t = heap_page s" using assms(3) by (rule heap_page_cong)
  then show "pt_inv t d vs = pt_inv s d vs"
    using assms by (simp add: pt_inv_def C pt_heap_def free_pages_def)
qed (rule pt_mem_cong, simp add: assms)+

lemma pfn_PGROUNDDOWN [simp]: "pfn (PGROUNDDOWN a) = pfn a"
  by (simp add: pfn_def layout_simps minus_mod_eq_div_mult)

text \<open>A page off the free list, filled with \<open>pg\<close> and mapped at the page of \<open>addr\<close>.\<close>

lemma alloc_and_map:
  assumes inv: "pt_inv s d (w # vs)" and room: "present s d (unat (PDX addr)) \<or> vs \<noteq> []"
  obtains u ws where
    "map_single_page d (PGROUNDDOWN addr) (V2P w) perm (set_page (kfn w) pg (s\<lparr>freelist := mem s (kfn w) 0\<rparr>)) = Ret 0 u"
    "pt_inv u d ws" "mm.more u = mm.more s" "use_lock u = use_lock s"
    "refcounts u = (if use_lock s then (refcounts s)(kfn w := refcounts s (kfn w) + 1) else refcounts s)"
    "pte_val u d = (\<lambda>va. if pfn va = pfn addr then V2P w OR perm OR PTE_P else pte_val s d va)"
    "mem u (kfn w) = pg" "\<forall>f. f \<notin> pt_frames s d \<union> kfn ` set (w # vs) \<longrightarrow> mem u f = mem s f"
    "kfn w \<notin> pt_frames u d"
proof -
  let ?s3 = "set_page (kfn w) pg (s\<lparr>freelist := mem s (kfn w) 0\<rparr>)"
  note P = take_page [OF inv] and T = fill_page [OF inv, of pg]
  have "unat (PDX (PGROUNDDOWN addr)) = unat (PDX addr)" by (simp add: PDX_pfn)
  then have r: "present ?s3 d (unat (PDX (PGROUNDDOWN addr))) \<or> vs \<noteq> []" using room T(3) by simp
  from map_single_page_ok [OF T(1) r, where pa = "V2P w" and perm = perm] obtain u ws where
    u: "map_single_page d (PGROUNDDOWN addr) (V2P w) perm ?s3 = Ret 0 u" "pt_grow d ?s3 vs u ws"
      "pte_val u d = (\<lambda>va'. if pfn va' = pfn (PGROUNDDOWN addr) then V2P w OR perm OR PTE_P else pte_val ?s3 d va')"
      "refcounts u = (if use_lock ?s3 then (refcounts ?s3)(pfn (V2P w) := refcounts ?s3 (pfn (V2P w)) + 1) else refcounts ?s3)" .
  note G = pt_growD [OF u(2)]
  have "pte_val u d = (\<lambda>va. if pfn va = pfn addr then V2P w OR perm OR PTE_P else pte_val s d va)"
    unfolding u(3) T(2) by simp
  moreover have "mem u (kfn w) = pg" using G(4) [of "kfn w"] P(4,5) T(4,5) by simp
  moreover have "\<forall>f. f \<notin> pt_frames s d \<union> kfn ` set (w # vs) \<longrightarrow> mem u f = mem s f"
    using G(4) T(4,5) by simp
  moreover have "kfn w \<notin> pt_frames u d" using G(6) P(4,5) T(4) by blast
  moreover have "refcounts u = (if use_lock s then (refcounts s)(kfn w := refcounts s (kfn w) + 1) else refcounts s)"
    using u(4) T(6,7) by (simp add: kfn_def)
  ultimately show thesis using u(1) G(1-3) T(7,8) by (intro that) simp_all
qed

subsection \<open>Copy on write\<close>

text \<open>The entry that resolves a fault: writable, no longer copy on write.\<close>

definition cow_flags :: "u32 \<Rightarrow> u32" where
  "cow_flags v = (PTE_FLAGS v AND NOT PTE_COW) OR PTE_W"

lemma cow_flags_lt: "cow_flags v < 0x1000"
proof -
  have "PTE_FLAGS v AND NOT PTE_COW < 0x1000"
    using PTE_FLAGS_lt [of v] by (simp add: small_iff_and and.assoc)
  then show ?thesis unfolding cow_flags_def by (rule or_less_page) simp
qed

lemma has_cow_flags:
  "has v PTE_P \<Longrightarrow> has (cow_flags v) PTE_P" "has (cow_flags v) PTE_W" "\<not> has (cow_flags v) PTE_COW"
  "has (cow_flags v) PTE_U = has v PTE_U"
  by (simp_all add: cow_flags_def has_bits PTE_FLAGS_def bit_simps)

lemma has_presentD: "has (pte_val s d va) PTE_P \<Longrightarrow> present s d (unat (PDX va))"
  by (rule ccontr) (simp add: not_present_pte_val)

text \<open>The two ways in which a copy-on-write fault is resolved.\<close>

lemma cow_sole_owner:
  fixes s :: kernel
  assumes d: "d = p_pgdir (myproc s)" and inv: "pt_inv s d vs" and v: "v = pte_val s d addr"
    and p: "has v PTE_P" "has v PTE_COW" and rc: "getrefcount (PTE_ADDR v) s = 1"
  obtains t where "do_copy_on_write addr s = Ret 0 t" "pt_grow d s vs t vs" "refcounts t = refcounts s"
    "pte_val t d = (\<lambda>va. if pfn va = pfn addr then PTE_ADDR v OR cow_flags v else pte_val s d va)"
proof -
  have pr: "present s d (unat (PDX addr))" using p v by (simp add: has_presentD)
  let ?pte = "(tab_frame s d (unat (PDX addr)), unat (PTX addr))"
  let ?t = "wr ?pte (PTE_ADDR v OR cow_flags v) s"
  have rv: "rd ?pte s = v" using rd_walk [OF pr] v by simp
  have "do_copy_on_write addr s = Ret 0 ?t"
    using pr rv p rc by (simp add: do_copy_on_write_def proc_walk_noalloc cow_flags_def Let_def flip: d)
  moreover have "pt_wf s d" using inv by (simp add: pt_inv_def)
  note pte_write(5) [OF this pr refl]
  ultimately show thesis using pt_grow_wr [OF inv pr] by (intro that [of ?t]) (simp_all add: wr_frame)
qed

lemma cow_shared:
  fixes s :: kernel
  assumes d: "d = p_pgdir (myproc s)" and inv: "pt_inv s d (w # vs)" and v: "v = pte_val s d addr"
    and p: "has v PTE_P" "has v PTE_COW" and rc: "getrefcount (PTE_ADDR v) s \<noteq> 1" and ul: "use_lock s"
    and sep: "pfn (PTE_ADDR v) \<notin> pt_frames s d \<union> kfn ` set (w # vs)"
  obtains t ws where "do_copy_on_write addr s = Ret 0 t" "pt_inv t d ws" "mm.more t = mm.more s"
    "refcounts t = (refcounts s)(pfn (PTE_ADDR v) := refcounts s (pfn (PTE_ADDR v)) - 1, kfn w := refcounts s (kfn w) + 1)"
    "pte_val t d = (\<lambda>va. if pfn va = pfn addr then V2P w OR cow_flags v OR PTE_P else pte_val s d va)"
    "mem t (kfn w) = mem s (pfn (PTE_ADDR v))"
    "\<forall>f. f \<notin> pt_frames s d \<union> kfn ` set (w # vs) \<longrightarrow> mem t f = mem s f" "kfn w \<notin> pt_frames t d"
proof -
  have pr: "present s d (unat (PDX addr))" using p v by (simp add: has_presentD)
  let ?pte = "(tab_frame s d (unat (PDX addr)), unat (PTX addr))" and ?pa = "PTE_ADDR v"
  have rv: "rd ?pte s = v" using rd_walk [OF pr] v by simp
  let ?s3 = "set_page (kfn w) (mem s (pfn ?pa)) (s\<lparr>freelist := mem s (kfn w) 0\<rparr>)"
  note P = take_page [OF inv]
  from alloc_and_map [OF inv disjI1 [OF pr], where perm = "cow_flags v" and pg = "mem s (pfn ?pa)"] obtain u ws where
    u: "map_single_page d (PGROUNDDOWN addr) (V2P w) (cow_flags v) ?s3 = Ret 0 u" "pt_inv u d ws" "mm.more u = mm.more s"
      "use_lock u = use_lock s"
      "refcounts u = (if use_lock s then (refcounts s)(kfn w := refcounts s (kfn w) + 1) else refcounts s)"
      "pte_val u d = (\<lambda>va. if pfn va = pfn addr then V2P w OR cow_flags v OR PTE_P else pte_val s d va)"
      "mem u (kfn w) = mem s (pfn ?pa)" "\<forall>f. f \<notin> pt_frames s d \<union> kfn ` set (w # vs) \<longrightarrow> mem u f = mem s f"
      "kfn w \<notin> pt_frames u d" .
  let ?t = "decrement_refcount ?pa u"
  note S = pt_same_mem [of ?t u d, simplified decrement_frame, OF refl refl refl]
  have "do_copy_on_write addr s = Ret 0 ?t"
    using pr rv p rc P(1,2) u(1) by (simp add: do_copy_on_write_def proc_walk_noalloc cow_flags_def Let_def flip: d)
  moreover have "kfn w \<noteq> pfn ?pa" using sep by auto
  then have "refcounts ?t = (refcounts s)(pfn ?pa := refcounts s (pfn ?pa) - 1, kfn w := refcounts s (kfn w) + 1)"
    using u(4,5) ul by (simp add: refcounts_decrement fun_eq_iff)
  ultimately show thesis
    using u S by (intro that [of ?t ws]) (simp_all add: decrement_frame)
qed

lemma cow_entry:
  assumes "pg_aligned a" "e = a OR cow_flags v \<or> e = a OR cow_flags v OR PTE_P" "has v PTE_P"
  shows "PTE_ADDR e = a" "has e PTE_P" "has e PTE_W" "\<not> has e PTE_COW" "has e PTE_U = has v PTE_U"
proof -
  have "cow_flags v OR PTE_P < 0x1000" by (rule or_less_page [OF cow_flags_lt]) simp
  then show "PTE_ADDR e = a" using assms(2) PTE_ADDR_compose [OF assms(1)] cow_flags_lt by blast
  have "has (cow_flags v) PTE_P" using assms(3) by (rule has_cow_flags)
  moreover have "\<not> has PTE_P PTE_COW" "\<not> has PTE_P PTE_U" by (simp_all add: has_def)
  moreover have "\<not> has a PTE_COW" "\<not> has a PTE_U" by (simp_all add: has_aligned [OF assms(1)])
  ultimately show "has e PTE_P" "has e PTE_W" "\<not> has e PTE_COW" "has e PTE_U = has v PTE_U"
    using assms(2) has_cow_flags(2-4) [of v] by (elim disjE; simp)+
qed

lemma pg_aligned_heap: "heap_page s v \<Longrightarrow> pg_aligned (V2P v)"
  using kfn_heap [of s v] by (simp add: pg_aligned_def unat_V2P_heap)

lemma uint_word_1: "uint (w :: u8) = 1 \<longleftrightarrow> w = 1"
  by (simp add: word_uint_eq_iff)

text \<open>
  (C4) A write fault on a copy-on-write page gives the process a page of its own. If it is the only
  one that counts on the frame, the entry becomes writable in place. Otherwise the page is
  copied to a frame of the free list, the counts of the two frames are adjusted, and the
  entry points to the copy. In both cases the entry is present, writable and no longer
  copy on write, the process reads the same contents through it, no other entry of its
  table changes, and every frame outside its page tables and the free list keeps its
  contents, the shared one included. With an empty free list the kernel panics.
\<close>

theorem copy_on_write_private:
  fixes s :: kernel
  assumes "use_lock s" "d = p_pgdir (myproc s)" "pt_inv s d vs" "v = pte_val s d addr" "has v PTE_P" "has v PTE_COW"
    "pfn (PTE_ADDR v) \<notin> pt_frames s d \<union> kfn ` set vs"
  shows "if refcounts s (pfn (PTE_ADDR v)) \<noteq> 1 \<and> vs = [] then do_copy_on_write addr s = Panic ''Kernel OOM!''
    else \<exists>t e ws. do_copy_on_write addr s = Ret 0 t \<and> pt_inv t d ws \<and> myproc t = myproc s \<and>
      e = pte_val t d addr \<and> has e PTE_P \<and> has e PTE_W \<and> \<not> has e PTE_COW \<and> has e PTE_U = has v PTE_U \<and>
      mem t (pfn (PTE_ADDR e)) = mem s (pfn (PTE_ADDR v)) \<and>
      (if refcounts s (pfn (PTE_ADDR v)) = 1 then PTE_ADDR e = PTE_ADDR v \<and> refcounts t = refcounts s
       else PTE_ADDR e = V2P (hd vs) \<and> refcounts t = (refcounts s)
         (pfn (PTE_ADDR v) := refcounts s (pfn (PTE_ADDR v)) - 1, kfn (hd vs) := refcounts s (kfn (hd vs)) + 1)) \<and>
      (\<forall>va. pfn va \<noteq> pfn addr \<longrightarrow> pte_val t d va = pte_val s d va) \<and>
      (\<forall>f. f \<notin> pt_frames s d \<union> kfn ` set vs \<longrightarrow> mem t f = mem s f)"
proof -
  let ?f = "pfn (PTE_ADDR v)"
  have rc: "getrefcount (PTE_ADDR v) s = 1 \<longleftrightarrow> refcounts s ?f = 1"
    using assms(1) by (simp add: getrefcount_def va2idx_pfn uint_word_1)
  consider (sole) "refcounts s ?f = 1" | (oom) "refcounts s ?f \<noteq> 1" "vs = []"
    | (shared) w ws where "refcounts s ?f \<noteq> 1" "vs = w # ws" by (cases vs) auto
  then show ?thesis
  proof cases
    case sole
    with cow_sole_owner [OF assms(2-6)] rc obtain t where t: "do_copy_on_write addr s = Ret 0 t"
      "pt_grow d s vs t vs" "refcounts t = refcounts s"
      "pte_val t d = (\<lambda>va. if pfn va = pfn addr then PTE_ADDR v OR cow_flags v else pte_val s d va)" by blast
    have "pte_val t d addr = PTE_ADDR v OR cow_flags v" using t(4) by simp
    note E = cow_entry [OF pg_aligned_PTE_ADDR disjI1 [OF this] assms(5)]
    note G = pt_growD [OF t(2)]
    show ?thesis using sole t E G assms(7) kernel_more(9) [OF G(3)] by auto
  next
    case oom
    have pr: "present s d (unat (PDX addr))" using assms(4,5) by (simp add: has_presentD)
    have rv: "rd (tab_frame s d (unat (PDX addr)), unat (PTX addr)) s = v" using rd_walk [OF pr] assms(4) by simp
    have fl: "freelist s = 0" using assms(3) oom by (simp add: pt_inv_def free_pages_def)
    have r: "getrefcount (PTE_ADDR v) s \<noteq> 1" using oom rc by simp
    have "do_copy_on_write addr s = Panic ''Kernel OOM!''" using pr rv assms(5,6) r fl
      by (simp add: do_copy_on_write_def proc_walk_noalloc Let_def kalloc_simps flip: assms(2))
    then show ?thesis using oom by simp
  next
    case shared
    with assms(3,7) have inv: "pt_inv s d (w # ws)" and sep: "?f \<notin> pt_frames s d \<union> kfn ` set (w # ws)" by simp_all
    have r: "getrefcount (PTE_ADDR v) s \<noteq> 1" using shared rc by simp
    from cow_shared [OF assms(2) inv assms(4-6) r assms(1) sep] obtain t us where
      t: "do_copy_on_write addr s = Ret 0 t" "pt_inv t d us" "mm.more t = mm.more s"
        "refcounts t = (refcounts s)(?f := refcounts s ?f - 1, kfn w := refcounts s (kfn w) + 1)"
        "pte_val t d = (\<lambda>va. if pfn va = pfn addr then V2P w OR cow_flags v OR PTE_P else pte_val s d va)"
        "mem t (kfn w) = mem s ?f" "\<forall>f. f \<notin> pt_frames s d \<union> kfn ` set (w # ws) \<longrightarrow> mem t f = mem s f"
        "kfn w \<notin> pt_frames t d" .
    have "pte_val t d addr = V2P w OR cow_flags v OR PTE_P" using t(5) by simp
    note E = cow_entry [OF pg_aligned_heap [OF take_page(3) [OF inv]] disjI2 [OF this] assms(5)]
    show ?thesis using shared t E kernel_more(9) [OF t(3)] by (auto simp: kfn_def)
  qed
qed

text \<open>
  A machine with one process whose page at \<open>0x1000\<close> is copy on write: directory, table and page
  in the frames \<open>0x110\<close>, \<open>0x111\<close> and \<open>0x300\<close>, and two free pages.
\<close>

definition demo_mem :: "nat \<Rightarrow> nat \<Rightarrow> u32" where
  "demo_mem f i =
     (if f = 0x110 \<and> i = 0 then 0x111007 else if f = 0x111 \<and> i = 1 then 0x300205
      else if f = 0x300 then 7 else if f = 0x400 \<and> i = 0 then 0x80401000 else 0)"

definition demo_tf :: trapframe where
  "demo_tf = \<lparr>tf_edi = 0, tf_esi = 0, tf_ebp = 0, tf_ebx = 0, tf_edx = 0, tf_ecx = 0, tf_eax = 0,
     tf_gs = 0, tf_fs = 0, tf_es = 0x23, tf_ds = 0x23, tf_trapno = 0, tf_err = 0,
     tf_eip = 0, tf_cs = 0x1B, tf_eflags = 0x200, tf_esp = 0x1000, tf_ss = 0x23\<rparr>"

definition demo_wmap :: wmap_data where
  "demo_wmap = \<lparr>w_total = 0, w_addr = replicate 16 0, w_length = replicate 16 0, w_loaded = replicate 16 0,
     w_fd = replicate 16 0, w_flags = replicate 16 0\<rparr>"

definition demo_proc :: proc where
  "demo_proc = \<lparr>p_sz = 0x2000, p_pgdir = 0x80110000, p_kstack = 0x80112000, p_state = RUNNING, p_pid = 1,
     p_parent = None, p_tf = demo_tf, p_chan = None, p_killed = False, p_ofile = replicate 16 None, p_cwd = None,
     p_name = [], p_wmap = demo_wmap\<rparr>"

definition demo_kernel :: kernel where
  "demo_kernel = \<lparr>mem = demo_mem, use_lock = True, freelist = 0x80400000, refcounts = (\<lambda>_. 2), k_end = 0x80110000,
     k_data = 0x80108000, kfs = clean_fs small_disk small_sb [], ftable = [],
     pipes = (\<lambda>_. pipe_init (replicate 512 0)), ptable = [demo_proc], initproc = None, nextpid = 2, cur = 0, ticks = 0\<rparr>"

lemma demo_simps:
  "mem demo_kernel = demo_mem" "use_lock demo_kernel" "refcounts demo_kernel = (\<lambda>_. 2)" "myproc demo_kernel = demo_proc"
  "p_pgdir demo_proc = 0x80110000" "p_wmap demo_proc = demo_wmap"
  by (simp_all add: demo_kernel_def myproc_def procat_def demo_proc_def)

lemma demo_frames:
  "kfn 0x80110000 = 0x110" "kfn 0x80400000 = 0x400" "kfn 0x80401000 = 0x401" "pfn 0x1234 = 1" "unat (PDX 0x1234) = 0"
  "unat (PTX 0x1234) = 1"
  by (simp_all add: kfn_def pfn_def V2P_def unat_PDX unat_PTX)

lemma demo_present: "present demo_kernel 0x80110000 i \<longleftrightarrow> i = 0" "tab_frame demo_kernel 0x80110000 0 = 0x111"
  by (auto simp: present_def tab_frame_def demo_simps demo_frames demo_mem_def has_def PTE_ADDR_def pfn_def)

lemma demo_pt_frames: "pt_frames demo_kernel 0x80110000 = {0x110, 0x111}"
  by (auto simp: pt_frames_def demo_present demo_frames)

lemma demo_pt_inv: "pt_inv demo_kernel 0x80110000 [0x80400000, 0x80401000]"
proof -
  have fl: "freelist demo_kernel = 0x80400000" "k_end demo_kernel = 0x80110000" by (simp_all add: demo_kernel_def)
  have "free_pages demo_kernel [0x80400000, 0x80401000]"
    by (simp add: free_pages_def fl demo_simps demo_frames demo_mem_def heap_page_def pg_aligned_def)
  moreover have "pt_wf demo_kernel 0x80110000"
    by (auto simp: pt_wf_def demo_present demo_frames inj_on_def)
  moreover have "pt_heap demo_kernel 0x80110000"
    by (auto simp: pt_heap_def demo_present heap_page_def fl pg_aligned_def demo_simps demo_frames demo_mem_def
        PTE_ADDR_def P2V_def)
  ultimately show ?thesis by (simp add: pt_inv_def demo_pt_frames demo_frames)
qed

lemma demo_pte: "pte_val demo_kernel 0x80110000 0x1234 = 0x300205"
  by (simp add: pte_val_alt demo_frames demo_present demo_simps demo_mem_def)

lemma demo_cow:
  "has (0x300205 :: u32) PTE_P" "has (0x300205 :: u32) PTE_COW" "\<not> has (0x300205 :: u32) PTE_W"
  "PTE_ADDR 0x300205 = 0x300000" "pfn 0x300000 = 0x300"
  by (simp_all add: has_def PTE_ADDR_def pfn_def)

theorem copy_on_write_private_witness:
  "\<exists>t. do_copy_on_write 0x1234 demo_kernel = Ret 0 t \<and> PTE_ADDR (pte_val t 0x80110000 0x1234) = 0x400000 \<and>
     mem t 0x400 = mem demo_kernel 0x300 \<and> mem t 0x300 = mem demo_kernel 0x300 \<and> refcounts t 0x300 = 1"
proof -
  have "\<exists>t e ws. do_copy_on_write 0x1234 demo_kernel = Ret 0 t \<and> e = pte_val t 0x80110000 0x1234 \<and>
      PTE_ADDR e = V2P 0x80400000 \<and> mem t (pfn (PTE_ADDR e)) = mem demo_kernel 0x300 \<and>
      mem t 0x300 = mem demo_kernel 0x300 \<and> refcounts t 0x300 = 1"
    using copy_on_write_private [OF demo_simps(2) demo_simps(5) [folded demo_simps(4), symmetric] demo_pt_inv
        demo_pte [symmetric]]
    by (auto simp: demo_cow demo_pt_frames demo_frames demo_simps)
  then show ?thesis by (auto simp: V2P_def pfn_def)
qed

subsection \<open>Bytes of user memory\<close>

lemma user_pte_val: "user_pte va s = pte_val s (p_pgdir (myproc s)) va"
  by (simp add: user_pte_def walkpgdir_noalloc rd_walk not_present_pte_val)

lemma bit_set_byte:
  assumes "i < 32"
  shows "bit (set_byte w k b) i = (if 8 * k \<le> i \<and> i < 8 * k + 8 then bit b (i - 8 * k) else bit w i)"
proof -
  have ff: "bit (0xFF :: u32) n \<longleftrightarrow> n < 8" for n
  proof -
    have "(0xFF :: u32) = mask 8" by (simp add: mask_eq_exp_minus_1)
    then show ?thesis by (simp only: bit_mask_iff) auto
  qed
  have b8: "\<not> bit b n" if "8 \<le> n" for n using that bit_imp_le_length [of b n] by auto
  show ?thesis
    unfolding set_byte_def bit_or_iff bit_and_iff bit_not_iff bit_push_bit_iff ff bit_ucast_iff
    using assms b8 by auto
qed

lemma get_set_byte:
  assumes "j < 4" "k < 4" shows "get_byte (set_byte w k b) j = (if j = k then b else get_byte w j)"
proof (rule bit_word_eqI)
  fix n :: nat assume n: "n < LENGTH(8)"
  have lt: "8 * j + n < 32" using assms n by simp
  have "8 * k \<le> 8 * j + n \<and> 8 * j + n < 8 * k + 8 \<longleftrightarrow> j = k" using n by auto
  then show "bit (get_byte (set_byte w k b) j) n = bit (if j = k then b else get_byte w j) n"
    using n lt by (simp add: get_byte_def bit_ucast_iff bit_drop_bit_eq bit_set_byte)
qed

lemma same_byte_iff:
  "unat pa mod 4096 div 4 = unat pa' mod 4096 div 4 \<and> unat pa mod 4 = unat pa' mod 4 \<longleftrightarrow>
   unat pa mod 4096 = unat (pa' :: u32) mod 4096"
proof -
  have "x mod 4 = (x mod 4096) mod 4" for x :: nat by (simp add: mod_mod_cancel)
  then show ?thesis by (metis div_mult_mod_eq)
qed

lemma load8_store8:
  "load8 pa (store8 pa' b s) = (if pfn pa = pfn pa' \<and> unat pa mod 4096 = unat pa' mod 4096 then b else load8 pa s)"
  using same_byte_iff [of pa pa'] by (auto simp: load8_def store8_def set_word_def get_set_byte)

lemma store8_frame:
  "f \<noteq> pfn pa \<Longrightarrow> mem (store8 pa b s) f = mem s f" "mm.more (store8 pa b s) = mm.more s"
  "refcounts (store8 pa b s) = refcounts s" "freelist (store8 pa b s) = freelist s" "k_end (store8 pa b s) = k_end s"
  by (simp_all add: store8_def set_word_def)

lemma unat_or_offset:
  assumes "pg_aligned a" shows "unat (a OR (va AND 0xFFF)) = unat a + unat va mod 4096"
proof -
  have "a AND (va AND 0xFFF) = 0"
    using assms by (subst and.left_commute) (simp add: pg_aligned_iff_and)
  then have "a OR (va AND 0xFFF) = a + (va AND 0xFFF)" using word_plus_and_or [of a "va AND 0xFFF"] by simp
  moreover have "unat (va AND 0xFFF) = unat va mod 4096" using unat_PTE_FLAGS [of va] by (simp add: PTE_FLAGS_def)
  moreover have "unat a + unat va mod 4096 < 4294967296"
  proof -
    obtain k where k: "unat a = 4096 * k" using assms by (auto simp: pg_aligned_def mod_eq_0_iff_dvd)
    then have "k < 1048576" using unat_lt32 [of a] by simp
    moreover have "unat va mod 4096 < 4096" by simp
    ultimately show ?thesis using k by linarith
  qed
  ultimately show ?thesis by (simp add: unat_word_ariths)
qed

lemma user_pa_parts:
  "pfn (PTE_ADDR e OR (va AND 0xFFF)) = pfn (PTE_ADDR e)" "unat (PTE_ADDR e OR (va AND 0xFFF)) mod 4096 = unat va mod 4096"
proof -
  obtain k where k: "unat (PTE_ADDR e) = 4096 * k"
    using pg_aligned_PTE_ADDR [of e] by (auto simp: pg_aligned_def mod_eq_0_iff_dvd)
  show "pfn (PTE_ADDR e OR (va AND 0xFFF)) = pfn (PTE_ADDR e)" "unat (PTE_ADDR e OR (va AND 0xFFF)) mod 4096 = unat va mod 4096"
    by (simp_all add: pfn_def unat_or_offset k)
qed



end
