(* ===== verification/Fs_Op.thy ===== *)
theory Fs_Op
  imports Fs_File
begin

section \<open>A file read as one operation\<close>

text \<open>
  The sequence \<open>begin_op\<close>, \<open>ilock\<close>, \<open>readi\<close>, \<open>iunlock\<close>, \<open>end_op\<close> that system calls and the page-fault
  handler use, on a file system where no operation is under way.
\<close>

lemma cache_cong:
  assumes "bufs t = bufs s" "disk t = disk s"
  shows "view t = view s" "dirty_keys t = dirty_keys s" "lru t = lru s \<Longrightarrow> bc_inv t {} = bc_inv s {}"
proof -
  have b: "bufat i t = bufat i s" for i using assms(1) by (simp add: bufat_def)
  show "view t = view s" using assms(2) by (auto simp: view_def b fun_eq_iff split: option.splits)
  show "dirty_keys t = dirty_keys s" by (simp add: dirty_keys_def dirty_bufs_def b)
  show "lru t = lru s \<Longrightarrow> bc_inv t {} = bc_inv s {}" using assms by (simp add: bc_inv_def b)
qed

definition quiet :: "fsys \<Rightarrow> bool" where
  "quiet s \<longleftrightarrow> bc_inv s {} \<and> havedisk1 s \<and> \<not> log_committing s \<and> log_outstanding s = 0 \<and> log_lh s = [] \<and>
     dirty_keys s = {} \<and> log_size s \<ge> 30"

definition file_at :: "fsys \<Rightarrow> nat \<Rightarrow> nat \<Rightarrow> bool" where
  "file_at s ip N \<longleftrightarrow> ip < length (icache s) \<and> i_ref (iat ip s) \<ge> 1 \<and> \<not> slocked (i_lock (iat ip s)) \<and>
     i_valid (iat ip s) \<and> di_type (i_d (iat ip s)) \<noteq> T_DEV \<and> fmapped s ip N \<and>
     unat (di_size (i_d (iat ip s))) \<le> BSIZE * N"

lemma file_cong:
  assumes "view t = view s" "i_d (iat ip t) = i_d (iat ip s)" "i_dev (iat ip t) = i_dev (iat ip s)"
  shows "faddr t ip = faddr s ip" "fmapped t ip N = fmapped s ip N" "fbyte t ip = fbyte s ip"
proof -
  show f: "faddr t ip = faddr s ip" by (simp add: faddr_def addr_at_def assms fun_eq_iff)
  show "fmapped t ip N = fmapped s ip N" by (simp add: fmapped_def f addr_at_def assms)
  show "fbyte t ip = fbyte s ip" by (simp add: fbyte_def f assms fun_eq_iff)
qed

lemma readi_ok:
  assumes tx: "tx {} l s" and m: "fmapped s ip N" and ty: "di_type (i_d (iat ip s)) \<noteq> T_DEV"
    and sz: "unat (di_size (i_d (iat ip s))) \<le> BSIZE * N" and off: "off \<le> di_size (i_d (iat ip s))"
    and nw: "unat off + unat n < 4294967296"
  defines "k \<equiv> min (unat n) (unat (di_size (i_d (iat ip s))) - unat off)"
  obtains t where "readi ip off n s = Ret (int k, map (fbyte s ip) [unat off..<unat off + k]) t" "tx {} l t"
    "view t = view s" "fs_core t = fs_core s"
proof -
  let ?z = "di_size (i_d (iat ip s))"
  let ?n1 = "if off + n > ?z then ?z - off else n"
  have N: "BSIZE * N \<le> 71680" using m by (simp add: fmapped_def)
  have o: "unat off \<le> unat ?z" using off by (simp add: word_le_nat_alt)
  have uo: "unat (off + n) = unat off + unat n" using nw by (simp add: unat_word_ariths)
  have n1: "unat ?n1 = k" using o uo off by (auto simp: k_def word_less_nat_alt unat_sub)
  have "k \<le> 71680" using sz N by (auto simp: k_def)
  then have sn: "sint ?n1 = int k" using sint_small [of ?n1] n1 by simp
  have "unat off + k \<le> BSIZE * N" using sz o by (auto simp: k_def)
  from readi_loop_ok [OF tx m this, of "[]"] obtain t where
    t: "readi_loop ip (unat off) k [] s = Ret (map (fbyte s ip) [unat off..<unat off + k]) t" "tx {} l t"
      "view t = view s" "fs_core t = fs_core s" by auto
  have c: "\<not> off > ?z" "\<not> off + n < off" using o uo by (auto simp: word_less_nat_alt)
  have "readi ip off n s = bindr (readi_loop ip (unat off) (unat ?n1) [] s) (\<lambda>bs s1. Ret (sint ?n1, bs) s1)"
    using ty c by (simp add: readi_def Let_def)
  then have "readi ip off n s = Ret (int k, map (fbyte s ip) [unat off..<unat off + k]) t"
    unfolding n1 sn by (simp add: t(1))
  then show thesis by (rule that [OF _ t(2-4)])
qed

lemma read_op:
  assumes q: "quiet s" and f: "file_at s ip N" and off: "off \<le> di_size (i_d (iat ip s))"
    and nw: "unat off + unat n < 4294967296"
  defines "k \<equiv> min (unat n) (unat (di_size (i_d (iat ip s))) - unat off)"
  obtains s1 s2 s3 s4 s5 where "begin_op s = Ret () s1" "ilock ip s1 = Ret () s2"
    "readi ip off n s2 = Ret (int k, map (fbyte s ip) [unat off..<unat off + k]) s3"
    "iunlock ip s3 = Ret () s4" "end_op s4 = Ret () s5"
    "\<forall>t \<in> {s1, s2, s3, s4, s5}. curpid t = curpid s \<and> curkilled t = curkilled s"
    "quiet s5" "view s5 = view s" "disk s5 = disk s"
proof -
  let ?ip = "iat ip s"
  define s1 where "s1 = s\<lparr>log_outstanding := 1\<rparr>"
  define s2 where "s2 = set_inode ip (?ip\<lparr>i_lock := (i_lock ?ip)\<lparr>slocked := True, spid := curpid s\<rparr>\<rparr>) s1"
  have b: "begin_op s = Ret () s1" using q by (simp add: begin_op_def quiet_def s1_def)
  have i1: "iat ip s1 = ?ip" by (simp add: s1_def iat_def)
  have F: "ip < length (icache s)" "i_ref ?ip \<ge> 1" "\<not> slocked (i_lock ?ip)" "i_valid ?ip" "di_type (i_d ?ip) \<noteq> T_DEV"
    "fmapped s ip N" "unat (di_size (i_d ?ip)) \<le> BSIZE * N" using f by (simp_all add: file_at_def)
  have i2: "iat ip s2 = ?ip\<lparr>i_lock := (i_lock ?ip)\<lparr>slocked := True, spid := curpid s\<rparr>\<rparr>"
    using F(1) by (simp add: s2_def s1_def set_inode_def iat_def)
  have l: "ilock ip s1 = Ret () s2"
    using F i2 by (simp add: ilock_def i1 acquiresleep_def s2_def) (simp add: s1_def)
  have v2: "view s2 = view s" "dirty_keys s2 = dirty_keys s" "bc_inv s2 {} = bc_inv s {}"
    by (rule cache_cong, simp_all add: s2_def s1_def set_inode_def)+
  have tx2: "tx {} 29 s2" using q v2 by (simp add: tx_def quiet_def) (simp add: s2_def s1_def set_inode_def)
  note C2 = file_cong [of s2 s ip, OF v2(1)]
  have m2: "fmapped s2 ip N" "fbyte s2 ip = fbyte s ip" using C2 F(6) i2 by simp_all
  from readi_ok [OF tx2 m2(1), of off n] F(5,7) i2 off nw obtain s3 where
    r: "readi ip off n s2 = Ret (int k, map (fbyte s ip) [unat off..<unat off + k]) s3" "tx {} 29 s3"
      "view s3 = view s2" "fs_core s3 = fs_core s2" by (auto simp: k_def m2)
  note C3 = fs_core_fields [OF r(4)]
  define s4 where "s4 = set_inode ip ((iat ip s3)\<lparr>i_lock := releasesleep (i_lock (iat ip s3))\<rparr>) s3"
  have u: "iunlock ip s3 = Ret () s4"
    using C3 i2 F(2) by (simp add: iunlock_def holdingsleep_def s4_def) (simp add: s2_def s1_def set_inode_def)
  have lh: "log_lh s3 = []" using r(2) by (simp add: tx_def)
  have lo: "log_outstanding s3 = 1" "log_committing s3 = log_committing s"
    using C3(7) arg_cong [OF r(4), of log_committing] by (simp_all add: s2_def s1_def set_inode_def fs_core_def)
  define s5 where "s5 = s4\<lparr>log_outstanding := 0, log_committing := False\<rparr>"
  have e: "end_op s4 = Ret () s5"
    using lh lo q by (simp add: end_op_def commit_def s5_def s4_def set_inode_def quiet_def)
  have v5: "view s5 = view s3" "dirty_keys s5 = dirty_keys s3" "bc_inv s5 {} = bc_inv s3 {}"
    by (rule cache_cong, simp_all add: s5_def s4_def set_inode_def)+
  have "quiet s5" using r(2) v5 lh by (simp add: quiet_def tx_def) (simp add: s5_def s4_def set_inode_def)
  moreover have "disk s5 = disk s" using C3(1) by (simp add: s5_def s4_def s2_def s1_def set_inode_def)
  moreover have "\<forall>t \<in> {s1, s2, s3, s4, s5}. curpid t = curpid s \<and> curkilled t = curkilled s"
    using C3(6,10) by (simp add: s5_def s4_def s2_def s1_def set_inode_def)
  ultimately show thesis using that [OF b l r(1) u e] v5(1) r(3) v2(1) by simp
qed

end
