(* ===== verification/Demand.thy ===== *)
theory Demand
  imports Cow Fs_Op
begin

section \<open>Pages on demand\<close>

text \<open>
  The first access to a page of a mapping: what the process reads there afterwards, for
  anonymous mappings and for mappings of a file.
\<close>

lemma uload8_mapped:
  assumes "pte_val t (p_pgdir (myproc t)) x = e" "has e PTE_P"
  shows "uload8 x t = Ret (load8 (PTE_ADDR e OR (x AND 0xFFF)) t) t"
  using assms by (simp add: uload8_def user_pte_val user_pa_def)

lemma get_byte_0 [simp]: "get_byte 0 k = 0"
  by (simp add: get_byte_def)

lemma zero_page_byte: "mem t (pfn a) = (\<lambda>_. 0) \<Longrightarrow> load8 a t = 0"
  by (simp add: load8_def)

text \<open>The entry of a page mapped on demand.\<close>

lemma demand_entry:
  assumes "heap_page s m"
  defines "e \<equiv> V2P m OR (PTE_W OR PTE_U) OR PTE_P"
  shows "PTE_ADDR e = V2P m" "has e PTE_P" "has e PTE_W" "has e PTE_U"
proof -
  have "PTE_W OR PTE_U OR PTE_P < 0x1000" by simp
  then show "PTE_ADDR e = V2P m"
    using PTE_ADDR_compose [OF pg_aligned_heap [OF assms(1)]] by (simp add: e_def or.assoc)
  show "has e PTE_P" "has e PTE_W" "has e PTE_U" unfolding e_def has_or by (simp_all add: has_def)
qed

lemma set_wmap_mm [simp]:
  "mem (set_wmap w s) = mem s" "freelist (set_wmap w s) = freelist s" "k_end (set_wmap w s) = k_end s"
  "refcounts (set_wmap w s) = refcounts s" "use_lock (set_wmap w s) = use_lock s"
  "kfs (set_wmap w s) = kfs s" "ftable (set_wmap w s) = ftable s" "cur (set_wmap w s) = cur s"
  by (simp_all add: set_wmap_def set_my_def set_proc_def)

lemma myproc_set_wmap:
  "cur s < length (ptable s) \<Longrightarrow> myproc (set_wmap w s) = (myproc s)\<lparr>p_wmap := w\<rparr>"
  by (simp add: set_wmap_def set_my_def set_proc_def myproc_def procat_def)

text \<open>One more loaded page of mapping \<open>i\<close>.\<close>

definition count_loaded :: "nat \<Rightarrow> wmap_data \<Rightarrow> wmap_data" where
  "count_loaded i w = w\<lparr>w_loaded := (w_loaded w)[i := w_loaded w ! i + 1]\<rparr>"

lemma demand_page:
  fixes s :: kernel
  assumes d: "d = p_pgdir (myproc s)" and inv: "pt_inv s d (m # vs)"
    and room: "present s d (unat (PDX addr)) \<or> vs \<noteq> []" and cur: "cur s < length (ptable s)"
  obtains t ws where
    "do_real_mapping addr i s =
      (let w = p_wmap (myproc s); t' = set_wmap (count_loaded i w) t in
       if w_flags w ! i AND MAP_ANONYMOUS = 0 then bindr (read_in i addr m t') (\<lambda>_ u. Ret 0 u) else Ret 0 t')"
    "pt_inv t d ws" "mm.more t = mm.more s" "kfn m \<notin> pt_frames t d"
    "pte_val t d = (\<lambda>va. if pfn va = pfn addr then V2P m OR (PTE_W OR PTE_U) OR PTE_P else pte_val s d va)"
    "mem t (kfn m) = (\<lambda>_. 0)" "\<forall>f. f \<notin> pt_frames s d \<union> kfn ` set (m # vs) \<longrightarrow> mem t f = mem s f"
proof -
  let ?s2 = "set_page (kfn m) (\<lambda>_. 0) (s\<lparr>freelist := mem s (kfn m) 0\<rparr>)"
  from alloc_and_map [OF inv room, where perm = "PTE_W OR PTE_U" and pg = "\<lambda>_. 0"] obtain t ws where
    t: "map_single_page d (PGROUNDDOWN addr) (V2P m) (PTE_W OR PTE_U) ?s2 = Ret 0 t" "pt_inv t d ws" "mm.more t = mm.more s"
      "use_lock t = use_lock s"
      "refcounts t = (if use_lock s then (refcounts s)(kfn m := refcounts s (kfn m) + 1) else refcounts s)"
      "pte_val t d = (\<lambda>va. if pfn va = pfn addr then V2P m OR (PTE_W OR PTE_U) OR PTE_P else pte_val s d va)"
      "mem t (kfn m) = (\<lambda>_. 0)" "\<forall>f. f \<notin> pt_frames s d \<union> kfn ` set (m # vs) \<longrightarrow> mem t f = mem s f"
      "kfn m \<notin> pt_frames t d" .
  note P = take_page [OF inv] and K = kernel_more(9) [OF t(3)]
  have "myproc ?s2 = myproc s" by (simp add: set_page_def myproc_def procat_def)
  then show thesis
    using P(1,2) t K by (intro that [of t ws]) (simp_all add: do_real_mapping_def count_loaded_def Let_def flip: d)
qed


lemma count_loaded_sel [simp]:
  "w_addr (count_loaded i w) = w_addr w" "w_length (count_loaded i w) = w_length w" "w_fd (count_loaded i w) = w_fd w"
  "w_flags (count_loaded i w) = w_flags w" "w_total (count_loaded i w) = w_total w"
  by (simp_all add: count_loaded_def)

lemma page_fault_mapped:
  assumes "VA_START \<le> addr" "lazily_mapped_index addr s = int i"
  shows "page_fault addr s = do_real_mapping addr i s"
  unfolding page_fault_def using leD [OF assms(1)] assms(2) by simp

text \<open>
  (C18) Anonymous memory is zero and private. The first access to a page of an anonymous mapping
  succeeds when a page (and, if needed, one for a page table) is free: afterwards every byte
  of that page reads as 0, the entry is present, writable and accessible to the user, the
  count of loaded pages of the mapping goes up by one, and no other entry and no frame
  outside the page tables and the free list changes.
\<close>

theorem anonymous_page_zero:
  fixes s :: kernel
  assumes "d = p_pgdir (myproc s)" "pt_inv s d (m # vs)" "present s d (unat (PDX addr)) \<or> vs \<noteq> []"
    "cur s < length (ptable s)" "VA_START \<le> addr" "lazily_mapped_index addr s = int i"
    "w_flags (p_wmap (myproc s)) ! i AND MAP_ANONYMOUS \<noteq> 0"
  shows "\<exists>t e ws. page_fault addr s = Ret 0 t \<and> pt_inv t d ws \<and>
    (\<forall>x. pfn x = pfn addr \<longrightarrow> pte_val t d x = e \<and> uload8 x t = Ret 0 t) \<and> has e PTE_P \<and> has e PTE_W \<and> has e PTE_U \<and>
    myproc t = (myproc s)\<lparr>p_wmap := count_loaded i (p_wmap (myproc s))\<rparr> \<and>
    (\<forall>x. pfn x \<noteq> pfn addr \<longrightarrow> pte_val t d x = pte_val s d x) \<and>
    (\<forall>f. f \<notin> pt_frames s d \<union> kfn ` set (m # vs) \<longrightarrow> mem t f = mem s f)"
proof -
  from demand_page [OF assms(1-4)] obtain t ws where
    t: "do_real_mapping addr i s =
      (let w = p_wmap (myproc s); t' = set_wmap (count_loaded i w) t in
       if w_flags w ! i AND MAP_ANONYMOUS = 0 then bindr (read_in i addr m t') (\<lambda>_ u. Ret 0 u) else Ret 0 t')"
      "pt_inv t d ws" "mm.more t = mm.more s" "kfn m \<notin> pt_frames t d"
      "pte_val t d = (\<lambda>va. if pfn va = pfn addr then V2P m OR (PTE_W OR PTE_U) OR PTE_P else pte_val s d va)"
      "mem t (kfn m) = (\<lambda>_. 0)" "\<forall>f. f \<notin> pt_frames s d \<union> kfn ` set (m # vs) \<longrightarrow> mem t f = mem s f" .
  define u where "u = set_wmap (count_loaded i (p_wmap (myproc s))) t"
  note K = kernel_more [OF t(3)]
  have c: "cur t < length (ptable t)" using K assms(4) by simp
  have my: "myproc u = (myproc s)\<lparr>p_wmap := count_loaded i (p_wmap (myproc s))\<rparr>"
    using myproc_set_wmap [OF c] K by (simp add: u_def)
  have mu: "mem u = mem t" by (simp add: u_def)
  have S: "pt_inv u d ws = pt_inv t d ws" "pte_val u d = pte_val t d"
    by (rule pt_same_mem, simp_all add: u_def)+
  let ?e = "V2P m OR (PTE_W OR PTE_U) OR PTE_P"
  have e: "pte_val u d x = ?e" if "pfn x = pfn addr" for x using that t(5) by (simp add: S)
  note E = demand_entry [OF take_page(3) [OF assms(2)]]
  have "uload8 x u = Ret 0 u" if x: "pfn x = pfn addr" for x
  proof -
    have "pte_val u (p_pgdir (myproc u)) x = ?e" using e [OF x] my assms(1) by simp
    from uload8_mapped [OF this E(2)] have "uload8 x u = Ret (load8 (PTE_ADDR ?e OR (x AND 0xFFF)) u) u" .
    moreover have "pfn (PTE_ADDR ?e OR (x AND 0xFFF)) = kfn m"
      using user_pa_parts(1) [of ?e x] E(1) by (simp add: kfn_def)
    ultimately show ?thesis using t(6) by (simp add: zero_page_byte mu)
  qed
  then show ?thesis
    using t page_fault_mapped [OF assms(5,6)] assms(7) my e E(2-4) mu S
    by (intro exI [of _ u] exI [of _ ?e] exI [of _ ws]) (simp add: Let_def flip: u_def)
qed

definition demo_anon :: kernel where
  "demo_anon = set_wmap (demo_wmap\<lparr>w_total := 1, w_addr := (w_addr demo_wmap)[0 := 0x60000000],
     w_length := (w_length demo_wmap)[0 := 0x2000], w_flags := (w_flags demo_wmap)[0 := 14]\<rparr>) demo_kernel"

lemma demo_anon_simps:
  "cur demo_anon < length (ptable demo_anon)"
  "myproc demo_anon = demo_proc\<lparr>p_wmap := demo_wmap\<lparr>w_total := 1, w_addr := (w_addr demo_wmap)[0 := 0x60000000],
     w_length := (w_length demo_wmap)[0 := 0x2000], w_flags := (w_flags demo_wmap)[0 := 14]\<rparr>\<rparr>"
  "pt_inv demo_anon 0x80110000 [0x80400000, 0x80401000]"
proof -
  have c: "cur demo_kernel < length (ptable demo_kernel)" by (simp add: demo_kernel_def)
  then show "cur demo_anon < length (ptable demo_anon)" by (simp add: demo_anon_def set_wmap_def set_my_def set_proc_def)
  show "myproc demo_anon = demo_proc\<lparr>p_wmap := demo_wmap\<lparr>w_total := 1, w_addr := (w_addr demo_wmap)[0 := 0x60000000],
     w_length := (w_length demo_wmap)[0 := 0x2000], w_flags := (w_flags demo_wmap)[0 := 14]\<rparr>\<rparr>"
    unfolding demo_anon_def myproc_set_wmap [OF c] demo_simps by simp
  have "pt_inv demo_anon 0x80110000 [0x80400000, 0x80401000] = pt_inv demo_kernel 0x80110000 [0x80400000, 0x80401000]"
    by (rule pt_same_mem) (simp_all add: demo_anon_def)
  then show "pt_inv demo_anon 0x80110000 [0x80400000, 0x80401000]" using demo_pt_inv by simp
qed

theorem anonymous_page_zero_witness:
  "\<exists>t. page_fault 0x60001234 demo_anon = Ret 0 t \<and> uload8 0x60001000 t = Ret 0 t \<and>
     w_loaded (p_wmap (myproc t)) ! 0 = 1"
proof -
  let ?s = demo_anon
  have "lazily_mapped_index 0x60001234 ?s = int 0"
    by (simp add: lazily_mapped_index_def demo_anon_simps in_mapping_def demo_wmap_def upt_rec)
  moreover have "w_flags (p_wmap (myproc ?s)) ! 0 AND MAP_ANONYMOUS \<noteq> 0"
    by (simp add: demo_anon_simps demo_wmap_def)
  moreover have "0x80110000 = p_pgdir (myproc ?s)" by (simp add: demo_anon_simps demo_simps)
  ultimately obtain t where t: "page_fault 0x60001234 ?s = Ret 0 t"
      "\<forall>x. pfn x = pfn 0x60001234 \<longrightarrow> uload8 x t = Ret 0 t"
      "myproc t = (myproc ?s)\<lparr>p_wmap := count_loaded 0 (p_wmap (myproc ?s))\<rparr>"
    using anonymous_page_zero [OF _ demo_anon_simps(3) _ demo_anon_simps(1), where addr = "0x60001234" and i = 0] by auto
  have "pfn 0x60001000 = pfn 0x60001234" by (simp add: pfn_def)
  then show ?thesis using t by (simp add: demo_anon_simps count_loaded_def demo_wmap_def)
qed

subsection \<open>Mappings of a file\<close>

lemma on_fs_Ret:
  assumes "f ((kfs s)\<lparr>curpid := p_pid (myproc s), curkilled := p_killed (myproc s)\<rparr>) = Ret x t"
  shows "on_fs f s = Ret x (s\<lparr>kfs := t\<rparr>)"
  using assms by (simp add: on_fs_def)

lemma myproc_kfs [simp]: "myproc (s\<lparr>kfs := t\<rparr>) = myproc s" "fileat i (s\<lparr>kfs := t\<rparr>) = fileat i s"
  by (simp_all add: myproc_def procat_def fileat_def)

lemma store_bytes_more: "mm.more (store_bytes pa bs s) = mm.more s"
  by (induction bs arbitrary: pa s) (simp_all add: store8_frame)

lemma store_bytes_kfs: "store_bytes pa bs (s\<lparr>kfs := t\<rparr>) = (store_bytes pa bs s)\<lparr>kfs := t\<rparr>"
proof (induction bs arbitrary: pa s)
  case (Cons b bs)
  have "store8 pa b (s\<lparr>kfs := t\<rparr>) = (store8 pa b s)\<lparr>kfs := t\<rparr>"
    by (cases s) (simp add: store8_def set_word_def)
  then show ?case using Cons by simp
qed simp

lemma pfn_in_page:
  assumes "pg_aligned a" "k < 4096" shows "pfn (a + of_nat k) = pfn a" "unat (a + of_nat k) mod 4096 = k"
proof -
  obtain q where q: "unat a = 4096 * q" using assms(1) by (auto simp: pg_aligned_def mod_eq_0_iff_dvd)
  then have "q < 1048576" using unat_lt32 [of a] by simp
  then have "unat (a + of_nat k) = 4096 * q + k" using q assms(2) by (subst unat_word_ariths) (simp add: unat_of_nat)
  then show "pfn (a + of_nat k) = pfn a" "unat (a + of_nat k) mod 4096 = k" using q assms(2) by (simp_all add: pfn_def)
qed

text \<open>Storing bytes from an offset inside a page.\<close>

lemma store_bytes_page:
  assumes "pg_aligned a" "j + length bs \<le> 4096"
  shows "f \<noteq> pfn a \<Longrightarrow> mem (store_bytes (a + of_nat j) bs s) f = mem s f"
    "pfn x = pfn a \<Longrightarrow> load8 x (store_bytes (a + of_nat j) bs s) =
      (if j \<le> unat x mod 4096 \<and> unat x mod 4096 < j + length bs then bs ! (unat x mod 4096 - j) else load8 x s)"
  using assms(2)
proof (induction bs arbitrary: j s)
  case (Cons b bs)
  {
    case 1
    then show ?case using Cons.IH(1) [of "Suc j"] pfn_in_page(1) [OF assms(1), of j]
      by (simp add: store8_frame algebra_simps)
  next
    case 2
    have j: "j < 4096" using 2 by simp
    have e: "a + of_nat j + 1 = a + of_nat (Suc j)" by simp
    have "load8 x (store8 (a + of_nat j) b s) = (if unat x mod 4096 = j then b else load8 x s)"
      using 2 pfn_in_page [OF assms(1) j] by (simp add: load8_store8)
    moreover have "Suc j + length bs \<le> 4096" using 2 by simp
    note Cons.IH(2) [OF 2(1) this, of "store8 (a + of_nat j) b s"]
    ultimately show ?case unfolding store_bytes.simps e by (auto simp: nth_Cons' simp del: of_nat_Suc)
  }
qed auto

lemma quiet_cur [simp]:
  "quiet (s\<lparr>curpid := p, curkilled := b\<rparr>) = quiet s" "file_at (s\<lparr>curpid := p, curkilled := b\<rparr>) ip N = file_at s ip N"
  "fbyte (s\<lparr>curpid := p, curkilled := b\<rparr>) ip = fbyte s ip" "iat ip (s\<lparr>curpid := p, curkilled := b\<rparr>) = iat ip s"
proof -
  let ?t = "s\<lparr>curpid := p, curkilled := b\<rparr>"
  have c: "view ?t = view s" "dirty_keys ?t = dirty_keys s" "bc_inv ?t {} = bc_inv s {}" by (rule cache_cong, simp_all)+
  show i: "iat ip ?t = iat ip s" by (simp add: iat_def)
  show "quiet ?t = quiet s" by (simp add: quiet_def c)
  show "fbyte ?t ip = fbyte s ip" by (rule file_cong(3) [OF c(1)]) (simp_all add: iat_def)
  have "fmapped ?t ip N = fmapped s ip N" by (rule file_cong(2) [OF c(1)]) (simp_all add: iat_def)
  then show "file_at ?t ip N = file_at s ip N" by (simp add: file_at_def iat_def)
qed

lemma read_in_ok:
  assumes mf: "mapped_file i s = Ret f s" and q: "quiet (kfs s)" and fa: "file_at (kfs s) ip N" and ip: "ip = f_ip (fileat f s)"
    and off: "off = addr - w_addr (p_wmap (myproc s)) ! i" and le: "off \<le> di_size (i_d (iat ip (kfs s)))"
    and rem: "rest = w_addr (p_wmap (myproc s)) ! i + w_length (p_wmap (myproc s)) ! i - addr"
    and k: "k = min (min (unat rest) 4096) (unat (di_size (i_d (iat ip (kfs s)))) - unat off)"
  obtains g where "read_in i addr m s =
      Ret () ((store_bytes (V2P m) (map (fbyte (kfs s) ip) [unat off..<unat off + k]) s)\<lparr>kfs := g\<rparr>)"
    "quiet g" "view g = view (kfs s)"
proof -
  let ?fs = "(kfs s)\<lparr>curpid := p_pid (myproc s), curkilled := p_killed (myproc s)\<rparr>"
  let ?n = "if rest > PGSIZE then PGSIZE else rest"
  have n: "unat ?n = min (unat rest) 4096" by (auto simp: word_less_nat_alt)
  have "unat (di_size (i_d (iat ip (kfs s)))) \<le> 71680" using fa by (auto simp: file_at_def fmapped_def)
  then have "unat off \<le> 71680" using le by (simp add: word_le_nat_alt)
  then have nw: "unat off + unat ?n < 4294967296" using n by simp
  have q': "quiet ?fs" "file_at ?fs ip N" "off \<le> di_size (i_d (iat ip ?fs))" using q fa le by simp_all
  have kk: "min (unat ?n) (unat (di_size (i_d (iat ip ?fs))) - unat off) = k" by (simp only: n quiet_cur k)
  from read_op [OF q' nw, unfolded kk] obtain s1 s2 s3 s4 s5 where
    r: "begin_op ?fs = Ret () s1" "ilock ip s1 = Ret () s2"
      "readi ip off ?n s2 = Ret (int k, map (fbyte ?fs ip) [unat off..<unat off + k]) s3"
      "iunlock ip s3 = Ret () s4" "end_op s4 = Ret () s5"
      "\<forall>t \<in> {s1, s2, s3, s4, s5}. curpid t = curpid ?fs \<and> curkilled t = curkilled ?fs"
      "quiet s5" "view s5 = view ?fs" "disk s5 = disk ?fs" .
  have c: "t\<lparr>curpid := p_pid (myproc s), curkilled := p_killed (myproc s)\<rparr> = t" if "t \<in> {s1, s2, s3, s4, s5}" for t
    using r(6) that by (cases t) auto
  let ?u = "store_bytes (V2P m) (map (fbyte (kfs s) ip) [unat off..<unat off + k]) s"
  have my: "myproc ?u = myproc s" by (rule kernel_more(9)) (rule store_bytes_more)
  have "on_fs begin_op s = Ret () (s\<lparr>kfs := s1\<rparr>)" "on_fs (ilock ip) (s\<lparr>kfs := s1\<rparr>) = Ret () (s\<lparr>kfs := s2\<rparr>)"
    "on_fs (readi ip off ?n) (s\<lparr>kfs := s2\<rparr>) = Ret (int k, map (fbyte (kfs s) ip) [unat off..<unat off + k]) (s\<lparr>kfs := s3\<rparr>)"
    "on_fs (iunlock ip) (?u\<lparr>kfs := s3\<rparr>) = Ret () (?u\<lparr>kfs := s4\<rparr>)" "on_fs end_op (?u\<lparr>kfs := s4\<rparr>) = Ret () (?u\<lparr>kfs := s5\<rparr>)"
    using r(1-5) c my by (simp_all add: on_fs_def)
  then have "read_in i addr m s = Ret () (?u\<lparr>kfs := s5\<rparr>)"
    using mf by (cases "PGSIZE < rest") (simp_all add: read_in_def Let_def store_bytes_kfs flip: ip off rem)
  moreover have "view s5 = view (kfs s)" using r(8) cache_cong(1) [of ?fs "kfs s"] by simp
  ultimately show thesis using r(7) by (intro that)
qed


text \<open>
  A process with a file mapped at \<open>0x60000000\<close>; byte \<open>i\<close> of the file is \<open>i mod 256\<close>. The fault is at the
  address \<open>0x60000005\<close>, so the first byte of the page becomes byte 5 of the file.
\<close>

definition demo_fs :: fsys where
  "demo_fs = (clean_fs (small_disk((1, 70) := map of_nat [0..<512])) small_sb [sample_inode])\<lparr>log_outstanding := 0\<rparr>"

definition demo_file :: kernel where
  "demo_file = set_my (demo_proc\<lparr>p_ofile := [Some 0], p_wmap := demo_wmap\<lparr>w_total := 1,
     w_addr := (w_addr demo_wmap)[0 := 0x60000000], w_length := (w_length demo_wmap)[0 := 0x2000],
     w_flags := (w_flags demo_wmap)[0 := 10]\<rparr>\<rparr>)
     (demo_kernel\<lparr>kfs := demo_fs, ftable := [\<lparr>f_type = FD_INODE, f_ref = 1, f_readable = True, f_writable = True,
        f_pipe = 0, f_ip = 0, f_off = 0\<rparr>]\<rparr>)"

lemma demo_fs_ok: "quiet demo_fs" "file_at demo_fs 0 2" "iat 0 demo_fs = sample_inode" "fbyte demo_fs 0 5 = 5"
proof -
  let ?c = "clean_fs (small_disk((1, 70) := map of_nat [0..<512])) small_sb [sample_inode]"
  have c: "view demo_fs = view ?c" "dirty_keys demo_fs = dirty_keys ?c" "bc_inv demo_fs {} = bc_inv ?c {}"
    by (rule cache_cong, simp_all add: demo_fs_def)+
  have tx: "tx {} 29 ?c" by (rule clean_fs_tx)
  then show "quiet demo_fs" unfolding quiet_def c by (simp add: tx_def) (simp add: demo_fs_def clean_fs_def)
  show i: "iat 0 demo_fs = sample_inode" by (simp add: iat_def demo_fs_def)
  have v: "view demo_fs = small_disk((1, 70) := map of_nat [0..<512])" by (simp add: c)
  have f: "faddr demo_fs 0 k = (if k = 0 then 70 else 71)" if "k < 2" for k
    using that by (auto simp: faddr_def addr_at_def i sample_inode_def less_2_cases_iff)
  show "fbyte demo_fs 0 5 = 5" by (simp add: fbyte_def f v)
  have "fmapped demo_fs 0 2"
    by (auto simp: fmapped_def i f v small_disk_def less_2_cases_iff inj_on_def split: if_splits) (simp_all add: sample_inode_def)
  moreover have "length (icache demo_fs) = 1" by (simp add: demo_fs_def)
  ultimately show "file_at demo_fs 0 2"
    by (simp add: file_at_def i) (simp add: sample_inode_def initsleeplock_def)
qed


end
