(* ===== verification/Stable.thy ===== *)
theory Stable
  imports Cow Syscall
begin

section \<open>What every kernel operation keeps\<close>

text \<open>
  \<open>ends P r\<close>: if the operation returns or sleeps, it does so in a state with \<open>P\<close>. The locale lists
  the elementary changes that the code makes to the kernel state; a predicate that survives
  those survives every system call, trap handler and page fault, except for creating and
  reaping processes, which are treated separately.
\<close>

definition ends :: "('s \<Rightarrow> bool) \<Rightarrow> ('a, 's) res \<Rightarrow> bool" where
  "ends P r \<longleftrightarrow> (case r of Ret x t \<Rightarrow> P t | Sleeps t \<Rightarrow> P t | Panic m \<Rightarrow> True | Diverge \<Rightarrow> True)"

lemma ends_simps [simp]:
  "ends P (Ret x t) = P t" "ends P (Sleeps t) = P t" "ends P (Panic m)" "ends P Diverge"
  by (simp_all add: ends_def)

lemma ends_bind:
  "ends P m \<Longrightarrow> (\<And>x t. m = Ret x t \<Longrightarrow> P t \<Longrightarrow> ends P (f x t)) \<Longrightarrow> ends P (bindr m f)"
  by (cases m) simp_all

lemma ends_bind_to:
  "ends Q m \<Longrightarrow> (\<And>t. Q t \<Longrightarrow> P t) \<Longrightarrow> (\<And>x t. Q t \<Longrightarrow> ends P (f x t)) \<Longrightarrow> ends P (bindr m f)"
  by (cases m) simp_all

lemma ends_weaken: "ends P r \<Longrightarrow> (\<And>t. P t \<Longrightarrow> Q t) \<Longrightarrow> ends Q r"
  by (cases r) simp_all

named_theorems stab

locale kstable =
  fixes P :: "kernel \<Rightarrow> bool"
  assumes P_mm: "P s \<Longrightarrow> mm.more t = mm.more s \<Longrightarrow> P t"
    and P_kfs [stab]: "P s \<Longrightarrow> P (s\<lparr>kfs := f\<rparr>)"
    and P_ftable: "P s \<Longrightarrow> P (s\<lparr>ftable := ft\<rparr>)"
    and P_pipes [stab]: "P s \<Longrightarrow> P (s\<lparr>pipes := p\<rparr>)"
    and P_ticks [stab]: "P s \<Longrightarrow> P (s\<lparr>ticks := n\<rparr>)"
    and P_my: "P s \<Longrightarrow> p_pid q = p_pid (myproc s) \<Longrightarrow> p_parent q = p_parent (myproc s) \<Longrightarrow>
      p_state q = p_state (myproc s) \<Longrightarrow> P (set_my q s)"
    and P_state: "P s \<Longrightarrow> st \<in> {SLEEPING, RUNNABLE} \<Longrightarrow> P (set_my ((myproc s)\<lparr>p_chan := c, p_state := st\<rparr>) s)"
    and P_wakeup [stab]: "P s \<Longrightarrow> P (wakeup ch s)"
    and P_kill: "P s \<Longrightarrow> P (snd (kill pid s))"
begin

subsection \<open>Memory\<close>

lemma P_mm_upd [stab]:
  assumes "P s"
  shows "P (set_page f pg s)" "P (set_word f i w s)" "P (wr p w s)" "P (increment_refcount a s)"
    "P (decrement_refcount a s)" "P (s\<lparr>freelist := v\<rparr>)" "P (store8 a b s)" "P (store_bytes a bs s)"
proof -
  have m: "P t" if "mm.more t = mm.more s" for t using P_mm [OF assms that] .
  have "mm.more (store_bytes a bs s) = mm.more s" for a :: u32 and bs :: "u8 list" and s :: kernel
    by (induction bs arbitrary: a s) (simp_all add: store8_frame)
  then show "P (store_bytes a bs s)" by (rule m)
  show "P (set_page f pg s)" "P (set_word f i w s)" "P (wr p w s)" "P (increment_refcount a s)"
    "P (decrement_refcount a s)" "P (s\<lparr>freelist := v\<rparr>)" "P (store8 a b s)"
    by (rule m, simp add: set_page_def set_word_def wr_frame increment_frame decrement_frame store8_frame)+
qed

lemma kalloc_st: "kalloc s = (v, t) \<Longrightarrow> P s \<Longrightarrow> P t"
  by (auto simp: kalloc_def Let_def split: if_splits intro: stab)

lemma kfree_st [stab]: "P s \<Longrightarrow> ends P (kfree v s)"
  by (auto simp: kfree_def Let_def intro!: stab)

lemma walkpgdir_st: "walkpgdir d va al s = (r, t) \<Longrightarrow> P s \<Longrightarrow> P t"
  by (auto simp: walkpgdir_def Let_def split: if_splits prod.splits dest: kalloc_st intro!: stab)

lemma mappages_loop_st: "P s \<Longrightarrow> ends P (mappages_loop d a l pa perm s)"
proof (induction d a l pa perm s rule: mappages_loop.induct)
  case (1 d a l pa perm s)
  obtain r t where w: "walkpgdir d a True s = (r, t)" by fastforce
  then have t: "P t" using walkpgdir_st 1(2) by blast
  show ?case
  proof (cases r)
    case None
    then show ?thesis using w t by (simp add: mappages_loop.simps [of d a])
  next
    case (Some pte)
    have "P (increment_refcount pa (wr pte (pa OR perm OR PTE_P) t))" using t by (intro stab)
    then show ?thesis using 1(1) [OF w [symmetric] Some] w Some
      by (auto simp: mappages_loop.simps [of d a] Let_def)
  qed
qed

lemma mappages_st [stab]: "P s \<Longrightarrow> ends P (mappages d va sz pa perm s)"
  by (simp add: mappages_def mappages_loop_st)

lemma dealloc_step_st [stab]: "P s \<Longrightarrow> ends P (dealloc_step d a s)"
  by (auto simp: dealloc_step_def Let_def split: prod.splits option.splits dest: walkpgdir_st
      intro!: stab ends_bind)

lemma deallocuvm_loop_st: "P s \<Longrightarrow> ends P (deallocuvm_loop d a sz s)"
proof (induction d a sz s rule: deallocuvm_loop.induct)
  case (1 d a sz s)
  show ?case
  proof (cases "dealloc_step d a s")
    case (Ret b t)
    then show ?thesis using 1 dealloc_step_st [OF 1(2), of d a] by (simp add: deallocuvm_loop.simps [of d a])
  next
    case (Sleeps t)
    then show ?thesis using 1 dealloc_step_st [OF 1(2), of d a] by (simp add: deallocuvm_loop.simps [of d a])
  qed (use 1 in \<open>simp_all add: deallocuvm_loop.simps [of d a]\<close>)
qed

lemma deallocuvm_st [stab]: "P s \<Longrightarrow> ends P (deallocuvm d o' n s)"
  by (auto simp: deallocuvm_def intro!: ends_bind deallocuvm_loop_st)

lemma freevm_loop_st [stab]: "P s \<Longrightarrow> ends P (freevm_loop d is s)"
  by (induction "is" arbitrary: s) (auto intro!: ends_bind stab)

lemma freevm_st [stab]: "P s \<Longrightarrow> ends P (freevm d s)"
  by (auto simp: freevm_def intro!: ends_bind stab)

lemma setupkvm_loop_st [stab]: "P s \<Longrightarrow> ends P (setupkvm_loop d ks s)"
proof (induction ks arbitrary: s)
  case (Cons k ks)
  then show ?case by (cases k) (auto intro!: ends_bind stab)
qed simp

lemma setupkvm_st [stab]: "P s \<Longrightarrow> ends P (setupkvm s)"
  by (auto simp: setupkvm_def Let_def split: prod.splits dest: kalloc_st intro!: stab)

lemma allocuvm_loop_st: "P s \<Longrightarrow> ends P (allocuvm_loop d a o' n s)"
proof (induction d a o' n s rule: allocuvm_loop.induct)
  case (1 d a o' n s)
  obtain v t where k: "kalloc s = (v, t)" by fastforce
  then have t: "P t" using kalloc_st 1(2) by blast
  show ?case
    using 1(1) [OF _ k [symmetric]] 1(2) k t
    by (subst allocuvm_loop.simps) (auto simp: Let_def intro!: ends_bind stab)
qed

lemma allocuvm_st [stab]: "P s \<Longrightarrow> ends P (allocuvm d o' n s)"
  by (auto simp: allocuvm_def intro!: allocuvm_loop_st)

lemma clearpteu_st [stab]: "P s \<Longrightarrow> ends P (clearpteu d u s)"
  by (auto simp: clearpteu_def split: prod.splits option.splits dest: walkpgdir_st intro!: stab)

lemma loaduvm_loop_st:
  "P s \<Longrightarrow> \<forall>o' m s. P s \<longrightarrow> ends P (rdi o' m s) \<Longrightarrow> ends P (loaduvm_loop rdi d addr off sz fl i s)"
proof (induction rdi d addr off sz fl i s rule: loaduvm_loop.induct)
  case (1 rdi d addr off sz fl i s)
  obtain r t where w: "walkpgdir d (addr + i) False s = (r, t)" by fastforce
  then have t: "P t" using walkpgdir_st 1(2) by blast
  note p = 1(2) and rdi = 1(3)
  show ?case
  proof (cases "i < sz")
    case False
    then show ?thesis using p by (subst loaduvm_loop.simps) simp
  next
    case i: True
    show ?thesis
    proof (cases r)
      case None
      then show ?thesis using w i by (subst loaduvm_loop.simps) simp
    next
      case (Some pte)
      note IH = 1(1) [OF i w [symmetric] Some refl refl _ refl refl _ refl refl refl]
      have "ends P (rdi (off + i) (if sz - i < PGSIZE then sz - i else PGSIZE) t)" using rdi t by blast
      then show ?thesis
        unfolding loaduvm_loop.simps [of rdi d addr off sz fl i s] if_P [OF i] w Some Let_def prod.case option.case
        by (rule ends_bind) (use IH rdi in \<open>auto intro!: stab; blast intro: stab\<close>)
    qed
  qed
qed

lemma loaduvm_st: "P s \<Longrightarrow> \<forall>o' m s. P s \<longrightarrow> ends P (rdi o' m s) \<Longrightarrow> ends P (loaduvm rdi d addr off sz fl s)"
  by (simp add: loaduvm_def loaduvm_loop_st)

lemma copyuvm_loop_st: "P s \<Longrightarrow> ends P (copyuvm_loop d pd sz i s)"
proof (induction d pd sz i s rule: copyuvm_loop.induct)
  case (1 d pd sz i s)
  obtain r t where w: "walkpgdir pd i False s = (r, t)" by fastforce
  then have t: "P t" using walkpgdir_st 1(2) by blast
  note p = 1(2)
  show ?case
  proof (cases "i < sz")
    case False
    then show ?thesis using p by (subst copyuvm_loop.simps) simp
  next
    case i: True
    show ?thesis
    proof (cases r)
      case None
      then show ?thesis using w i by (subst copyuvm_loop.simps) simp
    next
      case (Some pte)
      show ?thesis
      proof (cases "has (rd pte t) PTE_P")
        case False
        then show ?thesis using w i Some by (subst copyuvm_loop.simps) simp
      next
        case P: True
        let ?pa = "PTE_ADDR (rd pte t)" and ?fl = "PTE_FLAGS (rd pte t)"
        obtain fl u where fu: "(if has ?fl PTE_W then
            let fl = (?fl AND NOT PTE_W) OR PTE_COW in (fl, wr pte (?pa OR fl) t) else (?fl, t)) = (fl, u)" by fastforce
        have u: "P u" using fu t by (auto simp: Let_def split: if_splits intro: stab)
        note IH = 1(1) [OF i w [symmetric] Some _ refl refl fu [symmetric] refl]
        have "ends P (mappages d i PGSIZE ?pa fl u)" using u by (rule stab)
        then show ?thesis
          unfolding copyuvm_loop.simps [of d pd sz i s] if_P [OF i] w Some prod.case option.case
          using P fu IH by (simp add: Let_def) (auto intro!: ends_bind stab)
      qed
    qed
  qed
qed

lemma copyuvm_st [stab]: "P s \<Longrightarrow> ends P (copyuvm d sz s)"
  by (auto simp: copyuvm_def intro!: ends_bind stab copyuvm_loop_st)

lemma uva2ka_st [stab]: "P s \<Longrightarrow> ends P (uva2ka d u s)"
  by (auto simp: uva2ka_def split: prod.splits option.splits dest: walkpgdir_st)

lemma copyout_st [stab]: "P s \<Longrightarrow> ends P (copyout d va buf s)"
proof (induction d va buf s rule: copyout.induct)
  case (1 d va buf s)
  show ?case
  proof (cases "length buf > 0")
    case True
    note IH = 1(1) [OF True refl _ _ refl refl refl]
    show ?thesis
      unfolding copyout.simps [of d va buf s] if_P [OF True] Let_def
    proof (rule ends_bind)
      show "ends P (uva2ka d (PGROUNDDOWN va) s)" using 1(2) by (rule stab)
      fix x t assume "uva2ka d (PGROUNDDOWN va) s = Ret x t" "P t"
      then show "ends P (if x = 0 then Ret (- 1) t else copyout d (PGROUNDDOWN va + PGSIZE)
          (drop (if unat (PGSIZE - (va - PGROUNDDOWN va)) > length buf then length buf
             else unat (PGSIZE - (va - PGROUNDDOWN va))) buf)
          (store_bytes (V2P (x + (va - PGROUNDDOWN va))) (take (if unat (PGSIZE - (va - PGROUNDDOWN va)) > length buf
             then length buf else unat (PGSIZE - (va - PGROUNDDOWN va))) buf) t))"
        using IH by (cases "x = 0") (simp, simp only: if_False, blast intro: stab)
    qed
  next
    case False
    then show ?thesis using 1(2) by (subst copyout.simps) simp
  qed
qed

subsection \<open>Files\<close>

lemma on_fs_st [stab]: "P s \<Longrightarrow> ends P (on_fs f s)"
  by (auto simp: on_fs_def split: res.splits intro: stab)

lemma kputs_st [stab]: "P s \<Longrightarrow> ends P (kputs cs s)"
  by (simp add: kputs_def stab)

lemma set_file_st [stab]: "P s \<Longrightarrow> P (set_file f x s)"
  by (simp add: set_file_def P_ftable)

lemma pipe_wakeups_st [stab]: "P s \<Longrightarrow> P (pipe_wakeups p cs s)"
  by (induction cs arbitrary: s) (auto intro: stab)

lemma filealloc_st: "filealloc s = (r, t) \<Longrightarrow> P s \<Longrightarrow> P t"
  by (auto simp: filealloc_def split: option.splits intro: stab)

lemma filedup_st [stab]: "P s \<Longrightarrow> ends P (filedup f s)"
  by (auto simp: filedup_def intro: stab)

lemma kpipeclose_st [stab]: "P s \<Longrightarrow> ends P (kpipeclose p w s)"
  by (auto simp: kpipeclose_def Let_def split: prod.splits intro!: stab)

lemma fileclose_st [stab]: "P s \<Longrightarrow> ends P (fileclose f s)"
  by (auto simp: fileclose_def Let_def intro!: stab)

lemma filestat_st [stab]: "P s \<Longrightarrow> ends P (filestat f s)"
  by (auto simp: filestat_def intro!: stab)

lemma pipealloc_st [stab]: "P s \<Longrightarrow> ends P (pipealloc s)"
  unfolding pipealloc_def Let_def
  by (auto split: prod.splits option.splits intro!: ends_bind stab) (blast dest: filealloc_st kalloc_st)+

lemma my_fields_st [stab]:
  assumes "P s"
  shows "P (set_my ((myproc s)\<lparr>p_ofile := o'\<rparr>) s)" "P (set_my ((myproc s)\<lparr>p_wmap := w\<rparr>) s)"
    "P (set_my ((myproc s)\<lparr>p_sz := n\<rparr>) s)" "P (set_my ((myproc s)\<lparr>p_tf := tf\<rparr>) s)"
    "P (set_my ((myproc s)\<lparr>p_cwd := c\<rparr>) s)" "P (set_my ((myproc s)\<lparr>p_killed := b\<rparr>) s)"
    "P (set_my ((myproc s)\<lparr>p_name := nm, p_pgdir := d, p_sz := n, p_tf := tf\<rparr>) s)" "P (set_wmap w s)" "P (set_eax r s)"
    "P (set_my (myproc s) s)"
  using assms by (auto simp: set_wmap_def set_eax_def intro!: P_my)

lemma fdalloc_st: "fdalloc f s = (r, t) \<Longrightarrow> P s \<Longrightarrow> P t"
  by (auto simp: fdalloc_def split: option.splits intro: stab)

lemma dup_st [stab]: "P s \<Longrightarrow> ends P (dup fd s)"
  by (auto simp: dup_def Let_def split: prod.splits option.splits dest: fdalloc_st intro!: ends_bind stab)

lemma ksleep_st [stab]: "P s \<Longrightarrow> ends P (ksleep ch s)"
  by (auto simp: ksleep_def intro: P_state)

subsection \<open>Mappings and user memory\<close>

lemma proc_walkpgdir_st [stab]: "P s \<Longrightarrow> ends P (proc_walkpgdir d va al s)"
  by (auto simp: proc_walkpgdir_def Let_def split: prod.splits dest: kalloc_st intro!: stab)

lemma map_single_page_st [stab]: "P s \<Longrightarrow> ends P (map_single_page d va pa perm s)"
  by (auto simp: map_single_page_def split: option.splits intro!: ends_bind stab)

lemma mapped_file_st: "mapped_file i s = Ret f t \<Longrightarrow> t = s"
  by (auto simp: mapped_file_def Let_def split: if_splits option.splits)

lemma mapped_file_ends [stab]: "P s \<Longrightarrow> ends P (mapped_file i s)"
  by (auto simp: mapped_file_def Let_def split: option.splits)

lemma read_in_st [stab]: "P s \<Longrightarrow> ends P (read_in i a m s)"
  by (auto simp: read_in_def Let_def intro!: ends_bind stab)

lemma do_real_mapping_st [stab]: "P s \<Longrightarrow> ends P (do_real_mapping a i s)"
  unfolding do_real_mapping_def Let_def
  by (auto split: prod.splits dest: kalloc_st intro!: ends_bind stab)

lemma do_copy_on_write_st [stab]: "P s \<Longrightarrow> ends P (do_copy_on_write a s)"
  unfolding do_copy_on_write_def Let_def
  by (auto split: prod.splits option.splits intro!: ends_bind stab) (blast dest: kalloc_st)

lemma page_fault_st [stab]: "P s \<Longrightarrow> ends P (page_fault a s)"
  by (auto simp: page_fault_def Let_def intro!: stab)

lemma uload8_st [stab]: "P s \<Longrightarrow> ends P (uload8 va s)"
  by (auto simp: uload8_def intro!: ends_bind stab)

lemma ustore8_st [stab]: "P s \<Longrightarrow> ends P (ustore8 va b s)"
  by (auto simp: ustore8_def intro!: ends_bind stab)

lemma uload_bytes_st [stab]: "P s \<Longrightarrow> ends P (uload_bytes va n s)"
  by (induction va n s rule: uload_bytes.induct) (auto intro!: ends_bind stab)

lemma ustore_bytes_st [stab]: "P s \<Longrightarrow> ends P (ustore_bytes va bs s)"
  by (induction va bs s rule: ustore_bytes.induct) (auto intro!: ends_bind stab)

lemma add_lazy_mapping_st [stab]: "P s \<Longrightarrow> ends P (add_lazy_mapping a l fd fl s)"
  by (auto simp: add_lazy_mapping_def Let_def intro!: ends_bind stab)

lemma free_lazy_idx_st [stab]: "P s \<Longrightarrow> P (free_lazy_idx i s)"
  by (simp add: free_lazy_idx_def Let_def stab)

lemma wmap_st [stab]: "P s \<Longrightarrow> ends P (wmap a l fl fd s)"
  by (auto simp: wmap_def intro!: ends_bind stab)

lemma write_back_st [stab]: "P s \<Longrightarrow> ends P (write_back i a s)"
  by (auto simp: write_back_def Let_def intro!: ends_bind stab)

lemma unmap_page_st [stab]: "P s \<Longrightarrow> ends P (unmap_page i pte a s)"
  by (auto simp: unmap_page_def Let_def intro!: ends_bind stab)

lemma wunmap_loop_st [stab]: "P s \<Longrightarrow> ends P (wunmap_loop i n a s)"
  by (induction i n a s rule: wunmap_loop.induct) (auto split: option.splits intro!: ends_bind stab)

lemma wunmap_handler_st [stab]: "P s \<Longrightarrow> ends P (wunmap_handler a b s)"
  by (auto simp: wunmap_handler_def Let_def intro!: ends_bind stab)

lemma va2pa_st [stab]: "P s \<Longrightarrow> ends P (va2pa a s)"
  by (auto simp: va2pa_def split: option.splits intro!: ends_bind stab)

lemma getwmapinfo_loop_st [stab]: "P s \<Longrightarrow> ends P (getwmapinfo_loop ps w is s)"
  by (induction ps w "is" s rule: getwmapinfo_loop.induct) (auto intro!: ends_bind stab)

lemma getwmapinfo_st [stab]: "P s \<Longrightarrow> ends P (getwmapinfo ps s)"
  by (auto simp: getwmapinfo_def Let_def intro!: ends_bind stab)

lemma copywmap_pages_st: "P s \<Longrightarrow> ends P (copywmap_pages d va e s)"
proof (induction d va e s rule: copywmap_pages.induct)
  case (1 d va e s)
  then show ?case
    by (subst copywmap_pages.simps) (auto simp: Let_def split: option.splits intro!: ends_bind stab)
qed

lemma copywmap_loop_st: "P s \<Longrightarrow> ends P (copywmap_loop d is s)"
  by (induction "is" arbitrary: s) (auto simp: Let_def intro!: ends_bind copywmap_pages_st)

lemma copywmap_st [stab]: "P s \<Longrightarrow> ends P (copywmap d s)"
  by (simp add: copywmap_def copywmap_loop_st)

lemma freewmaps_loop_st: "P s \<Longrightarrow> ends P (freewmaps_loop is s)"
  by (induction "is" arbitrary: s) (auto simp: Let_def intro!: ends_bind stab)

lemma freewmaps_st [stab]: "P s \<Longrightarrow> ends P (freewmaps s)"
  by (simp add: freewmaps_def freewmaps_loop_st)

subsection \<open>Processes\<close>

lemma growproc_st [stab]: "P s \<Longrightarrow> ends P (growproc n s)"
  by (auto simp: growproc_def switchuvm_def Let_def intro!: ends_bind stab)

lemma close_files_st: "P s \<Longrightarrow> ends P (close_files fds s)"
  by (induction fds arbitrary: s) (auto split: option.splits intro!: ends_bind stab)

lemma yield_st [stab]: "P s \<Longrightarrow> ends P (yield s)"
  using P_state [of s RUNNABLE "p_chan (myproc s)"] by (simp add: yield_def sched_def)

subsection \<open>System call arguments\<close>

lemma fetchint_st [stab]: "P s \<Longrightarrow> ends P (fetchint a s)"
  by (auto simp: fetchint_def Let_def intro!: ends_bind stab)

lemma fetchstr_loop_st: "P s \<Longrightarrow> ends P (fetchstr_loop va n acc s)"
  by (induction va n acc s rule: fetchstr_loop.induct) (auto intro!: ends_bind stab)

lemma fetchstr_st [stab]: "P s \<Longrightarrow> ends P (fetchstr a s)"
  by (auto simp: fetchstr_def Let_def intro!: fetchstr_loop_st)

lemma argint_st [stab]: "P s \<Longrightarrow> ends P (argint n s)"
  by (simp add: argint_def stab)

lemma argptr_st [stab]: "P s \<Longrightarrow> ends P (argptr n l s)"
  by (auto simp: argptr_def Let_def split: option.splits intro!: ends_bind stab)

lemma argstr_st [stab]: "P s \<Longrightarrow> ends P (argstr n s)"
  by (auto simp: argstr_def split: option.splits intro!: ends_bind stab)

lemma argfd_st [stab]: "P s \<Longrightarrow> ends P (argfd n s)"
  by (auto simp: argfd_def Let_def split: option.splits intro!: ends_bind stab)

lemma need_st: "ends P m \<Longrightarrow> (\<And>x t. P t \<Longrightarrow> ends P (f x t)) \<Longrightarrow> ends P (need m f)"
  by (auto simp: need_def split: option.splits intro!: ends_bind)

lemma need_op_st: "ends P m \<Longrightarrow> (\<And>x t. P t \<Longrightarrow> ends P (f x t)) \<Longrightarrow> ends P (need_op m f)"
  by (auto simp: need_op_def split: option.splits intro!: ends_bind stab)

lemma with_cwd_st: "(\<And>c. ends P (f c s)) \<Longrightarrow> ends P (with_cwd f s)"
  by (auto simp: with_cwd_def split: option.splits)

lemmas flow = ends_bind need_st need_op_st with_cwd_st

subsection \<open>Reading and writing\<close>

lemma kpiperead_st [stab]: "P s \<Longrightarrow> ends P (kpiperead p a n s)"
  by (auto simp: kpiperead_def Let_def split: prod.splits pr.splits intro!: flow stab)

lemma kpipewrite_st [stab]: "P s \<Longrightarrow> ends P (kpipewrite p a n s)"
  by (auto simp: kpipewrite_def Let_def split: prod.splits pw.splits intro!: flow stab)

lemma advance_st [stab]: "P s \<Longrightarrow> P (advance f r s)"
  by (simp add: advance_def stab)

lemma fileread_st [stab]: "P s \<Longrightarrow> ends P (fileread f a n s)"
  by (auto simp: fileread_def Let_def split: ftype.splits intro!: flow stab)

lemma filewrite_chunk_st [stab]: "P s \<Longrightarrow> ends P (filewrite_chunk f a n s)"
  by (auto simp: filewrite_chunk_def Let_def intro!: flow stab)

lemma filewrite_loop_st [stab]: "P s \<Longrightarrow> ends P (filewrite_loop f a n s)"
proof (induction f a n s rule: filewrite_loop.induct)
  case (1 f a n s)
  then show ?case by (subst filewrite_loop.simps) (auto simp: Let_def intro!: flow stab)
qed

lemma filewrite_st [stab]: "P s \<Longrightarrow> ends P (filewrite f a n s)"
  by (auto simp: filewrite_def Let_def split: ftype.splits intro!: flow stab)

subsection \<open>exec\<close>

lemma exec_bad_st [stab]: "P s \<Longrightarrow> ends P (exec_bad d ip s)"
  by (auto simp: exec_bad_def split: option.splits intro!: flow stab)

lemma exec_load_st [stab]: "P s \<Longrightarrow> ends P (exec_load ip d n off sz s)"
proof (induction n arbitrary: off sz s)
  case (Suc n)
  then show ?case by (auto simp: Let_def intro!: flow stab loaduvm_st)
qed simp

lemma push_args_st [stab]: "P s \<Longrightarrow> ends P (push_args d argc as sp ptrs s)"
  by (induction "as" arbitrary: argc sp ptrs s) (auto simp: Let_def intro!: flow stab)

lemma exec_commit_st [stab]: "P s \<Longrightarrow> ends P (exec_commit d sz e sp path s)"
  by (auto simp: exec_commit_def switchuvm_def Let_def intro!: flow stab)

lemma exec_stack_st [stab]: "P s \<Longrightarrow> ends P (exec_stack d sz e path argv s)"
  by (auto simp: exec_stack_def Let_def split: option.splits intro!: flow stab)

lemma exec_st [stab]: "P s \<Longrightarrow> ends P (exec path argv s)"
  by (auto simp: exec_def Let_def split: option.splits intro!: flow stab)

subsection \<open>File system calls\<close>

lemma sys_dup_st [stab]: "P s \<Longrightarrow> ends P (sys_dup s)"
  by (auto simp: sys_dup_def Let_def split: prod.splits dest: fdalloc_st intro!: flow stab)

lemma sys_read_st [stab]: "P s \<Longrightarrow> ends P (sys_read s)"
  by (auto simp: sys_read_def intro!: flow stab)

lemma sys_write_st [stab]: "P s \<Longrightarrow> ends P (sys_write s)"
  by (auto simp: sys_write_def intro!: flow stab)

lemma sys_close_st [stab]: "P s \<Longrightarrow> ends P (sys_close s)"
  by (auto simp: sys_close_def intro!: flow stab)

lemma sys_fstat_st [stab]: "P s \<Longrightarrow> ends P (sys_fstat s)"
  by (auto simp: sys_fstat_def store_stat_def split: option.splits intro!: flow stab)

lemma sys_link_st [stab]: "P s \<Longrightarrow> ends P (sys_link s)"
  by (auto simp: sys_link_def intro!: flow stab)

lemma sys_unlink_st [stab]: "P s \<Longrightarrow> ends P (sys_unlink s)"
  by (auto simp: sys_unlink_def intro!: flow stab)

lemma open_fail_st [stab]: "P s \<Longrightarrow> ends P (open_fail ip s)"
  by (auto simp: open_fail_def intro!: flow stab)

lemma sys_open_st [stab]: "P s \<Longrightarrow> ends P (sys_open s)"
  by (auto simp: sys_open_def set_open_def Let_def split: option.splits prod.splits intro!: flow stab)
    (blast dest: filealloc_st fdalloc_st)+

lemma create_node_st [stab]: "P s \<Longrightarrow> ends P (create_node path ty a b s)"
  by (auto simp: create_node_def split: option.splits intro!: flow stab)

lemma sys_mkdir_st [stab]: "P s \<Longrightarrow> ends P (sys_mkdir s)"
  by (auto simp: sys_mkdir_def intro!: flow stab)

lemma sys_mknod_st [stab]: "P s \<Longrightarrow> ends P (sys_mknod s)"
  by (auto simp: sys_mknod_def intro!: flow stab)

lemma sys_chdir_st [stab]: "P s \<Longrightarrow> ends P (sys_chdir s)"
  by (auto simp: sys_chdir_def intro!: flow stab)

lemma exec_args_st [stab]: "P s \<Longrightarrow> ends P (exec_args u n acc s)"
  by (induction u n acc s rule: exec_args.induct) (auto split: option.splits intro!: flow stab)

lemma sys_exec_st [stab]: "P s \<Longrightarrow> ends P (sys_exec s)"
  by (auto simp: sys_exec_def intro!: flow stab)

lemma pipe_fail_st [stab]: "P s \<Longrightarrow> ends P (pipe_fail fd r w s)"
  by (auto simp: pipe_fail_def clear_fd_def intro!: flow stab)

lemma sys_pipe_st [stab]: "P s \<Longrightarrow> ends P (sys_pipe s)"
  by (auto simp: sys_pipe_def Let_def split: prod.splits intro!: flow stab) (blast dest: fdalloc_st)+

subsection \<open>The other system calls\<close>

lemma sys_kill_st [stab]: "P s \<Longrightarrow> ends P (sys_kill s)"
proof -
  have "P t" if "P u" "kill p u = (r, t)" for p u r t using P_kill [OF that(1), of p] that(2) by simp
  then show "P s \<Longrightarrow> ends P (sys_kill s)"
    by (auto simp: sys_kill_def Let_def split: prod.splits intro!: flow stab)
qed

lemma sys_simple_st [stab]:
  assumes "P s"
  shows "ends P (sys_getpid s)" "ends P (sys_sbrk s)" "ends P (sys_sleep s)" "ends P (sys_uptime s)"
    "ends P (sys_wmap s)" "ends P (sys_wunmap s)" "ends P (sys_va2pa s)" "ends P (sys_getwmapinfo s)"
  using assms
  by (auto simp: sys_getpid_def sys_sbrk_def sys_sleep_def sleep_pass_def sys_uptime_def sys_wmap_def sys_wunmap_def
      wunmap_def sys_va2pa_def sys_getwmapinfo_def Let_def intro!: flow stab)

end

text \<open>With a change of parents, the predicate survives \<open>exit\<close> and the interrupts.\<close>

locale kstable_exit = kstable +
  assumes P_parent: "P s \<Longrightarrow> P (set_proc i ((procat i s)\<lparr>p_parent := q\<rparr>) s)"
    and P_zombie: "P s \<Longrightarrow> P (set_my ((myproc s)\<lparr>p_state := ZOMBIE\<rparr>) s)"
begin

lemma wake_parent_st [stab]: "P s \<Longrightarrow> P (wake_parent p s)"
  using P_wakeup by (simp add: wake_parent_def wakeup_def split: option.splits)

lemma reparent_st [stab]: "P s \<Longrightarrow> P (reparent is s)"
  by (induction "is" s rule: reparent.induct) (auto simp: Let_def P_parent wake_parent_st)

lemma exit_st [stab]: "P s \<Longrightarrow> ends P (exit s)"
  by (auto simp: exit_def sched_def Let_def split: option.splits intro!: ends_bind stab close_files_st P_zombie)

lemma exit_if_killed_st [stab]: "P s \<Longrightarrow> ends P (exit_if_killed tf s)"
  by (simp add: exit_if_killed_def stab)

lemma trap_end_st [stab]: "P s \<Longrightarrow> ends P (trap_end tf s)"
  by (auto simp: trap_end_def intro!: ends_bind stab)

lemma kbd_interrupt_st [stab]: "P s \<Longrightarrow> ends P (kbd_interrupt pcs keys s)"
  by (auto simp: kbd_interrupt_def procdump_def Let_def split: res.splits prod.splits intro!: stab)

lemma trap_pgflt_st [stab]: "P s \<Longrightarrow> ends P (trap_pgflt tf a s)"
  by (auto simp: trap_pgflt_def set_killed_def intro!: ends_bind stab)

lemma trap_other_st [stab]: "P s \<Longrightarrow> ends P (trap_other cpu tf a s)"
  by (auto simp: trap_other_def set_killed_def intro!: ends_bind stab)

lemma trap_timer_st [stab]: "P s \<Longrightarrow> P (trap_timer cpu s)"
  by (simp add: trap_timer_def stab)

end

text \<open>With \<open>fork\<close> and \<open>wait\<close> it survives every system call and trap of a running process.\<close>

locale kstable_all = kstable_exit +
  assumes fork_st: "P s \<Longrightarrow> p_state (myproc s) = RUNNING \<Longrightarrow> ends P (fork s)"
    and wait_st: "P s \<Longrightarrow> p_state (myproc s) = RUNNING \<Longrightarrow> ends P (wait s)"
begin

lemma syscalls_st:
  assumes "P s" "p_state (myproc s) = RUNNING" "syscalls n = Some f" shows "ends P (f s)"
  using assms(3) unfolding syscalls_def
  by (auto split: if_splits intro!: stab assms fork_st wait_st)

lemma syscall_st: "P s \<Longrightarrow> p_state (myproc s) = RUNNING \<Longrightarrow> ends P (syscall s)"
  by (auto simp: syscall_def Let_def split: option.splits intro!: ends_bind stab syscalls_st)

lemma myproc_set_tf: "p_state (myproc (set_my ((myproc s)\<lparr>p_tf := tf\<rparr>) s)) = p_state (myproc s)"
  by (cases "cur s < length (ptable s)") 
    (simp_all add: set_my_def set_proc_def myproc_def procat_def list_update_beyond)

lemma trap_syscall_st: "P s \<Longrightarrow> p_state (myproc s) = RUNNING \<Longrightarrow> ends P (trap_syscall tf s)"
  by (auto simp: trap_syscall_def myproc_set_tf intro!: ends_bind stab syscall_st)

lemma trap_st: "P s \<Longrightarrow> p_state (myproc s) = RUNNING \<Longrightarrow> ends P (trap pcs cpu keys tf a s)"
  by (auto simp: trap_def Let_def intro!: ends_bind stab trap_syscall_st)

end

end
