(* ===== verification/Pids.thy ===== *)
theory Pids
  imports Stable
begin

section \<open>Process identifiers\<close>

text \<open>
  The process table as system calls, traps and the scheduler change it: live entries (all but
  \<open>UNUSED\<close> ones) have distinct positive pids below \<open>nextpid\<close>. \<open>pids_eq\<close> relates states that agree
  on which entries are live and on their pids.
\<close>

definition live :: "nat \<Rightarrow> kernel \<Rightarrow> bool" where
  "live i s \<longleftrightarrow> p_state (procat i s) \<noteq> UNUSED"

definition pid_inv :: "kernel \<Rightarrow> bool" where
  "pid_inv s \<longleftrightarrow> length (ptable s) = NPROC \<and> cur s < NPROC \<and> live (cur s) s \<and> 0 < nextpid s \<and>
     (\<forall>i < NPROC. live i s \<longrightarrow> 0 < p_pid (procat i s) \<and> p_pid (procat i s) < nextpid s) \<and>
     (\<forall>i < NPROC. \<forall>j < NPROC. live i s \<and> live j s \<and> p_pid (procat i s) = p_pid (procat j s) \<longrightarrow> i = j)"

definition pids_eq :: "kernel \<Rightarrow> kernel \<Rightarrow> bool" where
  "pids_eq s t \<longleftrightarrow> length (ptable t) = length (ptable s) \<and> cur t = cur s \<and> nextpid t = nextpid s \<and>
     (\<forall>i < length (ptable s). p_pid (procat i t) = p_pid (procat i s) \<and> live i t = live i s)"

lemma procat_set_proc:
  "i < length (ptable s) \<Longrightarrow> procat j (set_proc i q s) = (if j = i then q else procat j s)"
  by (simp add: procat_def set_proc_def)

lemma set_proc_fields [simp]:
  "length (ptable (set_proc i q s)) = length (ptable s)" "cur (set_proc i q s) = cur s"
  "nextpid (set_proc i q s) = nextpid s" "initproc (set_proc i q s) = initproc s"
  by (simp_all add: set_proc_def)

lemma pids_eq_set_proc:
  assumes "p_pid q = p_pid (procat i s)" "p_state q \<noteq> UNUSED \<longleftrightarrow> live i s"
  shows "pids_eq s (set_proc i q s)"
proof (cases "i < length (ptable s)")
  case True
  then show ?thesis using assms by (auto simp: pids_eq_def procat_set_proc live_def)
next
  case False
  then show ?thesis by (simp add: pids_eq_def set_proc_def procat_def live_def list_update_beyond)
qed

lemma pids_eq_ptable:
  assumes "ptable t = ptable s" "cur t = cur s" "nextpid t = nextpid s" shows "pids_eq s t"
  using assms by (simp add: pids_eq_def procat_def live_def)

text \<open>A predicate that only depends on this is kept by the elementary changes.\<close>

lemma pids_stable:
  assumes eq: "\<And>s t. P s \<Longrightarrow> pids_eq s t \<Longrightarrow> P t" and liv: "\<And>s. P s \<Longrightarrow> live (cur s) s"
  shows "kstable_exit P"
proof (unfold_locales, goal_cases)
  case (1 s t)
  then show ?case using kernel_more [OF 1(2)] by (intro eq [OF 1(1)] pids_eq_ptable) simp_all
next
  case (6 s q)
  then show ?case
    by (auto simp: set_my_def myproc_def live_def intro!: eq [OF 6(1)] pids_eq_set_proc)
next
  case (7 s st c)
  then show ?case using liv [OF 7(1)]
    by (auto simp: set_my_def myproc_def intro!: eq [OF 7(1)] pids_eq_set_proc)
next
  case (8 s ch)
  have "pids_eq s (wakeup ch s)" by (simp add: pids_eq_def wakeup_def wakeup1_def procat_def live_def)
  then show ?case by (rule eq [OF 8])
next
  case (9 s pid)
  have "pids_eq s (snd (kill pid s))"
    by (auto simp: kill_def Let_def live_def pids_eq_ptable split: option.splits intro!: pids_eq_set_proc)
  then show ?case by (rule eq [OF 9])
next
  case (10 s i q)
  then show ?case by (auto simp: live_def intro!: eq [OF 10] pids_eq_set_proc)
next
  case (11 s)
  then show ?case using liv [OF 11]
    by (auto simp: set_my_def myproc_def intro!: eq [OF 11] pids_eq_set_proc)
qed (auto intro!: pids_eq_ptable elim!: eq)

lemma pid_inv_eq: "pid_inv s \<Longrightarrow> pids_eq s t \<Longrightarrow> pid_inv t"
  by (simp add: pid_inv_def pids_eq_def)

text \<open>The invariant with the current process and a set of entries known to be live.\<close>

definition pid_inv_at :: "nat \<Rightarrow> nat set \<Rightarrow> kernel \<Rightarrow> bool" where
  "pid_inv_at c A s \<longleftrightarrow> pid_inv s \<and> cur s = c \<and> (\<forall>i \<in> A. i < NPROC \<and> live i s)"

lemma pid_inv_at_eq: "pid_inv_at c A s \<Longrightarrow> pids_eq s t \<Longrightarrow> pid_inv_at c A t"
  using pid_inv_eq [of s t] by (auto simp: pid_inv_at_def pids_eq_def pid_inv_def)

interpretation pa: kstable_exit "pid_inv_at c A" for c A
  by (rule pids_stable [OF pid_inv_at_eq]) (auto simp: pid_inv_at_def pid_inv_def)

lemma pid_inv_at_set:
  assumes "pid_inv_at c A s" "np \<in> A" "p_pid q = p_pid (procat np s)" "p_state q \<noteq> UNUSED"
  shows "pid_inv_at c A (set_proc np q s)"
  using assms by (intro pid_inv_at_eq [OF assms(1)] pids_eq_set_proc) (auto simp: pid_inv_at_def)

lemma pid_inv_release:
  assumes "pid_inv_at c A s" "np \<noteq> c" "p_state q = UNUSED" shows "pid_inv (set_proc np q s)"
proof (cases "np < NPROC")
  case True
  then show ?thesis
    using assms by (auto simp: pid_inv_at_def pid_inv_def procat_set_proc live_def)
next
  case False
  then have "set_proc np q s = s" using assms(1) by (simp add: set_proc_def pid_inv_at_def pid_inv_def list_update_beyond)
  then show ?thesis using assms(1) by (simp add: pid_inv_at_def)
qed

lemma allocproc_pid:
  assumes inv: "pid_inv s" and al: "allocproc s = (r, t)"
  shows "case r of None \<Rightarrow> pid_inv t | Some np \<Rightarrow> pid_inv_at (cur s) {np} t \<and> np \<noteq> cur s"
proof (cases "find (\<lambda>i. p_state (procat i s) = UNUSED) [0..<NPROC]")
  case None
  then show ?thesis using inv al by (auto simp: allocproc_def)
next
  case (Some i)
  then have i: "i < NPROC" "\<not> live i s" by (auto simp: find_Some_iff live_def)
  have len: "length (ptable s) = NPROC" and ne: "i \<noteq> cur s" using inv i by (auto simp: pid_inv_def)
  let ?s1 = "set_proc i ((procat i s)\<lparr>p_state := EMBRYO, p_pid := nextpid s\<rparr>) (s\<lparr>nextpid := nextpid s + 1\<rparr>)"
  have p1: "procat j ?s1 = (if j = i then (procat i s)\<lparr>p_state := EMBRYO, p_pid := nextpid s\<rparr> else procat j s)" for j
    using i len by (simp add: procat_def set_proc_def)
  have pd: "p_pid (procat j ?s1) = (if j = i then nextpid s else p_pid (procat j s))" for j by (simp add: p1)
  have lv: "live j ?s1 \<longleftrightarrow> j = i \<or> live j s" for j by (simp add: live_def p1)
  have lt: "0 < p_pid (procat j s)" "p_pid (procat j s) < nextpid s" if "j < NPROC" "live j s" for j
    using inv that by (simp_all add: pid_inv_def)
  have "pid_inv ?s1"
    unfolding pid_inv_def lv pd
  proof (intro conjI allI impI, goal_cases)
    case (5 j)
    then show ?case using lt [of j] inv by (auto simp: pid_inv_def)
  next
    case (6 j)
    then show ?case using lt [of j] by auto
  next
    case (7 j k)
    then show ?case using lt(2) [of j] lt(2) [of k] inv by (auto simp: pid_inv_def split: if_splits)
  qed (use inv len in \<open>simp_all add: pid_inv_def\<close>)
  then have q1: "pid_inv_at (cur s) {i} ?s1" using i by (simp add: pid_inv_at_def lv)
  obtain ks s2 where k: "kalloc ?s1 = (ks, s2)" by fastforce
  have q2: "pid_inv_at (cur s) {i} s2" using pa.kalloc_st [OF k q1] .
  have li: "p_state (procat i s2) \<noteq> UNUSED" using q2 by (simp add: pid_inv_at_def live_def)
  have "pid_inv_at (cur s) {i} (set_proc i ((procat i s2)\<lparr>p_kstack := ks, p_wmap := empty_wmap\<rparr>) s2)"
    using li by (intro pid_inv_at_set [OF q2]) simp_all
  moreover have "pid_inv (set_proc i ((procat i s2)\<lparr>p_kstack := ks, p_state := UNUSED\<rparr>) s2)"
    using ne by (intro pid_inv_release [OF q2]) simp_all
  ultimately show ?thesis
    using al k ne unfolding allocproc_def Some by (auto simp: Let_def split: if_splits)
qed

lemma pid_inv_at_D: "pid_inv_at c A s \<Longrightarrow> pid_inv s" "pid_inv_at c A s \<Longrightarrow> np \<in> A \<Longrightarrow> p_state (procat np s) \<noteq> UNUSED"
  by (auto simp: pid_inv_at_def live_def)

lemma dup_files_pid: "pid_inv_at c {np} s \<Longrightarrow> ends (pid_inv_at c {np}) (dup_files np is s)"
proof (induction "is" arbitrary: s)
  case (Cons i "is")
  have "pid_inv_at c {np} (set_proc np ((procat np t)\<lparr>p_ofile := o'\<rparr>) t)" if "pid_inv_at c {np} t" for t o'
    using pid_inv_at_D(2) [OF that] by (intro pid_inv_at_set [OF that]) simp_all
  with Cons show ?case by (auto split: option.splits intro!: ends_bind pa.filedup_st)
qed simp

lemma fork_undo_pid:
  assumes "pid_inv_at c {np} s" "np \<noteq> c" shows "ends pid_inv (fork_undo np s)"
proof -
  have "ends (pid_inv_at c {np}) (kfree (p_kstack (procat np s)) s)" by (rule pa.kfree_st [OF assms(1)])
  then show ?thesis unfolding fork_undo_def
    by (cases "kfree (p_kstack (procat np s)) s") (auto intro!: pid_inv_release [OF _ assms(2)] dest: pid_inv_at_D)
qed

lemma fork_pid:
  assumes inv: "pid_inv s" shows "ends pid_inv (fork s)"
proof -
  obtain r t where al: "allocproc s = (r, t)" by fastforce
  note A = allocproc_pid [OF inv al]
  show ?thesis
  proof (cases r)
    case None
    then show ?thesis using A al by (simp add: fork_def)
  next
    case (Some np)
    let ?c = "cur s"
    let ?Q = "pid_inv_at ?c {np}"
    have Q: "?Q t" and ne: "np \<noteq> ?c" using A Some by simp_all
    have set: "?Q (set_proc np q u)" if "?Q u" "p_pid q = p_pid (procat np u)" "p_state q \<noteq> UNUSED" for q u
      using that by (intro pid_inv_at_set) simp_all
    have st: "p_state (procat np u) \<noteq> UNUSED" if "?Q u" for u using pid_inv_at_D(2) [OF that] by simp
    note bd = ends_bind_to [where Q = ?Q, OF _ pid_inv_at_D(1)]
    have pg: "?Q (set_proc np ((procat np u)\<lparr>p_pgdir := d\<rparr>) u)" if "?Q u" for u d
      using st [OF that] by (intro set [OF that]) simp_all
    have cw: "?Q (copywmapdata np u)" if "?Q u" for u
      using st [OF that] unfolding copywmapdata_def by (intro set [OF that]) simp_all
    have ch: "?Q (set_proc np ((procat np u)\<lparr>p_sz := n, p_parent := o', p_tf := tf\<rparr>) u)"
        "pid_inv (set_proc np ((procat np u)\<lparr>p_cwd := o', p_name := nm, p_state := RUNNABLE\<rparr>) u)"
      if "?Q u" for u n o' tf nm
      using st [OF that] by (intro set [OF that] pid_inv_at_D(1) [OF set [OF that]], simp_all)+
    show ?thesis
      unfolding fork_def al Some Let_def prod.case option.case
      using Q
      by (auto split: option.splits
          intro!: bd pa.copyuvm_st pa.copywmap_st pa.on_fs_st pg cw ch fork_undo_pid [OF _ ne] dup_files_pid)
  qed
qed

lemma reap_pid:
  assumes inv: "pid_inv s" and i: "i \<noteq> cur s" shows "ends pid_inv (reap i s)"
proof -
  let ?Q = "pid_inv_at (cur s) {}"
  have Q: "?Q s" using inv by (simp add: pid_inv_at_def)
  note bd = ends_bind_to [where Q = ?Q, OF _ pid_inv_at_D(1)]
  have ks: "?Q (set_proc i ((procat i u)\<lparr>p_kstack := 0\<rparr>) u)" if "?Q u" for u
    by (rule pid_inv_at_eq [OF that]) (auto simp: live_def intro!: pids_eq_set_proc)
  show ?thesis
    unfolding reap_def Let_def
    using Q by (auto intro!: bd pa.kfree_st pa.freevm_st ks pid_inv_release [OF _ i])
qed

lemma wait_pid:
  assumes "pid_inv s" "p_state (myproc s) = RUNNING" shows "ends pid_inv (wait s)"
proof -
  have "pid_inv_at (cur s) {} s" using assms(1) by (simp add: pid_inv_at_def)
  from pa.ksleep_st [OF this] have sl: "ends pid_inv (ksleep ch s)" for ch
    by (rule ends_weaken) (rule pid_inv_at_D(1))
  have "ends pid_inv (wait_scan b is s)" for b "is"
  proof (induction "is" arbitrary: b)
    case (Cons i "is")
    have "i \<noteq> cur s" if "p_state (procat i s) = ZOMBIE" using that assms(2) by (auto simp: myproc_def)
    then show ?case using Cons by (auto intro: reap_pid [OF assms(1)])
  qed (use assms sl in auto)
  then show ?thesis by (simp add: wait_def)
qed

interpretation pid: kstable_all pid_inv
proof (intro kstable_all.intro kstable_all_axioms.intro)
  show "kstable_exit pid_inv" by (rule pids_stable [OF pid_inv_eq]) (auto simp: pid_inv_def)
qed (rule fork_pid wait_pid; assumption)+

lemma scheduler_visit_pid:
  assumes inv: "pid_inv s" and i: "i < NPROC" shows "ends pid_inv (scheduler_visit i s)"
proof (cases "p_state (procat i s) = RUNNABLE")
  case True
  have "pid_inv (s\<lparr>cur := i\<rparr>)" using inv i True by (simp add: pid_inv_def live_def procat_def)
  then have "pid_inv (set_proc i ((procat i (s\<lparr>cur := i\<rparr>))\<lparr>p_state := RUNNING\<rparr>) (s\<lparr>cur := i\<rparr>))"
    using True by (elim pid_inv_eq) (auto simp: live_def procat_def intro!: pids_eq_set_proc)
  then show ?thesis using inv by (simp add: scheduler_visit_def switchuvm_def)
qed (use inv in \<open>simp add: scheduler_visit_def\<close>)

subsection \<open>The steps of the kernel\<close>

text \<open>
  A running process traps into the kernel (system call, interrupt or fault) and stays there until
  it returns to user mode or gives up the processor; a process that was asleep goes on behind
  its \<open>sleep\<close>; and when no process runs the scheduler visits an entry of the table.
\<close>

inductive kstep :: "kernel \<Rightarrow> kernel \<Rightarrow> bool" where
  trap_returns: "p_state (myproc s) = RUNNING \<Longrightarrow> trap pcs cpu keys tf a s = Ret () t \<Longrightarrow> kstep s t"
| trap_sleeps: "p_state (myproc s) = RUNNING \<Longrightarrow> trap pcs cpu keys tf a s = Sleeps t \<Longrightarrow> kstep s t"
| resumes: "p_state (myproc s) = RUNNING \<Longrightarrow> kstep s (resume s)"
| schedules: "p_state (myproc s) \<noteq> RUNNING \<Longrightarrow> i < NPROC \<Longrightarrow> scheduler_visit i s = Ret b t \<Longrightarrow> kstep s t"

inductive_simps kstep_iff: "kstep s t"

lemma kstep_pid:
  assumes "kstep s t" "pid_inv s" shows "pid_inv t"
  using assms
proof (cases rule: kstep.cases)
  case (trap_returns pcs cpu keys tf a)
  then show ?thesis using pid.trap_st [OF assms(2), of pcs cpu keys tf a] by simp
next
  case (trap_sleeps pcs cpu keys tf a)
  then show ?thesis using pid.trap_st [OF assms(2), of pcs cpu keys tf a] by simp
next
  case resumes
  then show ?thesis using pid.P_my [OF assms(2), of "(myproc s)\<lparr>p_chan := None\<rparr>"] by (simp add: resume_def)
next
  case (schedules i b)
  then show ?thesis using scheduler_visit_pid [OF assms(2), of i] by simp
qed


definition demo_table :: kernel where
  "demo_table = demo_kernel\<lparr>ptable := demo_proc\<lparr>p_state := RUNNABLE\<rparr> #
     replicate 63 (demo_proc\<lparr>p_state := UNUSED, p_pid := 0\<rparr>)\<rparr>"


end
