(* ===== verification/Life.thy ===== *)
theory Life
  imports Pids
begin

section \<open>exit and wait\<close>

text \<open>
  What \<open>exit\<close> leaves behind and what \<open>wait\<close> finds. \<open>kin q s0 s\<close>: the parents of all entries are those of
  \<open>s0\<close>, its current process is not a zombie, and the process \<open>q\<close> is runnable or still asleep in
  \<open>wait\<close>.
\<close>

definition asleep_in_wait :: "nat \<Rightarrow> kernel \<Rightarrow> bool" where
  "asleep_in_wait q s \<longleftrightarrow> p_state (procat q s) = SLEEPING \<and> p_chan (procat q s) = Some (ChProc q)"

definition same_parents :: "kernel \<Rightarrow> kernel \<Rightarrow> bool" where
  "same_parents s0 s \<longleftrightarrow> length (ptable s) = length (ptable s0) \<and> cur s = cur s0 \<and> initproc s = initproc s0 \<and>
     (\<forall>i < length (ptable s0). p_parent (procat i s) = p_parent (procat i s0))"

definition kin :: "nat \<Rightarrow> kernel \<Rightarrow> kernel \<Rightarrow> bool" where
  "kin q s0 s \<longleftrightarrow> same_parents s0 s \<and> q < length (ptable s0) \<and> q \<noteq> cur s0 \<and>
     cur s0 < length (ptable s0) \<and> p_state (procat (cur s0) s) \<noteq> ZOMBIE \<and>
     (p_state (procat q s) = RUNNABLE \<or> asleep_in_wait q s)"

lemma kin_set_proc:
  assumes "kin q s0 s" "p_parent p = p_parent (procat i s)"
    "i = cur s \<Longrightarrow> p_state p \<noteq> ZOMBIE" "i = q \<Longrightarrow> p_state p = RUNNABLE \<or> p_state p = SLEEPING \<and> p_chan p = Some (ChProc q)"
  shows "kin q s0 (set_proc i p s)"
proof (cases "i < length (ptable s)")
  case True
  then show ?thesis using assms by (auto simp: kin_def same_parents_def asleep_in_wait_def procat_set_proc)
next
  case False
  then have "set_proc i p s = s" by (simp add: set_proc_def list_update_beyond)
  then show ?thesis using assms(1) by simp
qed

lemma kin_ptable:
  "kin q s0 s \<Longrightarrow> ptable t = ptable s \<Longrightarrow> cur t = cur s \<Longrightarrow> initproc t = initproc s \<Longrightarrow> kin q s0 t"
  by (simp add: kin_def same_parents_def asleep_in_wait_def procat_def)

interpretation kin: kstable "kin q s0" for q s0
proof (unfold_locales, goal_cases)
  case (1 s t)
  then show ?case using kernel_more [OF 1(2)] by (intro kin_ptable [OF 1(1)]) simp_all
next
  case (6 s p)
  have "cur s \<noteq> q" "p_state (procat (cur s) s) \<noteq> ZOMBIE" using 6(1) by (auto simp: kin_def same_parents_def)
  then show ?case using 6(2-4) unfolding set_my_def myproc_def by (intro kin_set_proc [OF 6(1)]) simp_all
next
  case (7 s st c)
  have "cur s \<noteq> q" using 7(1) by (auto simp: kin_def same_parents_def)
  then show ?case using 7(2) unfolding set_my_def myproc_def by (intro kin_set_proc [OF 7(1)]) auto
next
  case (8 s ch)
  then show ?case by (auto simp: kin_def same_parents_def asleep_in_wait_def wakeup_def wakeup1_def procat_def)
next
  case (9 s pid)
  have "cur s = cur s0" "p_state (procat (cur s0) s) \<noteq> ZOMBIE"
    "p_state (procat q s) = RUNNABLE \<or> asleep_in_wait q s" using 9 by (simp_all add: kin_def same_parents_def)
  then show ?case using 9
    by (auto simp: kill_def Let_def asleep_in_wait_def split: option.splits intro!: kin_set_proc)
qed (auto elim!: kin_ptable)

subsection \<open>wait\<close>

definition child :: "nat \<Rightarrow> kernel \<Rightarrow> bool" where
  "child i s \<longleftrightarrow> p_parent (procat i s) = Some (cur s)"

lemma wait_scan_find:
  "wait_scan b is s = (case find (\<lambda>i. child i s \<and> p_state (procat i s) = ZOMBIE) is of
     Some i \<Rightarrow> reap i s
   | None \<Rightarrow> if (\<not> b \<and> (\<forall>i \<in> set is. \<not> child i s)) \<or> p_killed (myproc s) then Ret (-1) s else ksleep (ChProc (cur s)) s)"
  by (induction "is" arbitrary: b) (auto simp: child_def)

lemma wait_find:
  "wait s = (case find (\<lambda>i. child i s \<and> p_state (procat i s) = ZOMBIE) [0..<NPROC] of
     Some i \<Rightarrow> reap i s
   | None \<Rightarrow> if (\<forall>i < NPROC. \<not> child i s) \<or> p_killed (myproc s) then Ret (-1) s else ksleep (ChProc (cur s)) s)"
  by (auto simp: wait_def wait_scan_find split: option.splits)

subsection \<open>exit\<close>

lemma procat_wakeup1:
  "i < length (ptable s) \<Longrightarrow> procat i (wakeup1 ch s) =
     (if p_state (procat i s) = SLEEPING \<and> p_chan (procat i s) = Some ch then (procat i s)\<lparr>p_state := RUNNABLE\<rparr> else procat i s)"
  by (simp add: procat_def wakeup1_def)

lemma wakeup1_fields [simp]:
  "length (ptable (wakeup1 ch s)) = length (ptable s)" "cur (wakeup1 ch s) = cur s" "initproc (wakeup1 ch s) = initproc s"
  by (simp_all add: wakeup1_def)

lemma wake_parent_fields [simp]:
  "length (ptable (wake_parent q s)) = length (ptable s)" "cur (wake_parent q s) = cur s"
  "initproc (wake_parent q s) = initproc s"
  by (simp_all add: wake_parent_def split: option.splits)

lemma wake_parent_procat:
  assumes "i < length (ptable s)"
  shows "p_parent (procat i (wake_parent q s)) = p_parent (procat i s)"
    "p_state (procat i s) \<noteq> SLEEPING \<Longrightarrow> p_state (procat i (wake_parent q s)) = p_state (procat i s)"
  using assms by (auto simp: wake_parent_def procat_wakeup1 split: option.splits)

text \<open>One entry of the loop of \<open>exit\<close>.\<close>

definition reparent1 :: "nat \<Rightarrow> kernel \<Rightarrow> kernel" where
  "reparent1 i s =
     (if p_parent (procat i s) = Some (cur s) then
        let s1 = set_proc i ((procat i s)\<lparr>p_parent := initproc s\<rparr>) s
        in if p_state (procat i s1) = ZOMBIE then wake_parent (initproc s1) s1 else s1
      else s)"

lemma reparent_Cons: "reparent (i # is) s = reparent is (reparent1 i s)"
  by (simp add: reparent1_def Let_def)

lemma reparent1_spec:
  assumes "i < length (ptable s)"
  shows "length (ptable (reparent1 i s)) = length (ptable s)" "cur (reparent1 i s) = cur s"
    "initproc (reparent1 i s) = initproc s"
    "j < length (ptable s) \<Longrightarrow> p_parent (procat j (reparent1 i s)) =
       (if j = i \<and> p_parent (procat j s) = Some (cur s) then initproc s else p_parent (procat j s))"
    "j < length (ptable s) \<Longrightarrow> p_state (procat j s) \<noteq> SLEEPING \<Longrightarrow>
       p_state (procat j (reparent1 i s)) = p_state (procat j s)"
  by (auto simp: reparent1_def Let_def wake_parent_procat procat_set_proc assms)

lemma reparent_spec:
  assumes "initproc s \<noteq> Some (cur s)" "\<forall>i \<in> set is. i < length (ptable s)"
  shows "length (ptable (reparent is s)) = length (ptable s) \<and> cur (reparent is s) = cur s \<and>
    initproc (reparent is s) = initproc s \<and>
    (\<forall>j < length (ptable s). p_parent (procat j (reparent is s)) =
       (if j \<in> set is \<and> p_parent (procat j s) = Some (cur s) then initproc s else p_parent (procat j s)) \<and>
       (p_state (procat j s) \<noteq> SLEEPING \<longrightarrow> p_state (procat j (reparent is s)) = p_state (procat j s)))"
  using assms
proof (induction "is" arbitrary: s)
  case (Cons i "is")
  have i: "i < length (ptable s)" using Cons.prems(2) by simp
  note R = reparent1_spec [OF i]
  have "initproc (reparent1 i s) \<noteq> Some (cur (reparent1 i s))" "\<forall>k \<in> set is. k < length (ptable (reparent1 i s))"
    using Cons.prems R(1-3) by simp_all
  note IH = Cons.IH [OF this, unfolded R(1-3)]
  show ?case unfolding reparent_Cons using IH R(4,5) Cons.prems(1) by auto
qed simp

lemma reparent_fields:
  "length (ptable (reparent is s)) = length (ptable s)" "cur (reparent is s) = cur s"
  by (induction "is" arbitrary: s) (simp_all add: Let_def)

lemma ends_Sleeps: "ends P r \<Longrightarrow> r = Sleeps t \<Longrightarrow> P t" by simp

text \<open>The part of \<open>exit\<close> behind the release of the resources.\<close>

definition exit_tail :: "kernel \<Rightarrow> kernel" where
  "exit_tail s =
     (let s4 = set_my ((myproc s)\<lparr>p_cwd := None\<rparr>) s;
          s6 = reparent [0..<NPROC] (wake_parent (p_parent (myproc s4)) s4)
      in set_my ((myproc s6)\<lparr>p_state := ZOMBIE\<rparr>) s6)"

lemma exit_finishes:
  assumes k: "kin q s s" and e: "exit s = Sleeps t" and z: "p_state (procat (cur s) t) = ZOMBIE"
  obtains u where "kin q s u" "t = exit_tail u"
proof -
  have n: "\<not> kin q s t" using z by (simp add: kin_def)
  let ?K = "kin q s"
  have k1: "ends ?K (freewmaps s)" by (rule kin.freewmaps_st [OF k])
  have ne: "initproc s \<noteq> Some (cur s)" using e by (auto simp: exit_def)
  obtain s1 where s1: "freewmaps s = Ret () s1" "?K s1"
    using k1 e n ne by (cases "freewmaps s") (auto simp: exit_def)
  have k2: "ends ?K (close_files [0..<NOFILE] s1)" by (rule kin.close_files_st [OF s1(2)])
  obtain s2 where s2: "close_files [0..<NOFILE] s1 = Ret () s2" "?K s2"
    using k2 e n ne s1(1) by (cases "close_files [0..<NOFILE] s1") (auto simp: exit_def)
  obtain c where c: "p_cwd (myproc s2) = Some c"
    using e ne s1(1) s2(1) by (cases "p_cwd (myproc s2)") (auto simp: exit_def)
  have k3: "ends ?K (on_fs (in_op (iput c)) s2)" by (rule kin.on_fs_st [OF s2(2)])
  obtain u where u: "on_fs (in_op (iput c)) s2 = Ret () u" "?K u"
    using k3 e n ne s1(1) s2(1) c by (cases "on_fs (in_op (iput c)) s2") (auto simp: exit_def)
  have "t = exit_tail u"
    using e ne s1(1) s2(1) c u(1) by (auto simp: exit_def exit_tail_def sched_def Let_def split: if_splits)
  then show thesis using u(2) by (intro that)
qed

lemma exit_tail_spec:
  assumes k: "kin q s u" and len: "length (ptable s) = NPROC" and ini: "initproc s \<noteq> Some (cur s)"
    and par: "p_parent (procat (cur s) s) = Some q"
  shows "length (ptable (exit_tail u)) = NPROC \<and> cur (exit_tail u) = cur s \<and>
    p_state (procat (cur s) (exit_tail u)) = ZOMBIE \<and> p_state (procat q (exit_tail u)) = RUNNABLE \<and>
    (\<forall>i < NPROC. p_parent (procat i (exit_tail u)) =
       (if p_parent (procat i s) = Some (cur s) then initproc s else p_parent (procat i s)))"
proof -
  let ?c = "cur s"
  have K: "length (ptable u) = NPROC" "cur u = ?c" "initproc u = initproc s" "q < NPROC" "q \<noteq> ?c" "?c < NPROC"
    "\<forall>i < NPROC. p_parent (procat i u) = p_parent (procat i s)" "p_state (procat q u) = RUNNABLE \<or> asleep_in_wait q u"
    using k len by (simp_all add: kin_def same_parents_def)
  define s4 where "s4 = set_my ((myproc u)\<lparr>p_cwd := None\<rparr>) u"
  have s4: "length (ptable s4) = NPROC" "cur s4 = ?c" "initproc s4 = initproc s"
    "procat i s4 = (if i = ?c then (procat ?c u)\<lparr>p_cwd := None\<rparr> else procat i u)" for i
    using K by (simp_all add: s4_def set_my_def myproc_def procat_set_proc)
  have p4: "p_parent (myproc s4) = Some q" using s4 K par by (simp add: myproc_def)
  define s5 where "s5 = wakeup1 (ChProc q) s4"
  have s5: "length (ptable s5) = NPROC" "cur s5 = ?c" "initproc s5 = initproc s" by (simp_all add: s5_def s4)
  have par5: "p_parent (procat i s5) = p_parent (procat i s)" if "i < NPROC" for i
    using that K s4 by (auto simp: s5_def procat_wakeup1)
  have q5: "p_state (procat q s5) = RUNNABLE"
    using K(4,5,8) s4 by (auto simp: s5_def procat_wakeup1 asleep_in_wait_def)
  define s6 where "s6 = reparent [0..<NPROC] s5"
  have "initproc s5 \<noteq> Some (cur s5)" "\<forall>i \<in> set [0..<NPROC]. i < length (ptable s5)" using ini s5 by simp_all
  note R = reparent_spec [OF this, folded s6_def, unfolded s5]
  have t: "exit_tail u = set_my ((myproc s6)\<lparr>p_state := ZOMBIE\<rparr>) s6"
    unfolding exit_tail_def Let_def s4_def [symmetric] p4 wake_parent_def option.case s5_def [symmetric] s6_def ..
  have pt: "procat i (exit_tail u) = (if i = ?c then (procat ?c s6)\<lparr>p_state := ZOMBIE\<rparr> else procat i s6)" for i
    using R K(6) by (simp add: t set_my_def myproc_def procat_set_proc)
  have "p_state (procat q s6) = RUNNABLE" using R K(4) q5 by simp
  moreover have "\<forall>i < NPROC. p_parent (procat i s6) =
      (if p_parent (procat i s) = Some ?c then initproc s else p_parent (procat i s))" using R par5 by simp
  moreover have "length (ptable (exit_tail u)) = NPROC" "cur (exit_tail u) = ?c" using R by (simp_all add: t set_my_def)
  ultimately show ?thesis using pt K(5) by simp
qed

text \<open>
  (C9) No exit is lost. Let a process with parent \<open>q\<close> run \<open>exit\<close> to its end (it is a zombie
  afterwards), while \<open>q\<close> is runnable or asleep in \<open>wait\<close>. Then \<open>q\<close> is runnable, every child of the
  exiting process has been passed to \<open>init\<close> and no other parent has changed; and whenever
  \<open>q\<close> runs \<open>wait\<close> on this process table, it reaps a zombie child and does not sleep.
\<close>

theorem exit_not_lost:
  assumes "exit s = Sleeps t" "p_state (procat (cur s) t) = ZOMBIE" "length (ptable s) = NPROC" "cur s < NPROC"
    "p_state (procat (cur s) s) \<noteq> ZOMBIE" "p_parent (procat (cur s) s) = Some q" "q < NPROC" "q \<noteq> cur s"
    "p_state (procat q s) = RUNNABLE \<or> asleep_in_wait q s"
  shows "p_state (procat q t) = RUNNABLE \<and>
    (\<forall>i < NPROC. p_parent (procat i t) = (if p_parent (procat i s) = Some (cur s) then initproc s else p_parent (procat i s))) \<and>
    (\<forall>u. ptable u = ptable t \<and> cur u = q \<longrightarrow>
       (\<exists>i < NPROC. p_parent (procat i u) = Some q \<and> p_state (procat i u) = ZOMBIE \<and> wait u = reap i u))"
proof -
  have ini: "initproc s \<noteq> Some (cur s)" using assms(1) by (auto simp: exit_def)
  have k: "kin q s s" using assms by (simp add: kin_def same_parents_def)
  obtain u where u: "kin q s u" "t = exit_tail u" by (rule exit_finishes [OF k assms(1,2)])
  note T = exit_tail_spec [OF u(1) assms(3) ini assms(6), folded u(2)]
  have pc: "p_parent (procat (cur s) t) = Some q" using T assms(4,6,8) by auto
  have "\<exists>i < NPROC. p_parent (procat i v) = Some q \<and> p_state (procat i v) = ZOMBIE \<and> wait v = reap i v"
    if v: "ptable v = ptable t" "cur v = q" for v
  proof -
    let ?P = "\<lambda>i. child i v \<and> p_state (procat i v) = ZOMBIE"
    have "?P (cur s)" using v pc assms(2) by (simp add: child_def procat_def)
    then have "find ?P [0..<NPROC] \<noteq> None" using assms(4) by (auto simp: find_None_iff)
    then obtain i where i: "find ?P [0..<NPROC] = Some i" by blast
    then have "i < NPROC" "?P i" by (auto simp: find_Some_iff)
    then show ?thesis using i v(2) by (auto simp: wait_find child_def)
  qed
  then show ?thesis using T by blast
qed

text \<open>
  A process without mappings and open files whose working directory is in use elsewhere
  has nothing to release but the reference to the directory.
\<close>

lemma freewmaps_none:
  "\<forall>i \<in> set is. w_addr (p_wmap (myproc s)) ! i = 0 \<Longrightarrow> freewmaps_loop is s = Ret () s"
  by (induction "is") simp_all

lemma close_files_none:
  "\<forall>fd \<in> set fds. p_ofile (myproc s) ! fd = None \<Longrightarrow> close_files fds s = Ret () s"
  by (induction fds) simp_all

lemma exit_idle:
  assumes "initproc s \<noteq> Some (cur s)" "\<forall>i < MAX_WMMAP_INFO. w_addr (p_wmap (myproc s)) ! i = 0"
    "\<forall>fd < NOFILE. p_ofile (myproc s) ! fd = None" "p_cwd (myproc s) = Some c" "cur s < length (ptable s)"
    "\<exists>f. on_fs (in_op (iput c)) s = Ret () (s\<lparr>kfs := f\<rparr>)"
  shows "\<exists>t. exit s = Sleeps t \<and> p_state (procat (cur s) t) = ZOMBIE"
proof -
  obtain f where f: "on_fs (in_op (iput c)) s = Ret () (s\<lparr>kfs := f\<rparr>)" using assms(6) by blast
  let ?u = "s\<lparr>kfs := f\<rparr>"
  define s4 where "s4 = set_my ((myproc ?u)\<lparr>p_cwd := None\<rparr>) ?u"
  define s5 where "s5 = wake_parent (p_parent (myproc s4)) s4"
  define s6 where "s6 = reparent [0..<NPROC] s5"
  let ?t = "set_my ((myproc s6)\<lparr>p_state := ZOMBIE\<rparr>) s6"
  have "freewmaps s = Ret () s" "close_files [0..<NOFILE] s = Ret () s"
    using assms(2,3) by (simp_all add: freewmaps_def freewmaps_none close_files_none del: close_files.simps)
  moreover have l4: "length (ptable s4) = length (ptable s)" "cur s4 = cur s" by (simp_all add: s4_def set_my_def)
  have l5: "length (ptable s5) = length (ptable s)" "cur s5 = cur s" by (simp_all add: s5_def l4)
  have l6: "length (ptable s6) = length (ptable s)" "cur s6 = cur s" 
    unfolding s6_def using reparent_fields [of "[0..<NPROC]" s5] by (simp_all add: l5)
  have z: "procat (cur s) ?t = (procat (cur s) s6)\<lparr>p_state := ZOMBIE\<rparr>"
    using assms(5) l6 by (simp add: set_my_def myproc_def procat_set_proc)
  moreover have "cur ?t = cur s" by (simp add: l6 set_my_def)
  then have "p_state (myproc ?t) = ZOMBIE" using z by (simp add: myproc_def)
  ultimately have "exit s = Sleeps ?t"
    using assms(1,4) f by (simp add: exit_def sched_def Let_def s4_def [symmetric] s5_def [symmetric] s6_def [symmetric] del: close_files.simps)
  then show ?thesis using z by auto
qed

definition demo_dir :: inode where
  "demo_dir = \<lparr>i_dev = 1, i_inum = 1, i_ref = 3, i_lock = initsleeplock ''inode'', i_valid = True,
     i_d = \<lparr>di_type = 1, di_major = 0, di_minor = 0, di_nlink = 1, di_size = 512, di_addrs = replicate 13 0\<rparr>\<rparr>"

definition demo_family :: kernel where
  "demo_family = demo_kernel\<lparr>kfs := (clean_fs small_disk small_sb [demo_dir])\<lparr>log_outstanding := 0\<rparr>, initproc := Some 0,
     cur := 1, nextpid := 4,
     ptable := [demo_proc\<lparr>p_state := SLEEPING, p_chan := Some (ChProc 0), p_cwd := Some 0\<rparr>,
                demo_proc\<lparr>p_pid := 2, p_parent := Some 0, p_cwd := Some 0\<rparr>,
                demo_proc\<lparr>p_pid := 3, p_state := RUNNABLE, p_parent := Some 1, p_cwd := Some 0\<rparr>] @
       replicate 61 (demo_proc\<lparr>p_state := UNUSED, p_pid := 0\<rparr>)\<rparr>"

theorem exit_not_lost_witness:
  "\<exists>t. (exit demo_family :: (unit, kernel) res) = Sleeps t \<and> p_state (procat 0 t) = RUNNABLE \<and> p_parent (procat 2 t) = Some 0 \<and>
     (\<exists>i. p_state (procat i t) = ZOMBIE \<and> wait (t\<lparr>cur := 0\<rparr>) = reap i (t\<lparr>cur := 0\<rparr>))"
proof -
  let ?s = demo_family
  have c: "cur ?s = 1" "length (ptable ?s) = NPROC" "initproc ?s = Some 0"
    by (simp_all add: demo_family_def)
  have p: "procat 0 ?s = demo_proc\<lparr>p_state := SLEEPING, p_chan := Some (ChProc 0), p_cwd := Some 0\<rparr>"
    "procat 1 ?s = demo_proc\<lparr>p_pid := 2, p_parent := Some 0, p_cwd := Some 0\<rparr>"
    "procat 2 ?s = demo_proc\<lparr>p_pid := 3, p_state := RUNNABLE, p_parent := Some 1, p_cwd := Some 0\<rparr>"
    by (simp_all add: demo_family_def procat_def)
  have my: "myproc ?s = demo_proc\<lparr>p_pid := 2, p_parent := Some 0, p_cwd := Some 0\<rparr>" using p(2) by (simp add: myproc_def c)
  have k: "kfs ?s = (clean_fs small_disk small_sb [demo_dir])\<lparr>log_outstanding := 0\<rparr>" by (simp add: demo_family_def)
  have "\<exists>f. on_fs (in_op (iput 0)) ?s = Ret () (?s\<lparr>kfs := f\<rparr>)"
    by (simp add: on_fs_def k in_op_def begin_op_def iput_def end_op_def commit_def clean_fs_def iat_def
        demo_dir_def acquiresleep_def initsleeplock_def set_inode_def Let_def) (rule exI, rule refl)
  then obtain t where t: "(exit ?s :: (unit, kernel) res) = Sleeps t" "p_state (procat (cur ?s) t) = ZOMBIE"
    using exit_idle [of ?s 0] c by (auto simp: my demo_proc_def demo_wmap_def)
  have "p_state (procat 0 t) = RUNNABLE \<and>
    (\<forall>i < NPROC. p_parent (procat i t) = (if p_parent (procat i ?s) = Some (cur ?s) then initproc ?s else p_parent (procat i ?s))) \<and>
    (\<forall>u. ptable u = ptable t \<and> cur u = 0 \<longrightarrow>
       (\<exists>i < NPROC. p_parent (procat i u) = Some 0 \<and> p_state (procat i u) = ZOMBIE \<and> wait u = reap i u))"
    by (rule exit_not_lost [OF t c(2)]) (simp_all add: c p(1) p(2) [simplified] asleep_in_wait_def demo_proc_def)
  moreover from this have "\<exists>i < NPROC. p_parent (procat i (t\<lparr>cur := 0\<rparr>)) = Some 0 \<and> p_state (procat i (t\<lparr>cur := 0\<rparr>)) = ZOMBIE \<and>
      wait (t\<lparr>cur := 0\<rparr>) = reap i (t\<lparr>cur := 0\<rparr>)" by simp
  moreover have "procat i (t\<lparr>cur := 0\<rparr>) = procat i t" for i by (simp add: procat_def)
  moreover have "p_parent (procat 2 ?s) = Some (cur ?s)" by (simp add: p c)
  ultimately show ?thesis using t(1) c(3) by auto
qed

end
