(* ===== verification/Fork_Share.thy ===== *)
theory Fork_Share
  imports Cow Vm_Kernel
begin

section \<open>Sharing pages at fork: copyuvm\<close>

text \<open>
  What \<open>copyuvm\<close> does to two page directories at once, that of the parent and the new one. A
  change to one directory is seen through the other one as a change of foreign frames only.
\<close>

definition shared_entry :: "u32 \<Rightarrow> u32" where
  "shared_entry e = (if has e PTE_W then PTE_ADDR e OR ((PTE_FLAGS e AND NOT PTE_W) OR PTE_COW) else e)"

lemma shared_flags_lt: "(PTE_FLAGS e AND NOT PTE_W) OR PTE_COW < 0x1000"
proof -
  have "PTE_FLAGS e AND NOT PTE_W < 0x1000"
    using PTE_FLAGS_lt [of e] by (simp add: small_iff_and and.assoc)
  then show ?thesis by (rule or_less_page) simp
qed

lemma or_P_absorb: "has e PTE_P \<Longrightarrow> e OR PTE_P = e"
  unfolding has_P by (rule bit_word_eqI) (auto simp: bit_or_iff bit_1_iff)

lemma shared_entry_facts:
  assumes "has e PTE_P"
  shows "PTE_ADDR (shared_entry e) = PTE_ADDR e" "has (shared_entry e) PTE_P" "\<not> has (shared_entry e) PTE_W"
    "has (shared_entry e) PTE_COW \<longleftrightarrow> has e PTE_W \<or> has e PTE_COW" "has (shared_entry e) PTE_U \<longleftrightarrow> has e PTE_U"
    "shared_entry e OR PTE_P = shared_entry e"
proof -
  have al: "pg_aligned (PTE_ADDR e)" by (simp add: pg_aligned_iff_and PTE_ADDR_def and.assoc)
  show "PTE_ADDR (shared_entry e) = PTE_ADDR e"
    using PTE_ADDR_compose [OF al shared_flags_lt] by (simp add: shared_entry_def)
  have "\<not> has (PTE_ADDR e) b" if "b < 0x1000" for b using has_aligned [OF al that] .
  note A = this [of PTE_P] this [of PTE_W] this [of PTE_U] this [of PTE_COW]
  show P: "has (shared_entry e) PTE_P" and "\<not> has (shared_entry e) PTE_W"
    "has (shared_entry e) PTE_COW \<longleftrightarrow> has e PTE_W \<or> has e PTE_COW" "has (shared_entry e) PTE_U \<longleftrightarrow> has e PTE_U"
    using assms A unfolding shared_entry_def has_bits
    by (simp_all add: bit_or_iff bit_and_iff bit_not_iff PTE_FLAGS_def bit_simps)
  show "shared_entry e OR PTE_P = shared_entry e"
    by (rule or_P_absorb [OF P])
qed

subsection \<open>Two directories\<close>

lemma pt_unrelated:
  assumes inv: "pt_inv s p vs" and m: "\<And>f. f \<in> pt_frames s p \<Longrightarrow> mem t f = mem s f"
    and fp: "free_pages t ws" "set ws \<subseteq> set vs" and ke: "k_end t = k_end s"
  shows "pt_inv t p ws" "pte_val t p = pte_val s p" "pt_frames t p = pt_frames s p" "tables t p = tables s p"
proof -
  note C = pt_mem_cong [of s p t, OF m]
  show "pte_val t p = pte_val s p" "pt_frames t p = pt_frames s p" by (rule C, assumption)+
  show "tables t p = tables s p" by (simp add: tables_def C)
  have "heap_page t = heap_page s" using ke by (intro heap_page_cong)
  moreover have "mem t (kfn p) = mem s (kfn p)" by (rule m) simp
  moreover have "kfn ` set ws \<inter> pt_frames s p = {}" using inv fp(2) by (auto simp: pt_inv_def)
  ultimately show "pt_inv t p ws"
    using inv fp(1) by (simp add: pt_inv_def pt_heap_def C)
qed

lemma pt_other:
  assumes g: "pt_grow d s vs t ws" and inv: "pt_inv s p vs" and dis: "pt_frames s p \<inter> pt_frames s d = {}"
  shows "pt_inv t p ws" "pte_val t p = pte_val s p" "pt_frames t p = pt_frames s p"
    "tables t p = tables s p" "pt_frames t p \<inter> pt_frames t d = {}"
proof -
  obtain us where us: "vs = us @ ws" "pt_frames t d = pt_frames s d \<union> kfn ` set us"
    using g by (auto simp: pt_grow_def)
  have "kfn ` set vs \<inter> pt_frames s p = {}" using inv by (simp add: pt_inv_def)
  then have dt: "pt_frames s p \<inter> pt_frames t d = {}" using dis us by auto
  then have m: "mem t f = mem s f" if "f \<in> pt_frames s p" for f
    using that g by (auto simp: pt_grow_def)
  have "free_pages t ws" "set ws \<subseteq> set vs" "k_end t = k_end s" using g us by (auto simp: pt_grow_def pt_inv_def)
  note U = pt_unrelated [OF inv m this]
  show "pt_inv t p ws" "pte_val t p = pte_val s p" "pt_frames t p = pt_frames s p" "tables t p = tables s p"
    by (rule U, assumption)+
  then show "pt_frames t p \<inter> pt_frames t d = {}" using dt by simp
qed

text \<open>
  A directory \<open>d\<close> whose tables fit into \<open>K\<close> while the free list covers what is missing.
\<close>

definition room :: "nat set \<Rightarrow> u32 \<Rightarrow> 'z mm_scheme \<Rightarrow> u32 list \<Rightarrow> bool" where
  "room K d s vs \<longleftrightarrow> finite K \<and> K \<subseteq> {..<1024} \<and> tables s d \<subseteq> K \<and> card K \<le> card (tables s d) + length vs"

definition pair_inv :: "u32 \<Rightarrow> u32 \<Rightarrow> 'z mm_scheme \<Rightarrow> u32 list \<Rightarrow> bool" where
  "pair_inv p d s vs \<longleftrightarrow> pt_inv s p vs \<and> pt_inv s d vs \<and> pt_frames s p \<inter> pt_frames s d = {}"

text \<open>One page of the loop.\<close>

lemma copy_page:
  assumes pi: "pair_inv p d s vs" and rm: "room K d s vs" and i: "pg_aligned i" "unat i + 4096 \<le> 0x80000000"
    and K: "pfn i div 1024 \<in> K" and e: "e = pte_val s p i" "has e PTE_P"
    and fresh: "\<not> has (pte_val s d i) PTE_P" and sz: "i < sz"
  obtains t ws where "copyuvm_loop d p sz i s = copyuvm_loop d p sz (i + PGSIZE) t" "pair_inv p d t ws" "room K d t ws"
    "pte_val t p = (\<lambda>va. if pfn va = pfn i then shared_entry e else pte_val s p va)"
    "pte_val t d = (\<lambda>va. if pfn va = pfn i then shared_entry e else pte_val s d va)"
    "refcounts t = (if use_lock s then (refcounts s)(pfn (PTE_ADDR e) := refcounts s (pfn (PTE_ADDR e)) + 1) else refcounts s)"
    "\<forall>f. f \<notin> pt_frames t p \<union> pt_frames t d \<longrightarrow> mem t f = mem s f" "pt_frames t p = pt_frames s p"
    "\<exists>us. vs = us @ ws \<and> pt_frames t d = pt_frames s d \<union> kfn ` set us"
    "use_lock t = use_lock s" "mm.more t = mm.more s"
proof -
  have inv: "pt_inv s p vs" "pt_inv s d vs" "pt_frames s p \<inter> pt_frames s d = {}" using pi by (simp_all add: pair_inv_def)
  have pr: "present s p (unat (PDX i))" using e by (simp add: has_presentD)
  let ?pte = "(tab_frame s p (unat (PDX i)), unat (PTX i))"
  let ?fl = "if has e PTE_W then (PTE_FLAGS e AND NOT PTE_W) OR PTE_COW else PTE_FLAGS e"
  define s2 where "s2 = (if has e PTE_W then wr ?pte (shared_entry e) s else s)"
  have se: "PTE_ADDR e OR ?fl = shared_entry e" by (simp add: shared_entry_def PTE_split)
  have wf: "pt_wf s p" using inv by (simp add: pt_inv_def)
  have g2: "pt_grow p s vs s2 vs" using pt_grow_wr [OF inv(1) pr] pt_grow_refl [OF inv(1)] by (simp add: s2_def)
  have v2: "pte_val s2 p = (\<lambda>va. if pfn va = pfn i then shared_entry e else pte_val s p va)"
  proof (cases "has e PTE_W")
    case True
    then show ?thesis using pte_write(5) [OF wf pr refl, of "shared_entry e"] by (simp add: s2_def)
  next
    case False
    have "pte_val s p va = e" if "pfn va = pfn i" for va using pte_val_cong_page [OF that] e(1) by simp
    then show ?thesis using False by (simp add: s2_def shared_entry_def fun_eq_iff)
  qed
  have f2: "pt_frames s2 p = pt_frames s p" using pte_write(3) [OF wf pr refl] by (simp add: s2_def)
  have r2: "refcounts s2 = refcounts s" "use_lock s2 = use_lock s" "mm.more s2 = mm.more s"
    by (simp_all add: s2_def wr_frame)
  have m2: "mem s2 f = mem s f" if "f \<notin> pt_frames s p" for f
    using that g2 f2 by (auto simp: pt_grow_def)
  have dis: "pt_frames s d \<inter> pt_frames s p = {}" using inv(3) by blast
  note D = pt_other [OF g2 inv(2) dis]
  have "\<exists>r t. mappages d i PGSIZE (PTE_ADDR e) ?fl s2 = Ret r t \<and> mapped_upto d i 0 (PTE_ADDR e) ?fl s2 vs r t"
  proof (rule mappages_spec [OF D(1) i(1)])
    show "unat i + 4096 * Suc 0 \<le> 4294967296" using i(2) by simp
    fix va assume "pfn i \<le> pfn va" "pfn va \<le> pfn i + 0"
    then have "pte_val s d va = pte_val s d i" by (intro pte_val_cong_page) simp
    then show "\<not> has (pte_val s2 d va) PTE_P" using fresh by (simp add: D(2))
  qed (use unsigned_less [of "PTE_ADDR e"] in simp_all)
  then obtain r t where t: "mappages d i PGSIZE (PTE_ADDR e) ?fl s2 = Ret r t"
      "mapped_upto d i 0 (PTE_ADDR e) ?fl s2 vs r t" by blast
  have rm': "finite K" "K \<subseteq> {..<1024}" "tables s2 d \<subseteq> K" "card K \<le> card (tables s2 d) + length vs"
    using rm by (simp_all add: room_def D(4))
  from mapped_upto_enough [OF t(2) rm'(1) rm'(3) rm'(2) _ rm'(4)] K obtain ws where
    w: "r = 0" "tables t d \<subseteq> K" "pt_grow d s2 vs t ws" "card K \<le> card (tables t d) + length ws"
      "pte_val t d = map_range i (Suc 0) (PTE_ADDR e) ?fl (pte_val s2 d)"
      "refcounts t = count_range (use_lock s2) (PTE_ADDR e) (Suc 0) (refcounts s2)" by auto
  have dis2: "pt_frames s2 p \<inter> pt_frames s2 d = {}" using D(5) by blast
  note P = pt_other [OF w(3) pt_grow_inv [OF g2] dis2]
  have "i < i + PGSIZE" using unat_add_page [of i] i(2) by (simp add: word_less_nat_alt)
  moreover have "walkpgdir p i False s = (Some ?pte, s)" using pr by (simp add: walkpgdir_noalloc)
  moreover have "rd ?pte s = e" using rd_walk [OF pr] e by simp
  moreover have "has (PTE_FLAGS e) PTE_W = has e PTE_W" by (rule has_PTE_FLAGS) simp
  ultimately have eq: "copyuvm_loop d p sz i s = copyuvm_loop d p sz (i + PGSIZE) t"
    using sz e(2) t(1) w(1) by (subst copyuvm_loop.simps) (simp add: s2_def shared_entry_def Let_def split: if_splits)
  have vd: "pte_val t d = (\<lambda>va. if pfn va = pfn i then shared_entry e else pte_val s d va)"
    using shared_entry_facts(6) [OF e(2)] se by (auto simp: w(5) D(2) map_range_def fun_eq_iff or.assoc [symmetric])
  have rc: "refcounts t = (if use_lock s then (refcounts s)(pfn (PTE_ADDR e) := refcounts s (pfn (PTE_ADDR e)) + 1) else refcounts s)"
    by (auto simp: w(6) r2 count_range_def fun_eq_iff)
  have us: "\<exists>us. vs = us @ ws \<and> pt_frames t d = pt_frames s d \<union> kfn ` set us" and o: "use_lock t = use_lock s" "mm.more t = mm.more s"
    using w(3) r2 by (auto simp: pt_grow_def D(3))
  have mo: "\<forall>f. f \<notin> pt_frames t p \<union> pt_frames t d \<longrightarrow> mem t f = mem s f"
    using w(3) m2 P(3) f2 by (auto simp: pt_grow_def)
  have "pair_inv p d t ws" using P pt_grow_inv [OF w(3)] by (simp add: pair_inv_def)
  moreover have "room K d t ws" using rm' w by (simp add: room_def)
  moreover have "pte_val t p = (\<lambda>va. if pfn va = pfn i then shared_entry e else pte_val s p va)" by (simp add: P(2) v2)
  moreover have "pt_frames t p = pt_frames s p" by (simp add: P(3) f2)
  ultimately show thesis using eq vd rc mo us o by (intro that)
qed

subsection \<open>The loop\<close>

lemma page_addr:
  assumes "k < 0x80000"
  shows "unat (of_nat (4096 * k) :: u32) = 4096 * k" "pfn (of_nat (4096 * k)) = k" "pg_aligned (of_nat (4096 * k))"
proof -
  show u: "unat (of_nat (4096 * k) :: u32) = 4096 * k" unfolding unat_of_nat using assms by simp
  show "pfn (of_nat (4096 * k)) = k" "pg_aligned (of_nat (4096 * k))" unfolding pfn_def pg_aligned_def u by simp_all
qed

text \<open>How many of the pages from \<open>k\<close> up to \<open>n\<close> a directory maps to the frame \<open>f\<close>.\<close>

definition owners :: "(u32 \<Rightarrow> u32) \<Rightarrow> nat \<Rightarrow> nat \<Rightarrow> nat \<Rightarrow> nat" where
  "owners pt k n f = card {j. k \<le> j \<and> j < n \<and> pfn (PTE_ADDR (pt (of_nat (4096 * j)))) = f}"

lemma owners_Suc:
  assumes "k < n"
  shows "owners pt k n f = owners pt (Suc k) n f + (if pfn (PTE_ADDR (pt (of_nat (4096 * k)))) = f then 1 else 0)"
proof -
  let ?P = "\<lambda>j. pfn (PTE_ADDR (pt (of_nat (4096 * j)))) = f"
  have "{j. k \<le> j \<and> j < n \<and> ?P j} = (if ?P k then insert k {j. Suc k \<le> j \<and> j < n \<and> ?P j} else {j. Suc k \<le> j \<and> j < n \<and> ?P j})"
    using assms by (auto simp: Suc_le_eq order.order_iff_strict)
  then show ?thesis by (simp add: owners_def)
qed

lemma owners_cong:
  "(\<And>j. k \<le> j \<Longrightarrow> j < n \<Longrightarrow> pt (of_nat (4096 * j)) = pt' (of_nat (4096 * j))) \<Longrightarrow> owners pt k n f = owners pt' k n f"
  unfolding owners_def by (rule arg_cong [where f = card]) auto

text \<open>What the two directories look like after the pages from \<open>k\<close> up to \<open>n\<close>.\<close>

definition shared_upto :: "u32 \<Rightarrow> u32 \<Rightarrow> nat \<Rightarrow> nat \<Rightarrow> 'z mm_scheme \<Rightarrow> u32 list \<Rightarrow> 'z mm_scheme \<Rightarrow> bool" where
  "shared_upto p d k n s vs t \<longleftrightarrow>
     (\<exists>us ws. vs = us @ ws \<and> pair_inv p d t ws \<and> pt_frames t p = pt_frames s p \<and>
        pt_frames t d = pt_frames s d \<union> kfn ` set us) \<and>
     pte_val t p = (\<lambda>va. if k \<le> pfn va \<and> pfn va < n then shared_entry (pte_val s p va) else pte_val s p va) \<and>
     pte_val t d = (\<lambda>va. if k \<le> pfn va \<and> pfn va < n then shared_entry (pte_val s p va) else pte_val s d va) \<and>
     (\<forall>f. refcounts t f = refcounts s f + (if use_lock s then of_nat (owners (pte_val s p) k n f) else 0)) \<and>
     (\<forall>f. f \<notin> pt_frames t p \<union> pt_frames t d \<longrightarrow> mem t f = mem s f) \<and> use_lock t = use_lock s \<and> mm.more t = mm.more s"

lemma shared_upto_refl: "pair_inv p d s vs \<Longrightarrow> shared_upto p d n n s vs s"
proof -
  assume "pair_inv p d s vs"
  then have "\<exists>us ws. vs = us @ ws \<and> pair_inv p d s ws \<and> pt_frames s p = pt_frames s p \<and>
      pt_frames s d = pt_frames s d \<union> kfn ` set us" by (intro exI [of _ "[]"] exI [of _ vs]) simp
  moreover have "(if b then of_nat (owners pt n n f) else 0) = (0 :: u8)" for pt f b
  proof -
    have "owners pt n n f = card ({} :: nat set)" unfolding owners_def by (rule arg_cong [where f = card]) auto
    then show ?thesis by simp
  qed
  moreover have "\<not> (n \<le> m \<and> m < n)" for m by simp
  ultimately show ?thesis unfolding shared_upto_def by (simp only: if_False simp_thms add_0_right)
qed

lemma shared_upto_step:
  assumes k: "k < n" "n \<le> 0x80000" and pi: "pair_inv p d s vs"
    and u: "vs = us @ ws" "pt_frames t p = pt_frames s p" "pt_frames t d = pt_frames s d \<union> kfn ` set us"
      "pte_val t p = (\<lambda>va. if pfn va = k then shared_entry e else pte_val s p va)"
      "pte_val t d = (\<lambda>va. if pfn va = k then shared_entry e else pte_val s d va)"
      "refcounts t = (if use_lock s then (refcounts s)(pfn (PTE_ADDR e) := refcounts s (pfn (PTE_ADDR e)) + 1) else refcounts s)"
      "\<forall>f. f \<notin> pt_frames t p \<union> pt_frames t d \<longrightarrow> mem t f = mem s f" "use_lock t = use_lock s" "mm.more t = mm.more s"
    and e: "e = pte_val s p (of_nat (4096 * k))" and st: "shared_upto p d (Suc k) n t ws u"
  shows "shared_upto p d k n s vs u"
proof -
  obtain us' ws' where w: "ws = us' @ ws'" "pair_inv p d u ws'" "pt_frames u p = pt_frames t p"
      "pt_frames u d = pt_frames t d \<union> kfn ` set us'"
    using st unfolding shared_upto_def by (elim exE conjE) (rule that)
  have S: "pte_val u p = (\<lambda>va. if Suc k \<le> pfn va \<and> pfn va < n then shared_entry (pte_val t p va) else pte_val t p va)"
    "pte_val u d = (\<lambda>va. if Suc k \<le> pfn va \<and> pfn va < n then shared_entry (pte_val t p va) else pte_val t d va)"
    "\<And>f. refcounts u f = refcounts t f + (if use_lock t then of_nat (owners (pte_val t p) (Suc k) n f) else 0)"
    "\<And>f. f \<notin> pt_frames u p \<union> pt_frames u d \<Longrightarrow> mem u f = mem t f" "use_lock u = use_lock t" "mm.more u = mm.more t"
    using st by (simp_all add: shared_upto_def)
  have pk: "pfn (of_nat (4096 * j)) = j" if "j < n" for j using page_addr(2) [of j] that k(2) by simp
  have ev: "pte_val s p va = e" if "pfn va = k" for va
    using pte_val_cong_page [of va "of_nat (4096 * k)"] pk [OF k(1)] that e by simp
  have "owners (pte_val t p) (Suc k) n f = owners (pte_val s p) (Suc k) n f" for f
    using pk by (intro owners_cong) (simp add: u(4))
  then have "refcounts u f = refcounts s f + (if use_lock s then of_nat (owners (pte_val s p) k n f) else 0)" for f
    using owners_Suc [OF k(1), of "pte_val s p" f] by (simp add: S(3) u(6,8) e)
  moreover have "pte_val u p = (\<lambda>va. if k \<le> pfn va \<and> pfn va < n then shared_entry (pte_val s p va) else pte_val s p va)"
    using ev k(1) by (auto simp: S(1) u(4) fun_eq_iff not_le less_Suc_eq_le order.antisym)
  moreover have "pte_val u d = (\<lambda>va. if k \<le> pfn va \<and> pfn va < n then shared_entry (pte_val s p va) else pte_val s d va)"
    using ev k(1) by (auto simp: S(2) u(4,5) fun_eq_iff not_le less_Suc_eq_le order.antisym)
  moreover have "vs = (us @ us') @ ws' \<and> pair_inv p d u ws' \<and> pt_frames u p = pt_frames s p \<and>
      pt_frames u d = pt_frames s d \<union> kfn ` set (us @ us')"
    using w u by auto
  then have "\<exists>us ws. vs = us @ ws \<and> pair_inv p d u ws \<and> pt_frames u p = pt_frames s p \<and>
      pt_frames u d = pt_frames s d \<union> kfn ` set us" by (intro exI)
  moreover have "\<forall>f. f \<notin> pt_frames u p \<union> pt_frames u d \<longrightarrow> mem u f = mem s f" using S(4) u(7) w(3,4) by auto
  ultimately show ?thesis using S(5,6) u(8,9) unfolding shared_upto_def by (intro conjI allI) simp_all
qed

lemma copyuvm_loop_shares:
  assumes "pair_inv p d s vs" "room K d s vs" "unat sz \<le> 0x80000000" "n = (unat sz + 4095) div 4096" "k \<le> n"
    "\<And>j. j < n \<Longrightarrow> j div 1024 \<in> K"
    "\<And>va. k \<le> pfn va \<Longrightarrow> pfn va < n \<Longrightarrow> has (pte_val s p va) PTE_P \<and> \<not> has (pte_val s d va) PTE_P"
  shows "\<exists>t. copyuvm_loop d p sz (of_nat (4096 * k)) s = Ret d t \<and> shared_upto p d k n s vs t"
  using assms
proof (induction "n - k" arbitrary: k s vs)
  case 0
  then have kn: "k = n" by simp
  have "n \<le> 0x80000" using 0 by simp
  then have "unat (of_nat (4096 * k) :: u32) = 4096 * k" unfolding unat_of_nat by (simp add: kn)
  then have "\<not> of_nat (4096 * k) < sz" using 0 kn by (simp add: word_less_nat_alt)
  then have "copyuvm_loop d p sz (of_nat (4096 * k)) s = Ret d s" by (simp add: copyuvm_loop.simps [of d p sz])
  moreover have "shared_upto p d k n s vs s"
    unfolding kn by (rule shared_upto_refl [OF 0(2)])
  ultimately show ?case by blast
next
  case (Suc m)
  let ?i = "of_nat (4096 * k) :: u32"
  have k: "k < n" "n \<le> 0x80000" using Suc by simp_all
  note a = page_addr [of k, OF less_le_trans [OF k]]
  have lt: "?i < sz" using Suc k(1) a(1) by (simp add: word_less_nat_alt)
  have up: "unat ?i + 4096 \<le> 0x80000000" using a(1) k by simp
  have pK: "pfn ?i div 1024 \<in> K" unfolding a(2) using Suc.prems(6) k(1) .
  have hp: "has (pte_val s p ?i) PTE_P" "\<not> has (pte_val s d ?i) PTE_P"
    using Suc.prems(7) [of ?i] a(2) k by simp_all
  from copy_page [OF Suc.prems(1,2) a(3) up pK refl hp lt] obtain t ws where
    t: "copyuvm_loop d p sz ?i s = copyuvm_loop d p sz (?i + PGSIZE) t" "pair_inv p d t ws" "room K d t ws"
    "pte_val t p = (\<lambda>va. if pfn va = pfn ?i then shared_entry (pte_val s p ?i) else pte_val s p va)"
    "pte_val t d = (\<lambda>va. if pfn va = pfn ?i then shared_entry (pte_val s p ?i) else pte_val s d va)"
    "refcounts t = (if use_lock s then (refcounts s)(pfn (PTE_ADDR (pte_val s p ?i)) := refcounts s (pfn (PTE_ADDR (pte_val s p ?i))) + 1) else refcounts s)"
    "\<forall>f. f \<notin> pt_frames t p \<union> pt_frames t d \<longrightarrow> mem t f = mem s f" "pt_frames t p = pt_frames s p"
    "\<exists>us. vs = us @ ws \<and> pt_frames t d = pt_frames s d \<union> kfn ` set us"
    "use_lock t = use_lock s" "mm.more t = mm.more s" .
  from t(9) obtain us where us: "vs = us @ ws" "pt_frames t d = pt_frames s d \<union> kfn ` set us" by blast
  have nx: "?i + PGSIZE = of_nat (4096 * Suc k)" by simp
  have "\<exists>u. copyuvm_loop d p sz (of_nat (4096 * Suc k)) t = Ret d u \<and> shared_upto p d (Suc k) n t ws u"
  proof (rule Suc.hyps(1) [OF _ t(2,3) Suc.prems(3,4) _ Suc.prems(6)])
    fix va assume "Suc k \<le> pfn va" "pfn va < n"
    moreover from this have "pfn va \<noteq> pfn ?i" unfolding a(2) by simp
    ultimately show "has (pte_val t p va) PTE_P \<and> \<not> has (pte_val t d va) PTE_P"
      unfolding t(4,5) using Suc.prems(7) [of va] by (simp only: if_False Suc_leD simp_thms)
  qed (use Suc.hyps(2) k in simp_all)
  then obtain u where u: "copyuvm_loop d p sz (of_nat (4096 * Suc k)) t = Ret d u" "shared_upto p d (Suc k) n t ws u" by blast
  have "shared_upto p d k n s vs u"
    by (rule shared_upto_step [OF k Suc.prems(1) us(1) t(8) us(2) t(4) [unfolded a(2)] t(5) [unfolded a(2)] t(6,7,10,11) refl u(2)])
  then show ?case using u(1) unfolding t(1) nx by blast
qed

subsection \<open>fork's address space\<close>

text \<open>The new directory of \<open>setupkvm\<close> next to the one of the caller.\<close>

lemma card_tables:
  assumes "pt_wf s d"
  shows "card (pt_frames s d) = Suc (card (tables s d))"
proof -
  have "kfn d \<notin> tab_frame s d ` tables s d" using assms by (auto simp: pt_wf_def tables_def)
  moreover have "card (tab_frame s d ` tables s d) = card (tables s d)"
    using assms by (intro card_image) (simp add: pt_wf_def tables_def)
  ultimately show ?thesis by (simp add: pt_frames_def tables_def [symmetric])
qed

lemma setupkvm_beside:
  assumes inv: "pt_inv s p vs" and len: "1025 \<le> length vs" and dt: "data_ok s"
  obtains d t ws us where "setupkvm s = Ret d t" "d \<noteq> 0" "pair_inv p d t ws" "room {..<1024} d t ws"
    "pte_val t p = pte_val s p" "pte_val t d = kernel_pte (k_data s)" "refcounts t = kmap_counts (use_lock s) (refcounts s)"
    "pt_frames t p = pt_frames s p" "vs = us @ ws" "pt_frames t d = kfn ` set us"
    "\<forall>f. f \<notin> pt_frames t d \<longrightarrow> mem t f = mem s f" "use_lock t = use_lock s" "mm.more t = mm.more s"
proof -
  have fp: "free_pages s vs" using inv by (simp add: pt_inv_def)
  have "65 \<le> length vs" using len by simp
  from setupkvm_spec [OF fp this dt] obtain t ws us where
    t: "setupkvm s = Ret (hd vs) t" "pt_inv t (hd vs) ws" "pte_val t (hd vs) = kernel_pte (k_data s)"
      "refcounts t = kmap_counts (use_lock s) (refcounts s)" "tl vs = us @ ws" "pt_frames t (hd vs) = kfn ` set (hd vs # us)"
      "\<forall>g. g \<notin> pt_frames t (hd vs) \<longrightarrow> mem t g = mem s g" "use_lock t = use_lock s" "k_end t = k_end s" "mm.more t = mm.more s"
    by blast
  have vs: "vs = (hd vs # us) @ ws" using t(5) len by (cases vs) auto
  have hd0: "hd vs \<noteq> 0" using fp len by (cases vs) (auto simp: free_pages_def heap_page_nonzero)
  have "set (hd vs # us) \<subseteq> set vs" using arg_cong [OF vs, of set] by auto
  then have dis: "pt_frames s p \<inter> pt_frames t (hd vs) = {}"
    using inv image_mono [of "set (hd vs # us)" "set vs" kfn] unfolding t(6) pt_inv_def by blast
  have m: "mem t f = mem s f" if "f \<in> pt_frames s p" for f using that dis t(7) by blast
  have sub: "set ws \<subseteq> set vs" using arg_cong [OF vs, of set] by auto
  have fpt: "free_pages t ws" using t(2) by (simp add: pt_inv_def)
  note U = pt_unrelated [OF inv m fpt sub t(9)]
  have "card (pt_frames t (hd vs)) = length (hd vs # us)"
  proof -
    have "distinct (map kfn vs)"
      using fp by (auto simp: distinct_map free_pages_def inj_on_def intro: kfn_inj)
    then have "distinct (map kfn ((hd vs # us) @ ws))" using vs by simp
    then have "distinct (map kfn (hd vs # us))" by simp
    from distinct_card [OF this] show ?thesis unfolding t(6) by (simp only: set_map length_map)
  qed
  then have "card (tables t (hd vs)) = length us" using card_tables [of t "hd vs"] t(2) by (simp add: pt_inv_def)
  moreover have "length vs = Suc (length us) + length ws" using arg_cong [OF vs, of length] by simp
  ultimately have "room {..<1024} (hd vs) t ws" using len by (auto simp: room_def tables_def)
  moreover have "pair_inv p (hd vs) t ws" using U t(2) dis by (simp add: pair_inv_def)
  ultimately show thesis using t hd0 U vs by (intro that [of "hd vs" t ws "hd vs # us"])
qed

text \<open>
  (C3) \<open>copyuvm\<close> shares the memory of the parent. With enough free pages for a full directory it
  succeeds; then every user page is mapped by both directories with the same entry: the
  frame the parent had, present, not writable, copy on write where it was writable, and as
  accessible to the user as before. All other addresses are as before in the parent and
  hold the kernel's mapping in the child; the pages themselves and all memory outside the two
  tables are unchanged; and the reference count of each frame has grown by the number of
  user pages that map it (besides the count that \<open>setupkvm\<close> adds for physical memory).
\<close>

theorem copyuvm_shares:
  assumes "pt_inv s p vs" "data_ok s" "1025 \<le> length vs" "sz \<le> KERNBASE" "use_lock s"
    and pr: "\<forall>va < sz. has (pte_val s p va) PTE_P"
  defines "n \<equiv> (unat sz + 4095) div 4096"
  shows "\<exists>d t. copyuvm p sz s = Ret d t \<and> d \<noteq> 0 \<and>
    (\<forall>va < sz. pte_val t d va = pte_val t p va \<and> PTE_ADDR (pte_val t p va) = PTE_ADDR (pte_val s p va) \<and>
       has (pte_val t p va) PTE_P \<and> \<not> has (pte_val t p va) PTE_W \<and>
       (has (pte_val t p va) PTE_COW \<longleftrightarrow> has (pte_val s p va) PTE_W \<or> has (pte_val s p va) PTE_COW) \<and>
       (has (pte_val t p va) PTE_U \<longleftrightarrow> has (pte_val s p va) PTE_U)) \<and>
    (\<forall>va. n \<le> pfn va \<longrightarrow> pte_val t p va = pte_val s p va \<and> pte_val t d va = kernel_pte (k_data s) va) \<and>
    (\<forall>f. f \<notin> pt_frames s p \<union> kfn ` set vs \<longrightarrow> mem t f = mem s f) \<and>
    (\<forall>f. refcounts t f = refcounts s f + (if kernel_frame f then 1 else 0) + of_nat (owners (pte_val s p) 0 n f))"
proof -
  from setupkvm_beside [OF assms(1,3,2)] obtain d u ws us where
    u: "setupkvm s = Ret d u" "d \<noteq> 0" "pair_inv p d u ws" "room {..<1024} d u ws"
      "pte_val u p = pte_val s p" "pte_val u d = kernel_pte (k_data s)" "refcounts u = kmap_counts (use_lock s) (refcounts s)"
      "pt_frames u p = pt_frames s p" "vs = us @ ws" "pt_frames u d = kfn ` set us"
      "\<forall>f. f \<notin> pt_frames u d \<longrightarrow> mem u f = mem s f" "use_lock u = use_lock s" "mm.more u = mm.more s" .
  have sz: "unat sz \<le> 0x80000000" using assms(4) by (simp add: word_le_nat_alt)
  then have n: "n \<le> 0x80000" by (simp add: n_def)
  have start: "\<exists>va' < sz. pfn va' = pfn va" if "pfn va < n" for va
  proof (intro exI conjI)
    have "4096 * pfn va < unat sz" using that by (simp add: n_def)
    moreover have "pfn va < 0x80000" using that n by simp
    ultimately show "of_nat (4096 * pfn va) < sz" "pfn (of_nat (4096 * pfn va)) = pfn va"
      using page_addr [of "pfn va"] by (simp_all only: word_less_nat_alt)
  qed
  have P: "has (pte_val s p va) PTE_P" if "pfn va < n" for va
    using start [OF that] pr pte_val_cong_page by metis
  have kp: "kernel_pte (k_data s) va = 0" if "pfn va < n" for va
  proof -
    have "unat va < 0x80000000" using that n by (simp add: pfn_def)
    then show ?thesis by (simp add: kernel_pte_def word_less_nat_alt word_le_nat_alt)
  qed
  have "\<exists>t. copyuvm_loop d p sz (of_nat (4096 * 0)) u = Ret d t \<and> shared_upto p d 0 n u ws t"
    using n by (intro copyuvm_loop_shares [OF u(3,4) sz n_def [THEN meta_eq_to_obj_eq]]) (auto simp: u(5,6) P kp)
  then obtain t where t: "copyuvm_loop d p sz 0 u = Ret d t" "shared_upto p d 0 n u ws t" by auto
  have c: "copyuvm p sz s = Ret d t" using u(1,2) t(1) by (simp add: copyuvm_def)
  have T: "pte_val t p = (\<lambda>va. if pfn va < n then shared_entry (pte_val s p va) else pte_val s p va)"
    "pte_val t d = (\<lambda>va. if pfn va < n then shared_entry (pte_val s p va) else kernel_pte (k_data s) va)"
    using t(2) unfolding shared_upto_def u(5,6) by simp_all
  have in_n: "pfn va < n" if "va < sz" for va
    using that by (simp add: n_def pfn_def word_less_nat_alt)
  have rc: "refcounts t f = refcounts s f + (if kernel_frame f then 1 else 0) + of_nat (owners (pte_val s p) 0 n f)" for f
    using t(2) assms(5) unfolding shared_upto_def u(5,7,12) by (simp add: kmap_counts_def)
  have mo: "mem t f = mem s f" if f: "f \<notin> pt_frames s p \<union> kfn ` set vs" for f
  proof -
    obtain us' ws' where w: "ws = us' @ ws'" "pt_frames t p = pt_frames u p" "pt_frames t d = pt_frames u d \<union> kfn ` set us'"
      using t(2) unfolding shared_upto_def by (elim exE conjE) (rule that)
    have "f \<notin> pt_frames t p \<union> pt_frames t d" "f \<notin> pt_frames u d" using f w u(8-10) by auto
    then show ?thesis using t(2) u(11) by (simp add: shared_upto_def)
  qed
  show ?thesis
  proof (intro exI conjI allI impI)
    fix va assume va: "va < sz"
    note S = shared_entry_facts [OF pr [rule_format, OF va]]
    show "pte_val t d va = pte_val t p va" "PTE_ADDR (pte_val t p va) = PTE_ADDR (pte_val s p va)" "has (pte_val t p va) PTE_P"
      "\<not> has (pte_val t p va) PTE_W" "has (pte_val t p va) PTE_COW \<longleftrightarrow> has (pte_val s p va) PTE_W \<or> has (pte_val s p va) PTE_COW"
      "has (pte_val t p va) PTE_U \<longleftrightarrow> has (pte_val s p va) PTE_U"
      using in_n [OF va] S by (simp_all add: T)
  qed (use c u(2) rc mo in \<open>simp_all add: T\<close>)
qed

text \<open>
  A process with one writable page at address 0: directory, table and page in the frames \<open>0x110\<close>,
  \<open>0x111\<close> and \<open>0x300\<close>, and 1100 free pages from frame \<open>0x400\<close> on.
\<close>

definition demo_free :: "nat \<Rightarrow> nat \<Rightarrow> u32 list" where
  "demo_free k n = map (\<lambda>j. 0x80400000 + of_nat (4096 * j)) [k..<n]"

definition demo_parent :: mm where
  "demo_parent = \<lparr>mem = (\<lambda>f i. if f = 0x110 \<and> i = 0 then 0x111007 else if f = 0x111 \<and> i = 0 then 0x300007
       else if 0x400 \<le> f \<and> f < 0x84B \<and> i = 0 then 0x80001000 + of_nat (4096 * f) else 0),
     use_lock = True, freelist = 0x80400000, refcounts = (\<lambda>_. 0)(0x300 := 1), k_end = 0x80110000, k_data = 0x80108000\<rparr>"

lemma demo_free_addr:
  assumes "j < 1100"
  shows "unat (0x80400000 + of_nat (4096 * j) :: u32) = 0x80400000 + 4096 * j" "kfn (0x80400000 + of_nat (4096 * j)) = 0x400 + j"
proof -
  have o: "unat (of_nat (4096 * j) :: u32) = 4096 * j" unfolding unat_of_nat using assms by simp
  show u: "unat (0x80400000 + of_nat (4096 * j) :: u32) = 0x80400000 + 4096 * j"
    unfolding unat_word_ariths(1) o using assms by simp
  then have "unat (V2P (0x80400000 + of_nat (4096 * j))) = 0x400000 + 4096 * j"
    by (subst unat_V2P) (simp_all add: word_le_nat_alt)
  then show "kfn (0x80400000 + of_nat (4096 * j)) = 0x400 + j" by (simp add: kfn_def pfn_def)
qed

lemma demo_free_path:
  assumes m: "\<forall>k < 1100. m (0x400 + k) 0 = (if Suc k = 1100 then 0 else 0x80400000 + of_nat (4096 * Suc k))"
  shows "k \<le> 1100 \<Longrightarrow> fl_path m (if k = 1100 then 0 else 0x80400000 + of_nat (4096 * k)) (demo_free k 1100)"
proof (induction "1100 - k" arbitrary: k)
  case (Suc n)
  then have k: "k < 1100" by simp
  have nz: "(0x80400000 + of_nat (4096 * k) :: u32) \<noteq> 0" using demo_free_addr(1) [OF k] by (metis add_is_0 unat_0 zero_neq_numeral)
  note mk = m [rule_format, OF k]
  have "n = 1100 - Suc k" "Suc k \<le> 1100" using Suc.hyps(2) k by simp_all
  from Suc.hyps(1) [OF this] have "fl_path m (m (kfn (0x80400000 + of_nat (4096 * k))) 0) (demo_free (Suc k) 1100)"
    unfolding demo_free_addr(2) [OF k] mk .
  moreover have "demo_free k 1100 = (0x80400000 + of_nat (4096 * k)) # demo_free (Suc k) 1100"
    unfolding demo_free_def by (subst upt_conv_Cons [OF k]) simp
  ultimately show ?case using k nz by simp
next
  case 0
  then have "k = 1100" by simp
  then show ?case by (simp only: demo_free_def) simp
qed

lemma demo_free_frames: "kfn ` set (demo_free 0 1100) = {0x400..<0x84C}"
proof -
  have "kfn ` set (demo_free 0 1100) = (\<lambda>j. kfn (0x80400000 + of_nat (4096 * j))) ` {0..<1100}"
    unfolding demo_free_def set_map set_upt image_image ..
  also have "\<dots> = (+) 0x400 ` {0..<1100}" by (intro image_cong refl demo_free_addr(2)) simp
  finally show "kfn ` set (demo_free 0 1100) = {0x400..<0x84C}" by (simp only: image_add_atLeastLessThan) simp
qed

lemma demo_free_pages:
  assumes "\<forall>k < 1100. mem s (0x400 + k) 0 = (if Suc k = 1100 then 0 else 0x80400000 + of_nat (4096 * Suc k))"
    "freelist s = 0x80400000" "k_end s = 0x80110000"
  shows "free_pages s (demo_free 0 1100)"
proof -
  have el: "v \<in> set (demo_free 0 1100) \<longleftrightarrow> (\<exists>j < 1100. v = 0x80400000 + of_nat (4096 * j))" for v
    unfolding demo_free_def set_map set_upt by auto
  have hp: "heap_page s v" if v: "v \<in> set (demo_free 0 1100)" for v
  proof -
    obtain j where j: "j < 1100" "v = 0x80400000 + of_nat (4096 * j)" using v unfolding el by blast
    note u = demo_free_addr(1) [OF j(1), folded j(2)]
    show ?thesis using j(1) assms(3) by (simp add: heap_page_def pg_aligned_def word_le_nat_alt u)
  qed
  have "inj_on (\<lambda>j. 0x80400000 + of_nat (4096 * j) :: u32) {0..<1100}"
  proof (rule inj_on_inverseI [where g = "\<lambda>v. (unat v - 0x80400000) div 4096"])
    fix j :: nat assume "j \<in> {0..<1100}"
    then have "j < 1100" by simp
    then show "(unat (0x80400000 + of_nat (4096 * j) :: u32) - 0x80400000) div 4096 = j"
      unfolding demo_free_addr(1) [OF \<open>j < 1100\<close>] by simp
  qed
  then have "distinct (demo_free 0 1100)"
    by (simp only: demo_free_def distinct_map distinct_upt set_upt simp_thms)
  then show "free_pages s (demo_free 0 1100)" using hp demo_free_path [of "mem s" 0, OF assms(1)] assms(2) by (simp add: free_pages_def)
qed

lemma demo_parent_inv: "pt_inv demo_parent 0x80110000 (demo_free 0 1100)"
proof -
  let ?s = demo_parent
  have fn: "kfn 0x80110000 = 0x110" by (simp add: kfn_def pfn_def V2P_def)
  have pr: "present ?s 0x80110000 i \<longleftrightarrow> i = 0" "tab_frame ?s 0x80110000 0 = 0x111" for i
    by (auto simp: present_def tab_frame_def fn demo_parent_def has_def PTE_ADDR_def pfn_def)
  have F: "free_pages ?s (demo_free 0 1100)"
    by (rule demo_free_pages) (auto simp: demo_parent_def algebra_simps)
  have "pt_wf ?s 0x80110000" by (auto simp: pt_wf_def pr fn inj_on_def)
  moreover have "pt_heap ?s 0x80110000"
    by (auto simp: pt_heap_def pr heap_page_def pg_aligned_def fn) (simp_all add: demo_parent_def P2V_def PTE_ADDR_def)
  moreover have "kfn ` set (demo_free 0 1100) \<inter> pt_frames ?s 0x80110000 = {}" by (auto simp: demo_free_frames pt_frames_def pr fn)
  ultimately show ?thesis using F by (simp add: pt_inv_def)
qed

theorem copyuvm_shares_witness:
  "\<exists>d t. copyuvm 0x80110000 0x1000 demo_parent = Ret d t \<and> d \<noteq> 0 \<and> pte_val t d 0 = pte_val t 0x80110000 0 \<and>
     PTE_ADDR (pte_val t d 0) = 0x300000 \<and> has (pte_val t d 0) PTE_COW \<and> \<not> has (pte_val t d 0) PTE_W \<and> refcounts t 0x300 = 3"
proof -
  let ?s = demo_parent
  have fn: "kfn 0x80110000 = 0x110" by (simp add: kfn_def pfn_def V2P_def)
  have pv: "pte_val ?s 0x80110000 va = 0x300007" if "va < 0x1000" for va
  proof -
    have "unat va < 4096" using that by (simp add: word_less_nat_alt)
    then have "PDX va = 0" "PTX va = 0" by (simp_all add: word_unat_eq_iff unat_PDX unat_PTX)
    then show ?thesis by (simp add: pte_val_def fn demo_parent_def has_def PTE_ADDR_def pfn_def)
  qed
  have pr: "\<forall>va < 0x1000. has (pte_val ?s 0x80110000 va) PTE_P" by (simp add: pv has_def)
  have n: "(unat (0x1000 :: u32) + 4095) div 4096 = 1" by simp
  have ow: "owners (pte_val ?s 0x80110000) 0 1 0x300 = 1"
  proof -
    have "{j. 0 \<le> j \<and> j < 1 \<and> pfn (PTE_ADDR (pte_val ?s 0x80110000 (of_nat (4096 * j)))) = 0x300} = {0}"
      by (auto simp: pv PTE_ADDR_def pfn_def)
    then show ?thesis unfolding owners_def by simp
  qed
  have "data_ok ?s" "0x1000 \<le> KERNBASE" "use_lock ?s" "1025 \<le> length (demo_free 0 1100)"
    by (simp_all add: data_ok_def demo_parent_def pg_aligned_def P2V_def) (simp add: demo_free_def del: upt_rec_numeral)
  from copyuvm_shares [OF demo_parent_inv this(1,4,2,3) pr] obtain d t where
    t: "copyuvm 0x80110000 0x1000 ?s = Ret d t" "d \<noteq> 0"
      "\<forall>va < 0x1000. pte_val t d va = pte_val t 0x80110000 va \<and> PTE_ADDR (pte_val t 0x80110000 va) = PTE_ADDR (pte_val ?s 0x80110000 va) \<and>
       has (pte_val t 0x80110000 va) PTE_P \<and> \<not> has (pte_val t 0x80110000 va) PTE_W \<and>
       (has (pte_val t 0x80110000 va) PTE_COW \<longleftrightarrow> has (pte_val ?s 0x80110000 va) PTE_W \<or> has (pte_val ?s 0x80110000 va) PTE_COW) \<and>
       (has (pte_val t 0x80110000 va) PTE_U \<longleftrightarrow> has (pte_val ?s 0x80110000 va) PTE_U)"
      "\<forall>f. refcounts t f = refcounts ?s f + (if kernel_frame f then 1 else 0) + of_nat (owners (pte_val ?s 0x80110000) 0 ((unat (0x1000 :: u32) + 4095) div 4096) f)"
    by (elim exE conjE) (rule that)
  have "refcounts t 0x300 = 3"
  proof -
    have rs: "refcounts ?s 0x300 = 1" "kernel_frame 0x300" by (simp_all add: demo_parent_def kernel_frame_def)
    show ?thesis using t(4) [rule_format, of "0x300"] unfolding n ow rs(1) using rs(2) by simp
  qed
  moreover have "has (0x300007 :: u32) PTE_W" "PTE_ADDR 0x300007 = 0x300000" by (simp_all add: has_def PTE_ADDR_def)
  ultimately show ?thesis using t(1,2) t(3) [rule_format, of 0] by (auto simp: pv)
qed

end
