(* ===== verification/Fork_Wmap.thy ===== *)
theory Fork_Wmap
  imports Fork_Share
begin

section \<open>Shared mappings at fork: copywmap\<close>

text \<open>
  \<open>copywmap\<close> gives the child the pages that the parent has in its memory mappings. A page of a
  mapping is \<open>touched\<close> when the parent's directory has it; a mapping is \<open>regular\<close> when every
  page of it for which a page table exists has been touched.
\<close>

definition region :: "u32 \<Rightarrow> u32 \<Rightarrow> u32 \<Rightarrow> bool" where
  "region start vend va \<longleftrightarrow> start \<le> PGROUNDDOWN va \<and> PGROUNDDOWN va < vend"

definition touched :: "'z mm_scheme \<Rightarrow> u32 \<Rightarrow> u32 \<Rightarrow> bool" where
  "touched s p va \<longleftrightarrow> has (pte_val s p va) PTE_P"

definition regular :: "'z mm_scheme \<Rightarrow> u32 \<Rightarrow> u32 \<Rightarrow> u32 \<Rightarrow> bool" where
  "regular s p start vend \<longleftrightarrow> (\<forall>va. region start vend va \<and> present s p (unat (PDX va)) \<longrightarrow> touched s p va)"

text \<open>The directory \<open>d\<close> of the child from \<open>s\<close> to \<open>t\<close>: it gained the touched pages of the addresses in \<open>R\<close>.\<close>

definition gained :: "u32 \<Rightarrow> u32 \<Rightarrow> (u32 \<Rightarrow> bool) \<Rightarrow> kernel \<Rightarrow> kernel \<Rightarrow> bool" where
  "gained p d R s t \<longleftrightarrow>
     pte_val t d = (\<lambda>va. if R va \<and> touched s p va then pte_val s p va else pte_val s d va) \<and>
     pte_val t p = pte_val s p \<and> present t p = present s p \<and> mm.more t = mm.more s \<and>
     (\<forall>f. f \<notin> pt_frames t d \<longrightarrow> mem t f = mem s f)"

definition fork_room :: "u32 \<Rightarrow> u32 \<Rightarrow> kernel \<Rightarrow> bool" where
  "fork_room p d s \<longleftrightarrow> (\<exists>vs. pair_inv p d s vs \<and> room {..<1024} d s vs)"

lemma region_cong: "pfn va = pfn va' \<Longrightarrow> region a b va = region a b va'"
  by (simp add: region_def word_le_nat_alt word_less_nat_alt layout_simps pfn_def minus_mod_eq_div_mult)

lemma copy_entry: "has v PTE_P \<Longrightarrow> PTE_ADDR v OR PTE_FLAGS v OR PTE_P = v"
  by (simp add: or.assoc [symmetric] PTE_split or_P_absorb)

lemma pt_grow_frames_mono: "pt_grow d s vs t ws \<Longrightarrow> pt_frames s d \<subseteq> pt_frames t d"
  by (auto simp: pt_grow_def)

text \<open>One page that the parent has.\<close>

lemma copy_wmap_page:
  assumes r: "fork_room p d s" and tc: "touched s p va"
  obtains t where "map_single_page d va (PTE_ADDR (pte_val s p va)) (PTE_FLAGS (pte_val s p va)) s = Ret 0 t"
    "fork_room p d t" "gained p d (\<lambda>va'. pfn va' = pfn va) s t" "pt_frames s d \<subseteq> pt_frames t d"
proof -
  let ?v = "pte_val s p va"
  obtain vs where pi: "pair_inv p d s vs" and rm: "room {..<1024} d s vs" using r by (auto simp: fork_room_def)
  have inv: "pt_inv s p vs" "pt_inv s d vs" "pt_frames s p \<inter> pt_frames s d = {}" using pi by (simp_all add: pair_inv_def)
  have "present s d (unat (PDX va)) \<or> vs \<noteq> []"
  proof (rule ccontr)
    assume "\<not> ?thesis"
    then have n: "\<not> present s d (unat (PDX va))" "vs = []" by simp_all
    then have "tables s d = {..<1024}" using rm by (intro card_seteq) (auto simp: room_def)
    moreover have "unat va < 4294967296" using unsigned_less [of va] by simp
    then have "unat (PDX va) < 1024" by (simp add: unat_PDX less_mult_imp_div_less)
    ultimately have "unat (PDX va) \<in> tables s d" by (simp only: lessThan_iff)
    then show False using n(1) by (simp add: tables_def)
  qed
  from map_single_page_ok [OF inv(2) this, where pa = "PTE_ADDR ?v" and perm = "PTE_FLAGS ?v"] obtain t ws where
    t: "map_single_page d va (PTE_ADDR ?v) (PTE_FLAGS ?v) s = Ret 0 t" "pt_grow d s vs t ws"
      "pte_val t d = (\<lambda>va'. if pfn va' = pfn va then PTE_ADDR ?v OR PTE_FLAGS ?v OR PTE_P else pte_val s d va')" .
  note P = pt_other [OF t(2) inv(1,3)]
  have "pte_val t d = (\<lambda>va'. if pfn va' = pfn va \<and> touched s p va' then pte_val s p va' else pte_val s d va')"
  proof
    fix va'
    show "pte_val t d va' = (if pfn va' = pfn va \<and> touched s p va' then pte_val s p va' else pte_val s d va')"
    proof (cases "pfn va' = pfn va")
      case True
      note c = pte_val_cong_page [OF True, of s p]
      then show ?thesis using True tc copy_entry [OF tc [unfolded touched_def]] unfolding t(3) touched_def c by simp
    qed (simp add: t(3))
  qed
  moreover have "present t p = present s p"
  proof -
    have "mem t f = mem s f" if "f \<in> pt_frames s p" for f
      using that P(3,5) t(2) by (auto simp: pt_grow_def)
    then show ?thesis by (rule pt_mem_cong(1))
  qed
  ultimately have "gained p d (\<lambda>va'. pfn va' = pfn va) s t"
    using P(2) t(2) by (simp add: gained_def pt_grow_def)
  moreover have "room {..<1024} d t ws"
    using rm t(2) by (auto simp: room_def pt_grow_def tables_def)
  then have "fork_room p d t" using P pt_grow_inv [OF t(2)] by (auto simp: fork_room_def pair_inv_def)
  ultimately show thesis using t(1) pt_grow_frames_mono [OF t(2)] by (intro that)
qed

lemma gained_trans:
  assumes "gained p d R s t" "gained p d R' t u" "pt_frames t d \<subseteq> pt_frames u d"
  shows "gained p d (\<lambda>va. R va \<or> R' va) s u"
proof -
  have "touched t p = touched s p" using assms(1) by (simp add: gained_def touched_def fun_eq_iff)
  then have "pte_val u d = (\<lambda>va. if (R va \<or> R' va) \<and> touched s p va then pte_val s p va else pte_val s d va)"
    using assms(1,2) by (auto simp: gained_def fun_eq_iff)
  then show ?thesis using assms unfolding gained_def by (auto simp del: fun_eq_iff)
qed

lemma gained_none: "(\<And>va. R va \<Longrightarrow> \<not> touched s p va) \<Longrightarrow> gained p d R s s"
  by (auto simp: gained_def fun_eq_iff)

lemma gained_cong: "gained p d R s t \<Longrightarrow> (\<And>va. touched s p va \<Longrightarrow> R va = R' va) \<Longrightarrow> gained p d R' s t"
  unfolding gained_def by (auto simp: fun_eq_iff)

subsection \<open>One mapping\<close>

lemma region_step:
  assumes "pg_aligned va" "va < vend" "unat va + 4096 < 4294967296"
  shows "region va vend va' \<longleftrightarrow> pfn va' = pfn va \<or> region (va + PGSIZE) vend va'"
proof -
  have m: "unat va = 4096 * pfn va" using assms(1) by (auto simp: pg_aligned_def pfn_def)
  have m': "unat (PGROUNDDOWN va') = 4096 * pfn va'"
    by (simp add: layout_simps pfn_def minus_mod_eq_mult_div)
  show ?thesis
    using assms(2) unat_add_page [OF assms(3)] by (auto simp: region_def word_le_nat_alt word_less_nat_alt m m')
qed

lemma regular_step:
  assumes "pg_aligned va" "va < vend" "unat va + 4096 < 4294967296"
  shows "regular s p va vend \<longleftrightarrow> (present s p (unat (PDX va)) \<longrightarrow> touched s p va) \<and> regular s p (va + PGSIZE) vend"
proof -
  have "present s p (unat (PDX va')) = present s p (unat (PDX va))" "touched s p va' = touched s p va" if "pfn va' = pfn va" for va'
    using that by (simp_all add: PDX_pfn touched_def pte_val_cong_page [OF that])
  then have "(\<forall>va'. pfn va' = pfn va \<and> present s p (unat (PDX va')) \<longrightarrow> touched s p va') \<longleftrightarrow>
      (present s p (unat (PDX va)) \<longrightarrow> touched s p va)" by metis
  then show ?thesis unfolding regular_def region_step [OF assms] by blast
qed

lemma gained_same:
  assumes "gained p d R s t" "p = p_pgdir (myproc s)"
  shows "p = p_pgdir (myproc t)" "regular t p = regular s p" "touched t p = touched s p" "w_addr (p_wmap (myproc t)) = w_addr (p_wmap (myproc s))"
    "w_length (p_wmap (myproc t)) = w_length (p_wmap (myproc s))"
proof -
  have "mm.more t = mm.more s" using assms(1) by (simp add: gained_def)
  note K = kernel_more [OF this]
  show "p = p_pgdir (myproc t)" "w_addr (p_wmap (myproc t)) = w_addr (p_wmap (myproc s))"
    "w_length (p_wmap (myproc t)) = w_length (p_wmap (myproc s))" using assms(2) K by simp_all
  show "touched t p = touched s p" using assms(1) by (simp add: gained_def touched_def fun_eq_iff)
  then show "regular t p = regular s p" using assms(1) by (simp add: gained_def regular_def fun_eq_iff)
qed

lemma copywmap_pages_spec:
  assumes "fork_room p d s" "p = p_pgdir (myproc s)" "pg_aligned va" "unat vend + 4096 \<le> 4294967296"
  shows "if regular s p va vend
    then \<exists>t. copywmap_pages d va vend s = Ret True t \<and> fork_room p d t \<and> gained p d (region va vend) s t \<and>
      pt_frames s d \<subseteq> pt_frames t d
    else copywmap_pages d va vend s = Panic ''copywmap: page not present''"
  using assms
proof (induction "unat vend - unat va" arbitrary: va s rule: less_induct)
  case less
  show ?case
  proof (cases "va < vend")
    case False
    have nr: "\<not> region va vend va'" for va' using False by (auto simp: region_def)
    then have "gained p d (region va vend) s s" "regular s p va vend" by (auto intro: gained_none simp: regular_def)
    then show ?thesis using False less.prems(1) by (auto simp: copywmap_pages.simps [of d va])
  next
    case True
    have up: "unat va + 4096 < 4294967296" using True less.prems(4) by (simp add: word_less_nat_alt)
    note ua = unat_add_page [OF up] and rs = regular_step [OF less.prems(3) True up, of s p]
    have lt: "va < va + PGSIZE" using ua by (simp add: word_less_nat_alt)
    have dec: "unat vend - unat (va + PGSIZE) < unat vend - unat va" using True ua by (simp add: word_less_nat_alt)
    have "pg_aligned (va + PGSIZE)" using less.prems(3) by simp
    note IH = less.hyps [OF dec _ _ this less.prems(4)]
    let ?go = "copywmap_pages d (va + PGSIZE) vend"
    have R: "region va vend = (\<lambda>va'. pfn va' = pfn va \<or> region (va + PGSIZE) vend va')"
      using region_step [OF less.prems(3) True up] by auto
    consider (none) "\<not> present s p (unat (PDX va))" | (bad) "present s p (unat (PDX va))" "\<not> touched s p va"
      | (page) "touched s p va" "present s p (unat (PDX va))" by blast
    then show ?thesis
    proof cases
      case none
      then have eq: "copywmap_pages d va vend s = ?go s"
        using True lt by (simp add: copywmap_pages.simps [of d va] proc_walk_noalloc flip: less.prems(2))
      have "gained p d (region (va + PGSIZE) vend) s t = gained p d (region va vend) s t" for t
      proof -
        have "\<not> touched s p va'" if "pfn va' = pfn va" for va'
          using none that by (simp add: touched_def PDX_pfn not_present_pte_val)
        then show ?thesis unfolding R by (auto elim: gained_cong)
      qed
      then show ?thesis using IH [OF less.prems(1,2)] none rs eq by (simp split: if_splits)
    next
      case bad
      then have "copywmap_pages d va vend s = Panic ''copywmap: page not present''"
        using True rd_walk [OF bad(1)]
        by (simp add: copywmap_pages.simps [of d va] proc_walk_noalloc touched_def Let_def flip: less.prems(2))
      then show ?thesis using bad rs by simp
    next
      case page
      from copy_wmap_page [OF less.prems(1) page(1)] obtain t where
        t: "map_single_page d va (PTE_ADDR (pte_val s p va)) (PTE_FLAGS (pte_val s p va)) s = Ret 0 t"
          "fork_room p d t" "gained p d (\<lambda>va'. pfn va' = pfn va) s t" "pt_frames s d \<subseteq> pt_frames t d" .
      note G = gained_same [OF t(3) less.prems(2)]
      have eq: "copywmap_pages d va vend s = ?go t"
        using True lt page t(1) rd_walk [OF page(2)]
        by (simp add: copywmap_pages.simps [of d va] proc_walk_noalloc touched_def Let_def flip: less.prems(2))
      show ?thesis
      proof (cases "regular s p (va + PGSIZE) vend")
        case reg: True
        then obtain u where u: "?go t = Ret True u" "fork_room p d u" "gained p d (region (va + PGSIZE) vend) t u"
            "pt_frames t d \<subseteq> pt_frames u d"
          using IH [OF t(2) G(1)] unfolding G(2) by auto
        have "gained p d (region va vend) s u" unfolding R by (rule gained_trans [OF t(3) u(3,4)])
        then show ?thesis using eq u reg rs page t(4) by auto
      next
        case False
        then show ?thesis using IH [OF t(2) G(1)] unfolding G(2) using eq rs by simp
      qed
    qed
  qed
qed

subsection \<open>All mappings\<close>

definition mapping_ok :: "wmap_data \<Rightarrow> nat \<Rightarrow> bool" where
  "mapping_ok w i \<longleftrightarrow> w_addr w ! i > 0 \<longrightarrow>
     pg_aligned (w_addr w ! i) \<and> unat (w_addr w ! i) + unat (w_length w ! i) + 4096 \<le> 4294967296"

definition mapping_at :: "wmap_data \<Rightarrow> nat \<Rightarrow> u32 \<Rightarrow> bool" where
  "mapping_at w i va \<longleftrightarrow> w_addr w ! i > 0 \<and> region (w_addr w ! i) (w_addr w ! i + w_length w ! i) va"

definition all_regular :: "wmap_data \<Rightarrow> nat list \<Rightarrow> u32 \<Rightarrow> kernel \<Rightarrow> bool" where
  "all_regular w is p s \<longleftrightarrow> (\<forall>i \<in> set is. w_addr w ! i > 0 \<longrightarrow> regular s p (w_addr w ! i) (w_addr w ! i + w_length w ! i))"

lemma copywmap_loop_spec:
  assumes "fork_room p d s" "p = p_pgdir (myproc s)" "\<forall>i \<in> set is. mapping_ok w i"
    "w_addr w = w_addr (p_wmap (myproc s))" "w_length w = w_length (p_wmap (myproc s))"
  shows "if all_regular w is p s
    then \<exists>t. copywmap_loop d is s = Ret d t \<and> fork_room p d t \<and> gained p d (\<lambda>va. \<exists>i \<in> set is. mapping_at w i va) s t \<and>
      pt_frames s d \<subseteq> pt_frames t d
    else copywmap_loop d is s = Panic ''copywmap: page not present''"
  using assms
proof (induction "is" arbitrary: s)
  case Nil
  then show ?case by (auto simp: all_regular_def intro: gained_none)
next
  case (Cons i "is")
  let ?a = "w_addr w ! i" and ?l = "w_length w ! i" and ?R = "\<lambda>is va. \<exists>i \<in> set is. mapping_at w i va"
  show ?case
  proof (cases "?a > 0")
    case False
    then have "?R (i # is) = ?R is" by (auto simp: mapping_at_def fun_eq_iff)
    then show ?thesis using Cons.IH [OF Cons.prems(1,2) _ Cons.prems(4,5)] Cons.prems(3,4) False
      by (simp add: all_regular_def)
  next
    case True
    have ok: "pg_aligned ?a" "unat ?a + unat ?l + 4096 \<le> 4294967296" using Cons.prems(3) True by (simp_all add: mapping_ok_def)
    then have "unat (?a + ?l) = unat ?a + unat ?l" by (simp add: unat_word_ariths)
    then have e: "unat (?a + ?l) + 4096 \<le> 4294967296" using ok by simp
    note P = copywmap_pages_spec [OF Cons.prems(1,2) ok(1) e]
    have lp: "copywmap_loop d (i # is) s = bindr (copywmap_pages d ?a (?a + ?l) s) (\<lambda>ok s1.
        if ok then copywmap_loop d is s1 else Ret 0 s1)" using True Cons.prems(4,5) by (simp add: Let_def)
    show ?thesis
    proof (cases "regular s p ?a (?a + ?l)")
      case False
      then have "copywmap_loop d (i # is) s = Panic ''copywmap: page not present''" unfolding lp using P by simp
      then show ?thesis using False True by (auto simp: all_regular_def)
    next
      case reg: True
      then obtain t where t: "copywmap_pages d ?a (?a + ?l) s = Ret True t" "fork_room p d t"
          "gained p d (region ?a (?a + ?l)) s t" "pt_frames s d \<subseteq> pt_frames t d" using P by auto
      note G = gained_same [OF t(3) Cons.prems(2)]
      have ar: "all_regular w (i # is) p s = all_regular w is p t" using reg by (simp add: all_regular_def G(2))
      have IH: "if all_regular w is p t
        then \<exists>u. copywmap_loop d is t = Ret d u \<and> fork_room p d u \<and> gained p d (?R is) t u \<and> pt_frames t d \<subseteq> pt_frames u d
        else copywmap_loop d is t = Panic ''copywmap: page not present''"
        using Cons.prems(3-5) by (intro Cons.IH [OF t(2) G(1)]) (simp_all add: G)
      have "?R (i # is) = (\<lambda>va. region ?a (?a + ?l) va \<or> ?R is va)" using True by (auto simp: mapping_at_def fun_eq_iff)
      note R = this
      show ?thesis
      proof (cases "all_regular w is p t")
        case ok: True
        then obtain u where u: "copywmap_loop d is t = Ret d u" "fork_room p d u" "gained p d (?R is) t u"
            "pt_frames t d \<subseteq> pt_frames u d" using IH by auto
        have "gained p d (?R (i # is)) s u" unfolding R by (rule gained_trans [OF t(3) u(3,4)])
        moreover have "copywmap_loop d (i # is) s = Ret d u" unfolding lp by (simp add: t(1) u(1))
        ultimately show ?thesis using ok ar u(2,4) t(4) by auto
      next
        case False
        then show ?thesis unfolding lp ar using IH t(1) by simp
      qed
    qed
  qed
qed

text \<open>
  (C6) \<open>copywmap\<close> shares the mappings. If no mapping is partly touched within a page table and
  there are enough free pages, it succeeds; afterwards the child's directory has, for every
  address of a mapping that the parent has touched, the very entry of the parent (the same
  frame with the same permissions, so each sees the stores of the other), and is unchanged
  elsewhere; the parent's directory and all memory outside the child's tables are unchanged.
\<close>

theorem copywmap_shares:
  assumes "pair_inv p d s vs" "room {..<1024} d s vs" "p = p_pgdir (myproc s)" "w = p_wmap (myproc s)"
    "\<forall>i < MAX_WMMAP_INFO. mapping_ok w i"
    "\<forall>i < MAX_WMMAP_INFO. \<forall>va. mapping_at w i va \<and> present s p (unat (PDX va)) \<longrightarrow> has (pte_val s p va) PTE_P"
  shows "\<exists>t. copywmap d s = Ret d t \<and>
    pte_val t d = (\<lambda>va. if (\<exists>i < MAX_WMMAP_INFO. mapping_at w i va) \<and> has (pte_val s p va) PTE_P
                         then pte_val s p va else pte_val s d va) \<and>
    pte_val t p = pte_val s p \<and> (\<forall>f. f \<notin> pt_frames t d \<longrightarrow> mem t f = mem s f)"
proof -
  have f: "fork_room p d s" using assms(1,2) by (auto simp: fork_room_def)
  have r: "all_regular w [0..<MAX_WMMAP_INFO] p s"
    using assms(6) unfolding all_regular_def regular_def mapping_at_def touched_def set_upt by auto
  have "\<forall>i \<in> set [0..<MAX_WMMAP_INFO]. mapping_ok w i" using assms(5) unfolding set_upt by simp
  note L = copywmap_loop_spec [OF f assms(3) this, unfolded assms(4), OF refl refl, folded assms(4), folded copywmap_def]
  then obtain t where t: "copywmap d s = Ret d t" "gained p d (\<lambda>va. \<exists>i \<in> set [0..<MAX_WMMAP_INFO]. mapping_at w i va) s t"
    using r by auto
  then show ?thesis unfolding gained_def touched_def set_upt by (intro exI [of _ t]) (simp add: Bex_def)
qed

text \<open>
  (C35) \<open>copywmap\<close> fails on a partly touched mapping: if some page of a mapping has a page table in
  the parent's directory but was never touched, \<open>copywmap\<close> panics, so the process cannot fork.
\<close>

theorem copywmap_panics:
  assumes "pair_inv p d s vs" "room {..<1024} d s vs" "p = p_pgdir (myproc s)" "w = p_wmap (myproc s)"
    "\<forall>i < MAX_WMMAP_INFO. mapping_ok w i" "i < MAX_WMMAP_INFO" "mapping_at w i va" "present s p (unat (PDX va))"
    "\<not> has (pte_val s p va) PTE_P"
  shows "copywmap d s = Panic ''copywmap: page not present''"
proof -
  have f: "fork_room p d s" using assms(1,2) by (auto simp: fork_room_def)
  have i: "i \<in> set [0..<MAX_WMMAP_INFO]" using assms(6) unfolding set_upt by simp
  have r: "\<not> all_regular w [0..<MAX_WMMAP_INFO] p s"
    using assms(7-9) i unfolding all_regular_def regular_def mapping_at_def touched_def by blast
  have "\<forall>i \<in> set [0..<MAX_WMMAP_INFO]. mapping_ok w i" using assms(5) unfolding set_upt by simp
  note L = copywmap_loop_spec [OF f assms(3) this, unfolded assms(4), OF refl refl, folded assms(4), folded copywmap_def]
  then show ?thesis using r by simp
qed

text \<open>
  A process with a mapping of two pages at \<open>0x60000000\<close>, the first one touched; the second one has
  the page table entry \<open>e\<close>. The new directory at \<open>0x80112000\<close> is empty.
\<close>

definition demo_mapped :: "u32 \<Rightarrow> kernel" where
  "demo_mapped e = demo_kernel\<lparr>
     mem := (\<lambda>f i. if f = 0x110 \<and> i = 0x180 then 0x111007 else if f = 0x111 \<and> i = 0 then 0x300007
       else if f = 0x111 \<and> i = 1 then e
       else if 0x400 \<le> f \<and> f < 0x84B \<and> i = 0 then 0x80001000 + of_nat (4096 * f) else 0),
     ptable := [demo_proc\<lparr>p_wmap := demo_wmap\<lparr>w_total := 1, w_addr := 0x60000000 # replicate 15 0,
       w_length := 0x2000 # replicate 15 0\<rparr>\<rparr>]\<rparr>"

lemma demo_mapped_simps:
  "kfn 0x80110000 = 0x110" "kfn 0x80112000 = 0x112" "present (demo_mapped e) 0x80110000 i \<longleftrightarrow> i = 0x180"
  "\<not> present (demo_mapped e) 0x80112000 i" "tab_frame (demo_mapped e) 0x80110000 0x180 = 0x111"
  "p_pgdir (myproc (demo_mapped e)) = 0x80110000"
  "w_addr (p_wmap (myproc (demo_mapped e))) = 0x60000000 # replicate 15 0"
  "w_length (p_wmap (myproc (demo_mapped e))) = 0x2000 # replicate 15 0"
proof -
  show f: "kfn 0x80110000 = 0x110" "kfn 0x80112000 = 0x112" by (simp_all add: kfn_def pfn_def V2P_def)
  show "present (demo_mapped e) 0x80110000 i \<longleftrightarrow> i = 0x180" "\<not> present (demo_mapped e) 0x80112000 i"
    "tab_frame (demo_mapped e) 0x80110000 0x180 = 0x111"
    by (auto simp: present_def tab_frame_def f demo_mapped_def has_def PTE_ADDR_def pfn_def)
  show "p_pgdir (myproc (demo_mapped e)) = 0x80110000"
    "w_addr (p_wmap (myproc (demo_mapped e))) = 0x60000000 # replicate 15 0"
    "w_length (p_wmap (myproc (demo_mapped e))) = 0x2000 # replicate 15 0"
    by (simp_all add: demo_mapped_def demo_kernel_def myproc_def procat_def demo_proc_def demo_wmap_def)
qed

lemma demo_mapped_pair:
  "pair_inv 0x80110000 0x80112000 (demo_mapped e) (demo_free 0 1100)" "room {..<1024} 0x80112000 (demo_mapped e) (demo_free 0 1100)"
proof -
  let ?s = "demo_mapped e"
  note S = demo_mapped_simps
  have F: "free_pages ?s (demo_free 0 1100)"
    by (rule demo_free_pages) (auto simp: demo_mapped_def demo_kernel_def algebra_simps)
  have ke: "k_end ?s = 0x80110000" by (simp add: demo_mapped_def demo_kernel_def)
  have fr: "pt_frames ?s 0x80110000 = {0x110, 0x111}" "pt_frames ?s 0x80112000 = {0x112}"
  proof -
    have "{i. i < 1024 \<and> present ?s 0x80110000 i} = {0x180}" by (auto simp: S(3))
    then show "pt_frames ?s 0x80110000 = {0x110, 0x111}" by (simp add: pt_frames_def S(1,5))
    show "pt_frames ?s 0x80112000 = {0x112}" by (simp add: pt_frames_def S(2,4))
  qed
  have "pt_wf ?s 0x80110000" "pt_wf ?s 0x80112000" by (auto simp: pt_wf_def S(1-4) inj_on_def) (simp add: S(5))
  moreover have "PTE_ADDR (mem ?s 0x110 0x180) = 0x111000" by (simp add: demo_mapped_def PTE_ADDR_def)
  then have "pt_heap ?s 0x80110000" "pt_heap ?s 0x80112000"
    by (auto simp: pt_heap_def S(1-4) heap_page_def pg_aligned_def ke P2V_def)
  ultimately show "pair_inv 0x80110000 0x80112000 ?s (demo_free 0 1100)"
    using F by (auto simp: pair_inv_def pt_inv_def fr demo_free_frames)
  have "length (demo_free 0 1100) = 1100" by (simp add: demo_free_def del: upt_rec_numeral)
  then show "room {..<1024} 0x80112000 ?s (demo_free 0 1100)" by (auto simp: room_def tables_def S)
qed

lemma demo_mapped_at:
  "\<forall>i < MAX_WMMAP_INFO. mapping_ok (p_wmap (myproc (demo_mapped e))) i"
  "mapping_at (p_wmap (myproc (demo_mapped e))) i va \<Longrightarrow> i < 16 \<Longrightarrow> i = 0 \<and> (pfn va = 0x60000 \<or> pfn va = 0x60001)"
  "pfn va = 0x60000 \<or> pfn va = 0x60001 \<Longrightarrow> mapping_at (p_wmap (myproc (demo_mapped e))) 0 va"
proof -
  note S = demo_mapped_simps(7,8) [of e]
  have r: "region 0x60000000 0x60002000 va \<longleftrightarrow> pfn va = 0x60000 \<or> pfn va = 0x60001"
  proof -
    have "unat (PGROUNDDOWN va) = 4096 * pfn va" by (simp add: layout_simps pfn_def minus_mod_eq_mult_div)
    then show ?thesis by (auto simp: region_def word_le_nat_alt word_less_nat_alt)
  qed
  show "\<forall>i < MAX_WMMAP_INFO. mapping_ok (p_wmap (myproc (demo_mapped e))) i"
    by (auto simp: mapping_ok_def S nth_Cons' pg_aligned_def)
  show "mapping_at (p_wmap (myproc (demo_mapped e))) i va \<Longrightarrow> i < 16 \<Longrightarrow> i = 0 \<and> (pfn va = 0x60000 \<or> pfn va = 0x60001)"
    using r by (auto simp: mapping_at_def S nth_Cons' split: if_splits)
  show "pfn va = 0x60000 \<or> pfn va = 0x60001 \<Longrightarrow> mapping_at (p_wmap (myproc (demo_mapped e))) 0 va"
    using r by (simp add: mapping_at_def S)
qed

lemma demo_mapped_pte:
  "pfn va = 0x60000 \<Longrightarrow> pte_val (demo_mapped e) 0x80110000 va = 0x300007"
  "pfn va = 0x60001 \<Longrightarrow> pte_val (demo_mapped e) 0x80110000 va = e"
proof -
  have "unat (PTX va) = pfn va mod 1024" by (simp add: unat_PTX pfn_def)
  then show "pfn va = 0x60000 \<Longrightarrow> pte_val (demo_mapped e) 0x80110000 va = 0x300007"
    "pfn va = 0x60001 \<Longrightarrow> pte_val (demo_mapped e) 0x80110000 va = e"
    by (simp_all add: pte_val_alt demo_mapped_simps PDX_pfn) (simp_all add: demo_mapped_def)
qed

theorem copywmap_shares_witness:
  "\<exists>t. copywmap 0x80112000 (demo_mapped 0x301007) = Ret 0x80112000 t \<and> pte_val t 0x80112000 0x60000010 = 0x300007 \<and>
     pte_val t 0x80112000 0x60001010 = 0x301007 \<and> pte_val t 0x80112000 0x60002010 = 0"
proof -
  let ?s = "demo_mapped 0x301007"
  have e: "has (pte_val ?s 0x80110000 va) PTE_P" if "mapping_at (p_wmap (myproc ?s)) i va" "i < MAX_WMMAP_INFO" for i va
  proof -
    have "pfn va = 0x60000 \<or> pfn va = 0x60001" using demo_mapped_at(2) that by simp
    then show ?thesis using demo_mapped_pte [of va "0x301007"] by (auto simp: has_def)
  qed
  then have r: "\<forall>i < MAX_WMMAP_INFO. \<forall>va. mapping_at (p_wmap (myproc ?s)) i va \<and> present ?s 0x80110000 (unat (PDX va)) \<longrightarrow>
      has (pte_val ?s 0x80110000 va) PTE_P" by blast
  from copywmap_shares [OF demo_mapped_pair demo_mapped_simps(6) [symmetric] refl demo_mapped_at(1) r] obtain t where
    t: "copywmap 0x80112000 ?s = Ret 0x80112000 t"
      "pte_val t 0x80112000 = (\<lambda>va. if (\<exists>i < MAX_WMMAP_INFO. mapping_at (p_wmap (myproc ?s)) i va) \<and> has (pte_val ?s 0x80110000 va) PTE_P
         then pte_val ?s 0x80110000 va else pte_val ?s 0x80112000 va)"
    by (elim exE conjE) (rule that)
  have p: "pfn 0x60000010 = 0x60000" "pfn 0x60001010 = 0x60001" "pfn 0x60002010 = 0x60002" by (simp_all add: pfn_def)
  have m: "\<exists>i < MAX_WMMAP_INFO. mapping_at (p_wmap (myproc ?s)) i 0x60000010" "\<exists>i < MAX_WMMAP_INFO. mapping_at (p_wmap (myproc ?s)) i 0x60001010"
    "\<not> (\<exists>i < MAX_WMMAP_INFO. mapping_at (p_wmap (myproc ?s)) i 0x60002010)"
    using demo_mapped_at(2) [of "0x301007" _ "0x60002010"] demo_mapped_at(3) [of _ "0x301007"] p by (auto intro!: exI [of _ 0])
  have z: "pte_val ?s 0x80112000 va = 0" for va by (simp add: pte_val_alt demo_mapped_simps)
  have h: "has (0x300007 :: u32) PTE_P" "has (0x301007 :: u32) PTE_P" by (simp_all add: has_def)
  show ?thesis using t m h p z demo_mapped_pte [of _ "0x301007"] by (intro exI [of _ t]) (simp, blast)
qed

theorem copywmap_panics_witness:
  "copywmap 0x80112000 (demo_mapped 0) = Panic ''copywmap: page not present''"
proof (rule copywmap_panics [OF demo_mapped_pair [of 0] demo_mapped_simps(6) [of 0, symmetric] refl demo_mapped_at(1) [of 0],
      where i = 0 and va = "0x60001000"])
  have p: "pfn 0x60001000 = 0x60001" by (simp add: pfn_def)
  show "mapping_at (p_wmap (myproc (demo_mapped 0))) 0 0x60001000" using demo_mapped_at(3) p by simp
  show "present (demo_mapped 0) 0x80110000 (unat (PDX 0x60001000))" by (simp add: demo_mapped_simps PDX_pfn p)
  show "\<not> has (pte_val (demo_mapped 0) 0x80110000 0x60001000) PTE_P" using demo_mapped_pte(2) [OF p] by simp
qed simp

end
