(* ===== verification/Faults.thy ===== *)
theory Faults
  imports Pids
begin

section \<open>Where the kernel treats a fault of a process badly\<close>

text \<open>
  Two behaviours of the process and trap code that differ from what its comments and the
  project description ask for: a page fault outside every mapping, and \<open>kill\<close> of pid 0.
\<close>

text \<open>
  (C36) A program that touches an address below the mapping area for which it has no page stops
  the kernel: the page fault is taken for a copy-on-write fault, and \<open>do_copy_on_write\<close> panics
  instead of reporting a segmentation fault.
\<close>

theorem unmapped_access_panics:
  assumes "tf_trapno tf = 14" "cr2 < VA_START" "\<not> has (pte_val s (p_pgdir (myproc s)) cr2) PTE_P"
  shows "trap callerpcs cpu keys tf cr2 s =
    Panic (if present s (p_pgdir (myproc s)) (unat (PDX cr2)) then ''copyonwrite: page not present''
           else ''copyonwrite: pte should exist'')"
  using assms rd_walk [of s "p_pgdir (myproc s)" cr2]
  by (auto simp: trap_def trap_pgflt_def page_fault_def do_copy_on_write_def proc_walk_noalloc Let_def)

theorem unmapped_access_panics_witness:
  "trap (\<lambda>_. []) 0 [] (demo_tf\<lparr>tf_trapno := 14\<rparr>) 0x5000 demo_kernel = Panic ''copyonwrite: page not present''"
proof -
  have u: "unat (PDX 0x5000) = 0" "unat (PTX 0x5000) = 5" by (simp_all add: unat_PDX unat_PTX)
  have "pte_val demo_kernel 0x80110000 0x5000 = 0"
    by (simp add: pte_val_alt u demo_present demo_simps demo_mem_def)
  then have "trap (\<lambda>_. []) 0 [] (demo_tf\<lparr>tf_trapno := 14\<rparr>) 0x5000 demo_kernel =
    Panic (if present demo_kernel (p_pgdir (myproc demo_kernel)) (unat (PDX 0x5000)) then ''copyonwrite: page not present''
           else ''copyonwrite: pte should exist'')"
    by (intro unmapped_access_panics) (simp_all add: demo_simps)
  then show ?thesis by (simp add: demo_simps u demo_present)
qed



end
