(* ===== verification/Fs_Dir.thy ===== *)
theory Fs_Dir
  imports Dir Fs_Op
begin

section \<open>A directory as a map from names to inode numbers\<close>

text \<open>
  The entries of a directory file are read off its bytes. \<open>dirlookup\<close> computes the map \<open>dir_map\<close>
  and \<open>dirlink\<close> extends it, in a free entry or at the end of the directory.
\<close>

definition valid_name :: "u8 list \<Rightarrow> bool" where
  "valid_name name \<longleftrightarrow> length name \<le> DIRSIZ \<and> 0 \<notin> set name"

definition dirent :: "fsys \<Rightarrow> nat \<Rightarrow> nat \<Rightarrow> u8 list" where
  "dirent s dp k = map (fbyte s dp) [DIRENT * k..<DIRENT * k + DIRENT]"

definition nents :: "fsys \<Rightarrow> nat \<Rightarrow> nat" where
  "nents s dp = unat (di_size (i_d (iat dp s))) div DIRENT"

definition entry_name :: "u8 list \<Rightarrow> u8 list" where
  "entry_name de = takeWhile (\<lambda>c. c \<noteq> 0) (de_name de)"

definition hit :: "fsys \<Rightarrow> nat \<Rightarrow> u8 list \<Rightarrow> nat \<Rightarrow> bool" where
  "hit s dp name k \<longleftrightarrow> de_inum (dirent s dp k) \<noteq> 0 \<and> entry_name (dirent s dp k) = name"

definition dir_index :: "fsys \<Rightarrow> nat \<Rightarrow> u8 list \<Rightarrow> nat option" where
  "dir_index s dp name = find (hit s dp name) [0..<nents s dp]"

definition dir_map :: "fsys \<Rightarrow> nat \<Rightarrow> u8 list \<Rightarrow> u16 option" where
  "dir_map s dp name = map_option (\<lambda>k. de_inum (dirent s dp k)) (dir_index s dp name)"

text \<open>The entry that \<open>dirlink\<close> writes: the first free one, or the one behind the last.\<close>

definition free_slot :: "fsys \<Rightarrow> nat \<Rightarrow> nat" where
  "free_slot s dp = (case find (\<lambda>k. de_inum (dirent s dp k) = 0) [0..<nents s dp] of None \<Rightarrow> nents s dp | Some k \<Rightarrow> k)"

definition dir_at :: "fsys \<Rightarrow> nat \<Rightarrow> nat \<Rightarrow> bool" where
  "dir_at s dp N \<longleftrightarrow> fmapped s dp N \<and> di_type (i_d (iat dp s)) = T_DIR \<and>
     DIRENT dvd unat (di_size (i_d (iat dp s))) \<and> unat (di_size (i_d (iat dp s))) \<le> BSIZE * N"

lemma cstr_takeWhile: "is_cstr (cstring_of xs) (takeWhile (\<lambda>c. c \<noteq> 0) xs)"
proof (induction xs)
  case (Cons x xs)
  have "(\<lambda>i. cstring_of (x # xs) (Suc i)) = cstring_of xs" by (auto simp: cstring_of_def)
  then show ?case using Cons by (simp add: cstring_of_def)
qed (simp add: cstring_of_def)

lemma unat_small: "n \<le> 71680 \<Longrightarrow> unat (of_nat n :: u32) = n"
  by (simp add: unat_of_nat)

lemma namecmp_entry:
  assumes "valid_name name" shows "namecmp name (de_name de) = 0 \<longleftrightarrow> entry_name de = name"
proof -
  let ?z = "\<lambda>c :: u8. c \<noteq> 0"
  have n: "takeWhile ?z name = name" using assms by (auto simp: valid_name_def takeWhile_eq_all_conv)
  have l: "length (entry_name de) \<le> DIRSIZ"
    using length_takeWhile_le [of ?z "de_name de"] by (simp add: entry_name_def de_name_def)
  have "namecmp name (de_name de) = 0 \<longleftrightarrow> take DIRSIZ name = take DIRSIZ (entry_name de)"
    unfolding namecmp_def entry_name_def
    using strncmp_cstr [OF cstr_takeWhile cstr_takeWhile, of name "de_name de"] by (simp add: n)
  then show ?thesis using l assms by (auto simp: valid_name_def)
qed

subsection \<open>Looking up\<close>

lemma size_ents:
  assumes "dir_at s dp N"
  shows "unat (di_size (i_d (iat dp s))) = DIRENT * nents s dp"
    "dirent_offsets (di_size (i_d (iat dp s))) = map (\<lambda>k. of_nat (DIRENT * k)) [0..<nents s dp]"
    "DIRENT * nents s dp \<le> 71680"
proof -
  show z: "unat (di_size (i_d (iat dp s))) = DIRENT * nents s dp" using assms by (simp add: dir_at_def nents_def)
  have "(DIRENT * n + 15) div DIRENT = n" for n :: nat by simp
  then show "dirent_offsets (di_size (i_d (iat dp s))) = map (\<lambda>k. of_nat (DIRENT * k)) [0..<nents s dp]"
    by (simp add: dirent_offsets_def z)
  have "BSIZE * N \<le> 71680" using assms by (simp add: dir_at_def fmapped_def)
  then show "DIRENT * nents s dp \<le> 71680" using assms z by (simp add: dir_at_def)
qed

lemma dir_cong:
  assumes "fs_core t = fs_core s" "view t = view s"
  shows "dirent t = dirent s" "nents t = nents s" "hit t = hit s" "dir_index t = dir_index s" "dir_map t = dir_map s"
    "dir_at t dp N = dir_at s dp N"
proof -
  note C = fmapped_cong [OF assms] and i = fs_core_fields(11) [OF assms(1)]
  show d: "dirent t = dirent s" by (simp add: dirent_def C fun_eq_iff)
  show n: "nents t = nents s" by (simp add: nents_def i fun_eq_iff)
  show h: "hit t = hit s" by (simp add: hit_def d fun_eq_iff)
  show x: "dir_index t = dir_index s" by (simp add: dir_index_def h n fun_eq_iff)
  show "dir_map t = dir_map s" by (simp add: dir_map_def x d fun_eq_iff)
  show "dir_at t dp N = dir_at s dp N" by (simp add: dir_at_def C i)
qed

lemma read_entry:
  assumes tx: "tx {} l s" and d: "dir_at s dp N" and k: "k < nents s dp"
  obtains t where "readi dp (of_nat (DIRENT * k)) 16 s = Ret (16, dirent s dp k) t" "tx {} l t"
    "view t = view s" "fs_core t = fs_core s"
proof -
  note Z = size_ents [OF d]
  have m: "fmapped s dp N" and sz: "unat (di_size (i_d (iat dp s))) \<le> BSIZE * N" and ty: "di_type (i_d (iat dp s)) \<noteq> T_DEV"
    using d by (simp_all add: dir_at_def)
  have "DIRENT * k + DIRENT \<le> DIRENT * nents s dp" using k by simp
  then have b: "DIRENT * k + DIRENT \<le> 71680" "DIRENT * k + DIRENT \<le> unat (di_size (i_d (iat dp s)))" using Z by simp_all
  have u: "unat (of_nat (DIRENT * k) :: u32) = DIRENT * k" using b(1) by (intro unat_small) simp
  have off: "of_nat (DIRENT * k) \<le> di_size (i_d (iat dp s))" using b(2) u by (simp add: word_le_nat_alt)
  have nw: "unat (of_nat (DIRENT * k) :: u32) + unat (16 :: u32) < 4294967296" using b(1) u by simp
  have mn: "min (unat (16 :: u32)) (unat (di_size (i_d (iat dp s))) - DIRENT * k) = 16" using b(2) by simp
  from readi_ok [OF tx m ty sz off nw, unfolded u mn] obtain t where
    t: "readi dp (of_nat (DIRENT * k)) 16 s = Ret (int 16, map (fbyte s dp) [DIRENT * k..<DIRENT * k + DIRENT]) t" "tx {} l t"
    "view t = view s" "fs_core t = fs_core s" .
  show thesis by (rule that [OF _ t(2-4)]) (use t(1) in \<open>simp add: dirent_def\<close>)
qed

lemma dirlookup_loop_ok:
  assumes "tx {} l s" "dir_at s dp N" "valid_name name" "set ks \<subseteq> {..<nents s dp}"
  obtains t where "dirlookup_loop dp name (map (\<lambda>k. of_nat (DIRENT * k)) ks) s =
      (case find (hit s dp name) ks of None \<Rightarrow> Ret None t
       | Some k \<Rightarrow> bindr (iget 1 (ucast (de_inum (dirent s dp k))) t) (\<lambda>ip u. Ret (Some (ip, of_nat (DIRENT * k))) u))"
    "tx {} l t" "view t = view s" "fs_core t = fs_core s"
  using assms
proof (induction ks arbitrary: s thesis)
  case Nil
  show ?case by (rule Nil(1) [of s]) (use Nil in simp_all)
next
  case (Cons k ks)
  have k: "k < nents s dp" and ks: "set ks \<subseteq> {..<nents s dp}" using Cons.prems(5) by auto
  from read_entry [OF Cons.prems(2,3) k] obtain s1 where r: "readi dp (of_nat (DIRENT * k)) 16 s = Ret (16, dirent s dp k) s1"
    "tx {} l s1" "view s1 = view s" "fs_core s1 = fs_core s" .
  note C = dir_cong [OF r(4,3)]
  have dev: "i_dev (iat dp s1) = 1"
    using Cons.prems(3) fs_core_fields(11) [OF r(4)] by (simp add: dir_at_def fmapped_def)
  show ?case
  proof (cases "hit s dp name k")
    case True
    then show ?thesis using r dev namecmp_entry [OF Cons.prems(4)] by (intro Cons.prems(1) [of s1]) (simp_all add: hit_def Let_def)
  next
    case False
    have d1: "dir_at s1 dp N" "set ks \<subseteq> {..<nents s1 dp}" using Cons.prems(3) ks C by simp_all
    obtain t where "dirlookup_loop dp name (map (\<lambda>k. of_nat (DIRENT * k)) ks) s1 =
        (case find (hit s1 dp name) ks of None \<Rightarrow> Ret None t
         | Some k \<Rightarrow> bindr (iget 1 (ucast (de_inum (dirent s1 dp k))) t) (\<lambda>ip u. Ret (Some (ip, of_nat (DIRENT * k))) u))"
      "tx {} l t" "view t = view s1" "fs_core t = fs_core s1" by (rule Cons.IH [OF _ r(2) d1(1) Cons.prems(4) d1(2)])
    note t = this [unfolded C(1,3) r(3,4)]
    have e: "dirlookup_loop dp name (map (\<lambda>k. of_nat (DIRENT * k)) (k # ks)) s =
        dirlookup_loop dp name (map (\<lambda>k. of_nat (DIRENT * k)) ks) s1"
      using False r(1) namecmp_entry [OF Cons.prems(4), of "dirent s dp k"] by (auto simp: hit_def Let_def)
    show ?thesis by (rule Cons.prems(1) [OF _ t(2-4)]) (use False in \<open>simp only: e t(1) find.simps if_False\<close>)
  qed
qed

lemma iget_ok:
  assumes "length (icache s) = NINODE" "i < NINODE" "i_ref (iat i s) = 0"
  obtains j ip where "iget dev inum s = Ret j (set_inode j ip s)" "j < NINODE" "i_dev ip = dev" "i_inum ip = inum"
proof (cases "find (\<lambda>i. i_ref (iat i s) > 0 \<and> i_dev (iat i s) = dev \<and> i_inum (iat i s) = inum) [0..<NINODE]")
  case (Some j)
  then have "j < NINODE" "i_dev (iat j s) = dev" "i_inum (iat j s) = inum" by (auto simp: find_Some_iff)
  then show thesis using Some
    by (intro that [of j "(iat j s)\<lparr>i_ref := i_ref (iat j s) + 1\<rparr>"]) (simp_all add: iget_def)
next
  case None
  have "find (\<lambda>i. i_ref (iat i s) = 0) [0..<NINODE] \<noteq> None"
    unfolding find_None_iff set_upt using assms(2,3) by auto
  then obtain j where j: "find (\<lambda>i. i_ref (iat i s) = 0) [0..<NINODE] = Some j" by blast
  then have "j < NINODE" by (auto simp: find_Some_iff)
  then show thesis using None j
    by (intro that [of j "(iat j s)\<lparr>i_dev := dev, i_inum := inum, i_ref := 1, i_valid := False\<rparr>"]) (simp_all add: iget_def)
qed

lemma set_inode_view [simp]: "view (set_inode i ip s) = view s" "disk (set_inode i ip s) = disk s"
  using cache_cong(1) [of "set_inode i ip s" s] by (simp_all add: set_inode_def)

subsection \<open>Writing an entry\<close>

lemma dirlink_slot_ok:
  assumes "tx {} l s" "dir_at s dp N" "set ks \<subseteq> {..<nents s dp}"
  obtains t where "dirlink_slot dp (map (\<lambda>k. of_nat (DIRENT * k)) ks) s =
      Ret (of_nat (DIRENT * (case find (\<lambda>k. de_inum (dirent s dp k) = 0) ks of None \<Rightarrow> nents s dp | Some k \<Rightarrow> k))) t"
    "tx {} l t" "view t = view s" "fs_core t = fs_core s"
  using assms
proof (induction ks arbitrary: s thesis)
  case Nil
  have "(unat (di_size (i_d (iat dp s))) + 15) div DIRENT = nents s dp" using size_ents(1) [OF Nil(3)] by simp
  then show ?case by (intro Nil(1) [of s]) (use Nil in simp_all)
next
  case (Cons k ks)
  have k: "k < nents s dp" and ks: "set ks \<subseteq> {..<nents s dp}" using Cons.prems(4) by auto
  from read_entry [OF Cons.prems(2,3) k] obtain s1 where r: "readi dp (of_nat (DIRENT * k)) 16 s = Ret (16, dirent s dp k) s1"
    "tx {} l s1" "view s1 = view s" "fs_core s1 = fs_core s" .
  note C = dir_cong [OF r(4,3)]
  show ?case
  proof (cases "de_inum (dirent s dp k) = 0")
    case True
    then show ?thesis using r by (intro Cons.prems(1) [of s1]) simp_all
  next
    case False
    have d1: "dir_at s1 dp N" "set ks \<subseteq> {..<nents s1 dp}" using Cons.prems(3) ks C by simp_all
    obtain t where "dirlink_slot dp (map (\<lambda>k. of_nat (DIRENT * k)) ks) s1 =
      Ret (of_nat (DIRENT * (case find (\<lambda>k. de_inum (dirent s1 dp k) = 0) ks of None \<Rightarrow> nents s1 dp | Some k \<Rightarrow> k))) t"
      "tx {} l t" "view t = view s1" "fs_core t = fs_core s1" by (rule Cons.IH [OF _ r(2) d1])
    note t = this [unfolded C(1,2) r(3,4)]
    have e: "dirlink_slot dp (map (\<lambda>k. of_nat (DIRENT * k)) (k # ks)) s = dirlink_slot dp (map (\<lambda>k. of_nat (DIRENT * k)) ks) s1"
      using False r(1) by simp
    show ?thesis by (rule Cons.prems(1) [OF _ t(2-4)]) (use False in \<open>simp only: e t(1) find.simps if_False\<close>)
  qed
qed

lemma iupdate_ok:
  assumes tx: "tx {} (Suc n) s" and dev: "i_dev (iat ip s) = 1" and bn: "IBLOCK (i_inum (iat ip s)) (sb s) < FSSIZE"
  obtains t d where "iupdate ip s = Ret () t" "tx {} n t" "view t = (view s)((1, IBLOCK (i_inum (iat ip s)) (sb s)) := d)"
    "fs_core t = fs_core s"
proof -
  let ?b = "IBLOCK (i_inum (iat ip s)) (sb s)"
  let ?d = "put_dinode (dinode_off (i_inum (iat ip s))) (i_d (iat ip s)) (view s (1, ?b))"
  have room: "length (log_lh s) + Suc n + card {} < 30" and nh: "not_held s {} ?b"
    using tx by (simp_all add: tx_def not_held_def)
  from tx_bread_update [OF tx room bn nh, where d = ?d] obtain i s1 s2 t where
    u: "bread 1 ?b s = Ret i s1" "b_data (bufat i s1) = view s (1, ?b)" "fs_core s1 = fs_core s"
      "log_write i (set_data i ?d s1) = Ret () s2" "brelse i s2 = Ret () t" "tx {} n t"
      "view t = (view s)((1, ?b) := ?d)" "fs_core t = fs_core s" "\<forall>j \<in> {}. bufat j t = bufat j s"
      "length (log_lh t) \<le> Suc (length (log_lh s))" .
  have "iupdate ip s = Ret () t"
    using u(1,2,4,5) fs_core_fields(11) [OF u(3)] dev by (simp add: iupdate_def Let_def)
  then show thesis by (rule that [OF _ u(6,7,8)])
qed

text \<open>The inode block of a directory is not one of the blocks of its contents.\<close>

definition inode_apart :: "fsys \<Rightarrow> nat \<Rightarrow> nat \<Rightarrow> bool" where
  "inode_apart s ip N \<longleftrightarrow> IBLOCK (i_inum (iat ip s)) (sb s) < FSSIZE \<and>
     IBLOCK (i_inum (iat ip s)) (sb s) \<notin> insert (addr_at ip NDIRECT s) (faddr s ip ` {..<N})"

lemma tx_set_inode: "tx H n (set_inode i ip s) = tx H n s"
proof -
  have "bc_inv (set_inode i ip s) H = bc_inv s H" "dirty_keys (set_inode i ip s) = dirty_keys s"
    by (simp_all add: bc_inv_def dirty_keys_def dirty_bufs_def bufat_def set_inode_def)
  then show ?thesis by (simp add: tx_def) (simp add: set_inode_def)
qed

lemma grow_file:
  assumes tx: "tx {} (Suc l) s" and m: "fmapped s ip N" and a: "inode_apart s ip N" and ip: "ip < length (icache s)"
    and s1_def: "s1 = set_inode ip ((iat ip s)\<lparr>i_d := (i_d (iat ip s))\<lparr>di_size := z\<rparr>\<rparr>) s"
  obtains t where "iupdate ip s1 = Ret () t" "tx {} l t" "fs_core t = fs_core s1" "fmapped t ip N"
    "\<forall>i < BSIZE * N. fbyte t ip i = fbyte s ip i"
proof -
  have i1: "iat ip s1 = (iat ip s)\<lparr>i_d := (i_d (iat ip s))\<lparr>di_size := z\<rparr>\<rparr>" "sb s1 = sb s" "view s1 = view s"
    using ip by (simp add: s1_def set_inode_def iat_def, simp add: s1_def set_inode_def, simp add: s1_def)
  let ?b = "IBLOCK (i_inum (iat ip s)) (sb s)"
  have tx1: "tx {} (Suc l) s1" using tx by (simp add: s1_def tx_set_inode)
  have dev: "i_dev (iat ip s1) = 1" using m i1 by (simp add: fmapped_def)
  have b: "IBLOCK (i_inum (iat ip s1)) (sb s1) < FSSIZE" using a i1 by (simp add: inode_apart_def)
  from iupdate_ok [OF tx1 dev b] obtain t d where
    t: "iupdate ip s1 = Ret () t" "tx {} l t" "view t = (view s)((1, ?b) := d)" "fs_core t = fs_core s1"
    by (auto simp: i1)
  have it: "iat ip t = iat ip s1" by (rule fs_core_fields(11) [OF t(4)])
  have ad: "addr_at ip k t = addr_at ip k s" for k by (simp add: addr_at_def it i1)
  have nb: "addr_at ip NDIRECT s \<noteq> ?b" "k < N \<Longrightarrow> faddr s ip k \<noteq> ?b" for k
    using a by (force simp: inode_apart_def)+
  have f: "faddr t ip = faddr s ip" using nb(1) by (auto simp: faddr_def ad t(3) fun_eq_iff)
  have "fmapped t ip N" using m nb by (auto simp: fmapped_def f ad t(3) it i1)
  moreover have "fbyte t ip i = fbyte s ip i" if "i < BSIZE * N" for i
  proof -
    have "i div BSIZE < N" using that by (simp add: less_mult_imp_div_less mult.commute)
    then show ?thesis using nb(2) [of "i div BSIZE"] by (simp add: fbyte_def f t(3))
  qed
  ultimately show thesis using t by (intro that) auto
qed

lemma faddr_after_write:
  assumes "fmapped s ip N" "fs_core t = fs_core s" "\<forall>q. q \<notin> Pair 1 ` faddr s ip ` {..<N} \<longrightarrow> view t q = view s q" "j < N"
  shows "faddr t ip j = faddr s ip j"
proof (cases "j < NDIRECT")
  case False
  then have "(1, addr_at ip NDIRECT s) \<notin> Pair 1 ` faddr s ip ` {..<N}" using assms(1,4) by (auto simp: fmapped_def)
  then have "view t (1, addr_at ip NDIRECT s) = view s (1, addr_at ip NDIRECT s)" using assms(3) by blast
  then show ?thesis using False fs_core_fields(11) [OF assms(2)] by (simp add: faddr_def addr_at_def)
qed (simp add: faddr_def addr_at_def fs_core_fields(11) [OF assms(2)])

lemma dirent_after_write:
  assumes "\<forall>i < B. fbyte t dp i = (if DIRENT * k \<le> i \<and> i < DIRENT * k + DIRENT then e ! (i - DIRENT * k) else fbyte s dp i)"
    "length e = DIRENT" "DIRENT * j + DIRENT \<le> B"
  shows "dirent t dp j = (if j = k then e else dirent s dp j)"
proof (rule nth_equalityI)
  fix i assume "i < length (dirent t dp j)"
  then have i: "i < DIRENT" by (simp add: dirent_def)
  have "DIRENT * k \<le> DIRENT * j + i \<and> DIRENT * j + i < DIRENT * k + DIRENT \<longleftrightarrow> j = k" using i by arith
  then show "dirent t dp j ! i = (if j = k then e else dirent s dp j) ! i" using assms i by (simp add: dirent_def)
qed (use assms in \<open>simp add: dirent_def\<close>)

lemma write_entry:
  assumes tx: "tx {} (l + 2) s" and d: "dir_at s dp N" and k: "k \<le> nents s dp" "DIRENT * k + DIRENT \<le> BSIZE * N"
    and e: "length e = DIRENT" and a: "inode_apart s dp N" and dp: "dp < length (icache s)"
  obtains t where "writei dp e (of_nat (DIRENT * k)) s = Ret 16 t" "tx {} l t" "dir_at t dp N"
    "nents t dp = max (nents s dp) (Suc k)" "disk t = disk s"
    "\<And>j. DIRENT * j + DIRENT \<le> BSIZE * N \<Longrightarrow> dirent t dp j = (if j = k then e else dirent s dp j)"
proof -
  let ?off = "of_nat (DIRENT * k) :: u32" and ?z = "di_size (i_d (iat dp s))"
  note Z = size_ents [OF d]
  have m: "fmapped s dp N" and ty: "di_type (i_d (iat dp s)) = T_DIR" using d by (simp_all add: dir_at_def)
  have N: "BSIZE * N \<le> 71680" using m by (simp add: fmapped_def)
  have uo: "unat ?off = DIRENT * k" using k(2) N by (intro unat_small) simp
  have uo': "?off + 16 = of_nat (DIRENT * k + DIRENT)" by simp
  have us: "unat (?off + 16) = DIRENT * k + DIRENT" unfolding uo' using k(2) N by (intro unat_small) simp
  have le: "\<not> ?off > ?z" "\<not> ?off + 16 < ?off" "\<not> ?off + 16 > 71680" "?off + 16 > ?z \<longleftrightarrow> k = nents s dp"
    using k N Z(1) by (auto simp: word_less_nat_alt uo us simp del: of_nat_mult)
  have "(DIRENT * k) mod BSIZE + 16 \<le> BSIZE"
  proof -
    have "(DIRENT * k) mod (DIRENT * 32) = DIRENT * (k mod 32)" by (rule mult_mod_right [symmetric])
    then show ?thesis by simp
  qed
  then have bt: "blocks_touched (unat ?off) (length e) = 1"
    using e unfolding uo blocks_touched_def by simp
  have tx1: "tx {} (Suc l + blocks_touched (unat ?off) (length e)) s" unfolding bt using tx by simp
  have fit: "unat ?off + length e \<le> BSIZE * N" using k(2) e uo by simp
  from writei_loop_ok [OF tx1 m fit] obtain s1 where
    w: "writei_loop dp (unat ?off) e s = Ret () s1" "tx {} (Suc l) s1" "fs_core s1 = fs_core s" "fmapped s1 dp N"
      "\<forall>i < BSIZE * N. fbyte s1 dp i = (if unat ?off \<le> i \<and> i < unat ?off + length e then e ! (i - unat ?off) else fbyte s dp i)"
      "\<forall>q. q \<notin> Pair 1 ` faddr s dp ` {..<N} \<longrightarrow> view s1 q = view s q" by (elim exE conjE)
  note W = w(5) [unfolded e uo]
  have it: "iat dp s1 = iat dp s" "sb s1 = sb s" "disk s1 = disk s" by (rule fs_core_fields [OF w(3)])+
  have wr: "writei dp e ?off s = (if k = nents s dp
      then bindr (iupdate dp (set_inode dp ((iat dp s1)\<lparr>i_d := (i_d (iat dp s1))\<lparr>di_size := ?off + 16\<rparr>\<rparr>) s1)) (\<lambda>_ t. Ret 16 t)
      else Ret 16 s1)"
    using le ty e w(1) by (simp add: writei_def Let_def it del: of_nat_mult)
  show thesis
  proof (cases "k = nents s dp")
    case False
    have "dir_at s1 dp N" "nents s1 dp = nents s dp" using d w(4) by (simp_all add: dir_at_def nents_def it)
    moreover have "max (nents s dp) (Suc k) = nents s dp" using False k(1) by simp
    ultimately show ?thesis using False wr it(3) dirent_after_write [OF W e] tx_mono [OF w(2), of l]
      by (intro that [of s1]) simp_all
  next
    case True
    have "inode_apart s1 dp N"
      using a faddr_after_write [OF m w(3,6)] by (auto simp: inode_apart_def it addr_at_def)
    moreover have "dp < length (icache s1)" using dp fs_core_fields(4) [OF w(3)] by simp
    ultimately obtain t where
      t: "iupdate dp (set_inode dp ((iat dp s1)\<lparr>i_d := (i_d (iat dp s1))\<lparr>di_size := ?off + 16\<rparr>\<rparr>) s1) = Ret () t" "tx {} l t"
        "fs_core t = fs_core (set_inode dp ((iat dp s1)\<lparr>i_d := (i_d (iat dp s1))\<lparr>di_size := ?off + 16\<rparr>\<rparr>) s1)" "fmapped t dp N"
        "\<forall>i < BSIZE * N. fbyte t dp i = fbyte s1 dp i"
      by (rule grow_file [OF w(2,4) _ _ refl])
    have z: "i_d (iat dp t) = (i_d (iat dp s))\<lparr>di_size := ?off + 16\<rparr>"
      using fs_core_fields(11) [OF t(3)] dp fs_core_fields(4) [OF w(3)] by (simp add: set_inode_def iat_def it)
    have "unat (di_size (i_d (iat dp t))) = DIRENT * Suc k" unfolding z using us by simp
    then have n: "nents t dp = Suc k" and dt: "dir_at t dp N" using t(4) ty k(2) by (simp_all add: nents_def dir_at_def z)
    have "\<forall>i < BSIZE * N. fbyte t dp i = (if DIRENT * k \<le> i \<and> i < DIRENT * k + DIRENT then e ! (i - DIRENT * k) else fbyte s dp i)"
      using t(5) W by simp
    note E = dirent_after_write [OF this e]
    have "disk t = disk s" using fs_core_fields(1) [OF t(3)] it(3) by simp
    then show ?thesis using True wr t(1,2) dt n E by (intro that [of t]) simp_all
  qed
qed

lemma entry_parts:
  assumes "valid_name name"
  shows "de_inum (le16 n @ name_field name) = n" "entry_name (le16 n @ name_field name) = name"
    "length (le16 n @ name_field name) = DIRENT"
proof -
  show "de_inum (le16 n @ name_field name) = n" by (simp add: de_inum_def rd16_def le16_def le16_bytes)
  have "drop 2 (le16 n @ name_field name) = name_field name" by (simp add: le16_def)
  moreover have "take DIRSIZ (name_field name) = name @ replicate (DIRSIZ - length name) 0"
    using assms by (simp add: name_field_def valid_name_def)
  moreover have "takeWhile (\<lambda>c. c \<noteq> 0) (name @ replicate m 0) = name" for m
  proof -
    have "\<forall>c \<in> set name. c \<noteq> 0" using assms by (auto simp: valid_name_def)
    then show ?thesis by (cases m) (simp_all add: takeWhile_append2)
  qed
  ultimately show "entry_name (le16 n @ name_field name) = name" by (simp only: entry_name_def de_name_def)
  show "length (le16 n @ name_field name) = DIRENT" using assms by (simp add: name_field_def valid_name_def)
qed

lemma find_cong_set: "(\<And>x. x \<in> set xs \<Longrightarrow> P x = Q x) \<Longrightarrow> find P xs = find Q xs"
  by (induction xs) auto

lemma find_upt_Some:
  assumes "P k" "k < n" "\<And>j. j < n \<Longrightarrow> P j \<Longrightarrow> j = k"
  shows "find P [0..<n] = Some k"
proof -
  have "\<not> P j" if "j < k" for j
  proof
    assume "P j"
    from assms(3) [OF _ this] that assms(2) show False by simp
  qed
  then have "k < length [0..<n] \<and> P ([0..<n] ! k) \<and> k = [0..<n] ! k \<and> (\<forall>j<k. \<not> P ([0..<n] ! j))"
    using assms(1,2) by simp
  then show ?thesis unfolding find_Some_iff by blast
qed

lemma find_upt_SomeD: "find P [0..<n] = Some k \<Longrightarrow> k < n" "find P [0..<n] = Some k \<Longrightarrow> P k"
  by (auto simp: find_Some_iff)

lemma find_append_None: "\<not> P x \<Longrightarrow> find P (xs @ [x]) = find P xs"
  by (induction xs) auto

lemma free_slot_ok:
  assumes d: "dir_at s dp N"
    and room: "(\<exists>k < nents s dp. de_inum (dirent s dp k) = 0) \<or> DIRENT * nents s dp + DIRENT \<le> BSIZE * N"
  shows "free_slot s dp \<le> nents s dp" "free_slot s dp < nents s dp \<Longrightarrow> de_inum (dirent s dp (free_slot s dp)) = 0"
    "DIRENT * free_slot s dp + DIRENT \<le> BSIZE * N"
proof -
  have fits: "DIRENT * nents s dp \<le> BSIZE * N" using d size_ents(1) [OF d] by (simp add: dir_at_def)
  show "free_slot s dp \<le> nents s dp" "free_slot s dp < nents s dp \<Longrightarrow> de_inum (dirent s dp (free_slot s dp)) = 0"
    by (auto simp: free_slot_def split: option.splits dest: find_upt_SomeD)
  show "DIRENT * free_slot s dp + DIRENT \<le> BSIZE * N"
  proof (cases "find (\<lambda>k. de_inum (dirent s dp k) = 0) [0..<nents s dp]")
    case None
    then have "\<not> (\<exists>k < nents s dp. de_inum (dirent s dp k) = 0)" by (auto simp: find_None_iff)
    then have "DIRENT * nents s dp + DIRENT \<le> BSIZE * N" using room by blast
    then show ?thesis using None by (simp add: free_slot_def)
  next
    case (Some k)
    have "Suc k \<le> nents s dp" using find_upt_SomeD(1) [OF Some] by simp
    then have "DIRENT * Suc k \<le> DIRENT * nents s dp" by (intro mult_le_mono2)
    then show ?thesis using fits Some by (simp add: free_slot_def)
  qed
qed

lemma dir_map_add:
  assumes k: "k \<le> nents s dp" "k < nents s dp \<Longrightarrow> de_inum (dirent s dp k) = 0"
    and new: "dir_map s dp name = None" and n: "nents t dp = max (nents s dp) (Suc k)"
    and e: "\<And>j. j < nents t dp \<Longrightarrow> dirent t dp j = (if j = k then ent else dirent s dp j)"
    and ent: "de_inum ent \<noteq> 0" "entry_name ent = name"
  shows "dir_map t dp = (dir_map s dp)(name \<mapsto> de_inum ent)"
proof
  fix nm
  have kn: "k < nents t dp" using n by simp
  have h: "hit t dp nm j = (if j = k then nm = name else hit s dp nm j)" if "j < nents t dp" for j
    using e [OF that] ent by (auto simp: hit_def)
  have old: "\<not> hit s dp name j" if "j < nents s dp" for j
    using new that by (simp add: dir_map_def dir_index_def find_None_iff)
  show "dir_map t dp nm = ((dir_map s dp)(name \<mapsto> de_inum ent)) nm"
  proof (cases "nm = name")
    case True
    have u: "j = k" if "j < nents t dp" "hit t dp nm j" for j
      using that h [OF that(1)] old [of j] True n k(1) by (auto split: if_splits)
    have "hit t dp nm k" using h [OF kn] True by simp
    then have "dir_index t dp nm = Some k" unfolding dir_index_def using kn u by (rule find_upt_Some)
    then show ?thesis using True e [OF kn] by (simp add: dir_map_def)
  next
    case False
    have "find (hit t dp nm) [0..<nents s dp] = find (hit s dp nm) [0..<nents s dp]"
    proof (rule find_cong_set)
      fix j assume "j \<in> set [0..<nents s dp]"
      then have j: "j < nents s dp" "j < nents t dp" using n by simp_all
      show "hit t dp nm j = hit s dp nm j" using h [OF j(2)] False k(2) j(1) by (cases "j = k") (simp_all add: hit_def)
    qed
    moreover have "find (hit t dp nm) [0..<nents t dp] = find (hit t dp nm) [0..<nents s dp]"
    proof (cases "k < nents s dp")
      case nk: False
      then have "[0..<nents t dp] = [0..<nents s dp] @ [k]" using k(1) n by simp
      moreover have "\<not> hit t dp nm k" using h [OF kn] False by simp
      ultimately show ?thesis by (simp add: find_append_None)
    next
      case True
      then have "nents t dp = nents s dp" using n by simp
      then show ?thesis by simp
    qed
    ultimately have x: "dir_index t dp nm = dir_index s dp nm" by (simp add: dir_index_def)
    moreover have "dirent t dp j = dirent s dp j" if "dir_index s dp nm = Some j" for j
    proof -
      have j: "j < nents s dp" "hit s dp nm j" using that find_upt_SomeD unfolding dir_index_def by blast+
      then have "j \<noteq> k" using k(2) unfolding hit_def by blast
      moreover have "j < nents t dp" using j(1) n by simp
      ultimately show ?thesis using e by simp
    qed
    ultimately show ?thesis using False by (cases "dir_index s dp nm") (simp_all add: dir_map_def)
  qed
qed

subsection \<open>The directory operations on the map\<close>

text \<open>
  (C12) \<open>dirlookup\<close> computes the map. On a directory with any contents and a name of at most 14
  bytes, it returns nothing if no entry in use has the name; otherwise it returns the offset of
  the first such entry and an inode cache entry for the inode number recorded there. The
  contents of all files and the disk stay as they are.
\<close>

theorem dirlookup_map:
  assumes tx: "tx {} l s" and d: "dir_at s dp N" and nm: "valid_name name"
    and ic: "length (icache s) = NINODE" "i < NINODE" "i_ref (iat i s) = 0"
  shows "case dir_map s dp name of
      None \<Rightarrow> \<exists>t. dirlookup dp name s = Ret None t \<and> view t = view s \<and> icache t = icache s \<and> disk t = disk s
    | Some inum \<Rightarrow> \<exists>ip k t. dirlookup dp name s = Ret (Some (ip, of_nat (DIRENT * k))) t \<and>
        dir_index s dp name = Some k \<and> i_dev (iat ip t) = 1 \<and> i_inum (iat ip t) = ucast inum \<and>
        view t = view s \<and> disk t = disk s"
proof -
  note Z = size_ents [OF d]
  have sub: "set [0..<nents s dp] \<subseteq> {..<nents s dp}" by auto
  obtain t where t: "dirlookup_loop dp name (map (\<lambda>k. of_nat (DIRENT * k)) [0..<nents s dp]) s =
      (case find (hit s dp name) [0..<nents s dp] of None \<Rightarrow> Ret None t
       | Some k \<Rightarrow> bindr (iget 1 (ucast (de_inum (dirent s dp k))) t) (\<lambda>ip u. Ret (Some (ip, of_nat (DIRENT * k))) u))"
    "tx {} l t" "view t = view s" "fs_core t = fs_core s" by (rule dirlookup_loop_ok [OF tx d nm sub])
  note C = fs_core_fields [OF t(4)]
  have l: "dirlookup dp name s = (case dir_index s dp name of None \<Rightarrow> Ret None t
       | Some k \<Rightarrow> bindr (iget 1 (ucast (de_inum (dirent s dp k))) t) (\<lambda>ip u. Ret (Some (ip, of_nat (DIRENT * k))) u))"
    using d t(1) by (simp add: dirlookup_def dir_at_def Z(2) dir_index_def)
  show ?thesis
  proof (cases "dir_index s dp name")
    case None
    then show ?thesis using l t(3) C(1,4) by (simp add: dir_map_def)
  next
    case (Some k)
    have ict: "length (icache t) = NINODE" "i_ref (iat i t) = 0" using ic C by simp_all
    from iget_ok [OF ict(1) ic(2) ict(2)] obtain j jp where
      j: "iget 1 (ucast (de_inum (dirent s dp k))) t = Ret j (set_inode j jp t)" "j < NINODE" "i_dev jp = 1"
        "i_inum jp = ucast (de_inum (dirent s dp k))" .
    have "iat j (set_inode j jp t) = jp" using j(2) ict(1) by (simp add: iat_def set_inode_def)
    then show ?thesis using Some l j t(3) C(1) by (auto simp: dir_map_def)
  qed
qed

text \<open>A directory with the single entry \<open>.\<close>, for inode 1; the other cache entries are free.\<close>

definition demo_dir :: fsys where
  "demo_dir = clean_fs (small_disk((1, 70) := [1, 0, 46] @ replicate 509 0)) small_sb
     (sample_inode\<lparr>i_d := (i_d sample_inode)\<lparr>di_type := T_DIR, di_size := 16\<rparr>\<rparr> # replicate 49 (sample_inode\<lparr>i_ref := 0\<rparr>))"

lemma demo_dir_ok:
  shows "tx {} 29 demo_dir" "dir_at demo_dir 0 1" "inode_apart demo_dir 0 1" "length (icache demo_dir) = NINODE"
    "i_ref (iat 1 demo_dir) = 0" "nents demo_dir 0 = 1" "dirent demo_dir 0 0 = [1, 0, 46] @ replicate 13 0"
proof -
  show "tx {} 29 demo_dir" by (simp add: demo_dir_def clean_fs_tx)
  have i: "iat 0 demo_dir = sample_inode\<lparr>i_d := (i_d sample_inode)\<lparr>di_type := T_DIR, di_size := 16\<rparr>\<rparr>"
    by (simp add: demo_dir_def iat_def)
  have v: "view demo_dir = small_disk((1, 70) := [1, 0, 46] @ replicate 509 0)" by (simp add: demo_dir_def)
  have f: "faddr demo_dir 0 0 = 70" by (simp add: faddr_def addr_at_def i sample_inode_def)
  show "dir_at demo_dir 0 1" by (simp add: dir_at_def fmapped_def i f v lessThan_Suc) (simp add: sample_inode_def)
  show "inode_apart demo_dir 0 1"
    using f by (simp add: inode_apart_def i addr_at_def) (simp add: sample_inode_def demo_dir_def small_sb_def IBLOCK_def lessThan_Suc)
  show "length (icache demo_dir) = NINODE" by (simp add: demo_dir_def)
  show "i_ref (iat 1 demo_dir) = 0" by (simp add: demo_dir_def iat_def)
  show "nents demo_dir 0 = 1" by (simp add: nents_def i)
  have "fbyte demo_dir 0 j = ([1, 0, 46] @ replicate 509 0) ! j" if "j < 16" for j
    using that f by (simp add: fbyte_def v)
  then have "dirent demo_dir 0 0 = map (\<lambda>j. ([1, 0, 46] @ replicate 509 0) ! j) [0..<16]" by (simp add: dirent_def)
  then show "dirent demo_dir 0 0 = [1, 0, 46] @ replicate 13 0" by (simp add: upt_rec eval_nat_numeral)
qed

lemma demo_dir_map: "dir_map demo_dir 0 name = (if name = [46] then Some 1 else None)"
  using demo_dir_ok(6,7)
  by (auto simp: dir_map_def dir_index_def hit_def entry_name_def de_name_def de_inum_def rd16_def)

theorem dirlookup_map_witness:
  "\<exists>ip t. dirlookup 0 [46] demo_dir = Ret (Some (ip, 0)) t \<and> i_inum (iat ip t) = 1"
proof -
  have nm: "valid_name [46]" by (simp add: valid_name_def)
  have x: "dir_index demo_dir 0 [46] = Some k \<Longrightarrow> k = 0" for k
    using demo_dir_ok(6) by (auto simp: dir_index_def split: if_splits)
  show ?thesis
    using dirlookup_map [OF demo_dir_ok(1,2) nm demo_dir_ok(4) _ demo_dir_ok(5)] x by (auto simp: demo_dir_map)
qed



end
