(* ===== verification/Grep.thy ===== *)
theory Grep
  imports Str
begin

section \<open>The pattern matcher: grep.c\<close>

text \<open>
  A C string is the list of its bytes without the terminating NUL, so the end of the string
  is the empty list. The matcher is compared with the language of its patterns, and the line
  loop with the lines of the whole input, whatever pieces \<open>read\<close> delivers it in.
\<close>

function matchhere :: "u8 list \<Rightarrow> u8 list \<Rightarrow> bool"
and matchstar :: "u8 \<Rightarrow> u8 list \<Rightarrow> u8 list \<Rightarrow> bool" where
  "matchhere re str =
     (if re = [] then True
      else if length re > 1 \<and> re ! 1 = 42 then matchstar (re ! 0) (drop 2 re) str
      else if re ! 0 = 36 \<and> length re = 1 then str = []
      else if str \<noteq> [] \<and> (re ! 0 = 46 \<or> re ! 0 = hd str) then matchhere (tl re) (tl str)
      else False)"
| "matchstar c re str =
     (if matchhere re str then True
      else if str \<noteq> [] \<and> (hd str = c \<or> c = 46) then matchstar c re (tl str)
      else False)"
  by pat_completeness auto
termination
  by (relation "measure (case_sum (\<lambda>(re, t). length re + length t) (\<lambda>(c, re, t). Suc (length re + length t)))")
     (auto simp flip: length_greater_0_conv)

declare matchhere.simps [simp del] matchstar.simps [simp del]

fun match_loop :: "u8 list \<Rightarrow> u8 list \<Rightarrow> bool" where
  "match_loop re [] = matchhere re []"
| "match_loop re (c # str) = (matchhere re (c # str) \<or> match_loop re str)"

definition match :: "u8 list \<Rightarrow> u8 list \<Rightarrow> bool" where
  "match re str = (if re \<noteq> [] \<and> re ! 0 = 94 then matchhere (drop 1 re) str else match_loop re str)"

text \<open>
  The inner loop of \<open>grep\<close> on the bytes from \<open>p\<close> to the end of the buffer: what is written, and
  what is left from the last \<open>p\<close> on. \<open>strchr\<close> finds a newline only before the first NUL.
\<close>

definition newline_at :: "u8 list \<Rightarrow> nat option" where
  "newline_at xs = (if 10 \<in> set (takeWhile (\<lambda>c. c \<noteq> 0) xs) then Some (length (takeWhile (\<lambda>c. c \<noteq> 10) xs)) else None)"

lemma takeWhile_found: "x \<in> set xs \<Longrightarrow> length (takeWhile (\<lambda>c. c \<noteq> x) xs) < length xs"
  by (induction xs) auto

lemma newline_at_bound: "newline_at xs = Some k \<Longrightarrow> k < length xs"
proof -
  assume "newline_at xs = Some k"
  then have "10 \<in> set xs" "k = length (takeWhile (\<lambda>c. c \<noteq> 10) xs)"
    by (auto simp: newline_at_def dest: set_takeWhileD split: if_splits)
  then show ?thesis by (simp add: takeWhile_found)
qed

function grep_lines :: "u8 list \<Rightarrow> u8 list \<Rightarrow> u8 list \<times> u8 list" where
  "grep_lines pattern p =
     (case newline_at p of
        None \<Rightarrow> ([], p)
      | Some k \<Rightarrow>
          let (out, rest) = grep_lines pattern (drop (k + 1) p)
          in ((if match pattern (take k p) then take (k + 1) p else []) @ out, rest))"
  by pat_completeness auto
termination by (relation "measure (\<lambda>(pattern, p). length p)") (auto dest: newline_at_bound)

declare grep_lines.simps [simp del]

text \<open>
  The outer loop: \<open>buf\<close> is what the buffer holds before the next read, the list gives the bytes
  that the successive reads return. A read that returns nothing ends the loop, and so does
  one into a full buffer, which asks for 0 bytes.
\<close>

fun grep :: "u8 list \<Rightarrow> u8 list \<Rightarrow> u8 list list \<Rightarrow> u8 list" where
  "grep pattern buf [] = []"
| "grep pattern buf (r # rs) =
     (let n = take (1023 - length buf) r
      in if n = [] then []
         else let (out, rest) = grep_lines pattern (buf @ n)
              in out @ grep pattern (if newline_at (buf @ n) = None then [] else rest) rs)"

subsection \<open>The language of a pattern\<close>

datatype atom = AnyByte | Byte u8

fun sat :: "atom \<Rightarrow> u8 \<Rightarrow> bool" where
  "sat AnyByte x = True"
| "sat (Byte c) x = (x = c)"

definition atom_of :: "u8 \<Rightarrow> atom" where
  "atom_of c = (if c = 46 then AnyByte else Byte c)"

datatype item = One atom | Many atom

text \<open>The items of a pattern, and whether it ends in the anchor \<open>$\<close>.\<close>

fun items :: "u8 list \<Rightarrow> item list" where
  "items [] = []"
| "items [c] = (if c = 36 then [] else [One (atom_of c)])"
| "items (c # d # re) = (if d = 42 then Many (atom_of c) # items re else One (atom_of c) # items (d # re))"

fun anchored :: "u8 list \<Rightarrow> bool" where
  "anchored [] = False"
| "anchored [c] = (c = 36)"
| "anchored (c # d # re) = (if d = 42 then anchored re else anchored (d # re))"

fun lang :: "item list \<Rightarrow> u8 list \<Rightarrow> bool" where
  "lang [] w \<longleftrightarrow> w = []"
| "lang (One a # is) w \<longleftrightarrow> (\<exists>x v. w = x # v \<and> sat a x \<and> lang is v)"
| "lang (Many a # is) w \<longleftrightarrow> (\<exists>u v. w = u @ v \<and> (\<forall>x \<in> set u. sat a x) \<and> lang is v)"

text \<open>A word of the language stands at the start of the text, or is all of it.\<close>

definition begins :: "bool \<Rightarrow> item list \<Rightarrow> u8 list \<Rightarrow> bool" where
  "begins whole is str \<longleftrightarrow> (\<exists>w rest. str = w @ rest \<and> lang is w \<and> (whole \<longrightarrow> rest = []))"

lemma sat_atom_of: "sat (atom_of c) x \<longleftrightarrow> c = 46 \<or> c = x"
  by (auto simp: atom_of_def)

lemma begins_Nil: "begins whole [] str \<longleftrightarrow> (whole \<longrightarrow> str = [])"
  by (auto simp: begins_def)

lemma beginsI: "lang is w \<Longrightarrow> (whole \<Longrightarrow> rest = []) \<Longrightarrow> begins whole is (w @ rest)"
  by (auto simp: begins_def)

lemma begins_One: "begins whole (One a # is) str \<longleftrightarrow> (\<exists>x t. str = x # t \<and> sat a x \<and> begins whole is t)"
proof
  assume "begins whole (One a # is) str"
  then obtain w rest where "str = w @ rest" "lang (One a # is) w" "whole \<longrightarrow> rest = []" by (auto simp: begins_def)
  moreover from this obtain x v where "w = x # v" "sat a x" "lang is v" by auto
  ultimately show "\<exists>x t. str = x # t \<and> sat a x \<and> begins whole is t" using beginsI [of "is" v whole rest] by auto
next
  assume "\<exists>x t. str = x # t \<and> sat a x \<and> begins whole is t"
  then obtain x w rest where t: "str = x # w @ rest" "sat a x" "lang is w" "whole \<longrightarrow> rest = []" by (auto simp: begins_def)
  then have "lang (One a # is) (x # w)" by simp
  from beginsI [OF this, of whole rest] show "begins whole (One a # is) str" using t by simp
qed

lemma begins_Many:
  "begins whole (Many a # is) str \<longleftrightarrow> begins whole is str \<or> (\<exists>x t. str = x # t \<and> sat a x \<and> begins whole (Many a # is) t)"
proof
  assume "begins whole (Many a # is) str"
  then obtain w rest where "str = w @ rest" "lang (Many a # is) w" and r: "whole \<longrightarrow> rest = []" by (auto simp: begins_def)
  then obtain u v where t: "str = u @ v @ rest" "\<forall>x \<in> set u. sat a x" "lang is v" by auto
  show "begins whole is str \<or> (\<exists>x t. str = x # t \<and> sat a x \<and> begins whole (Many a # is) t)"
  proof (cases u)
    case Nil
    then show ?thesis using t r beginsI [OF t(3), of whole rest] by simp
  next
    case (Cons x u')
    then have "lang (Many a # is) (u' @ v)" using t by auto
    from beginsI [OF this, of whole rest] show ?thesis using Cons t r by simp
  qed
next
  assume "begins whole is str \<or> (\<exists>x t. str = x # t \<and> sat a x \<and> begins whole (Many a # is) t)"
  then show "begins whole (Many a # is) str"
  proof (elim disjE exE conjE)
    assume "begins whole is str"
    then obtain w rest where t: "str = w @ rest" "lang is w" "whole \<longrightarrow> rest = []" by (auto simp: begins_def)
    have "lang (Many a # is) w" unfolding lang.simps using t(2) by (intro exI [of _ "[]"] exI [of _ w]) simp
    from beginsI [OF this, of whole rest] show ?thesis using t by simp
  next
    fix x t assume "str = x # t" "sat a x" "begins whole (Many a # is) t"
    then obtain w rest where t: "str = x # w @ rest" "sat a x" "lang (Many a # is) w" "whole \<longrightarrow> rest = []"
      by (auto simp: begins_def)
    then obtain u v where "w = u @ v" "\<forall>x \<in> set u. sat a x" "lang is v" by auto
    then have "lang (Many a # is) (x # w)" unfolding lang.simps using t(2) by (intro exI [of _ "x # u"] exI [of _ v]) simp
    from beginsI [OF this, of whole rest] show ?thesis using t by simp
  qed
qed

lemma matcher_correct:
  "matchhere re str \<longleftrightarrow> begins (anchored re) (items re) str"
  "matchstar c re str \<longleftrightarrow> begins (anchored re) (Many (atom_of c) # items re) str"
proof (induction re str and c re str rule: matchhere_matchstar.induct)
  case (1 re str)
  consider (nil) "re = []" | (star) c re' where "re = c # 42 # re'" | (dollar) "re = [36]"
    | (single) c where "re = [c]" "c \<noteq> 36" | (more) c d re' where "re = c # d # re'" "d \<noteq> 42"
    by (metis items.cases)
  then show ?case
  proof cases
    case nil
    then show ?thesis by (simp add: matchhere.simps begins_Nil)
  next
    case (star c re')
    have "matchstar c re' str \<longleftrightarrow> begins (anchored re') (Many (atom_of c) # items re') str" using 1(1) star by simp
    then show ?thesis unfolding star by (subst matchhere.simps) simp
  next
    case dollar
    then show ?thesis unfolding dollar by (subst matchhere.simps) (simp add: begins_Nil)
  next
    case (single c)
    then show ?thesis using 1(2) unfolding single(1)
      by (cases str; subst matchhere.simps) (auto simp: begins_One begins_Nil matchhere.simps [of "[]"] sat_atom_of)
  next
    case (more c d re')
    then show ?thesis using 1(2) unfolding more(1)
      by (cases str; subst matchhere.simps) (auto simp: begins_One sat_atom_of)
  qed
next
  case (2 c re str)
  show ?case unfolding matchstar.simps [of c re str] begins_Many [of _ _ _ str]
    using 2 by (cases str) (auto simp: sat_atom_of)
qed

text \<open>
  (C22) \<open>match\<close> decides the language that the comment in grep.c describes: the text has a part that
  is a word of the pattern (literal bytes, \<open>.\<close> for any byte, \<open>*\<close> after either for any number of
  repetitions), at the start of the text if the pattern begins with \<open>^\<close> and up to its end if the
  pattern ends in \<open>$\<close>. Both calls terminate on all inputs.
\<close>

theorem match_correct:
  "match re str \<longleftrightarrow>
     (let up = (re \<noteq> [] \<and> hd re = 94); body = (if up then tl re else re)
      in \<exists>pre w post. str = pre @ w @ post \<and> lang (items body) w \<and> (up \<longrightarrow> pre = []) \<and> (anchored body \<longrightarrow> post = []))"
proof -
  have l: "match_loop re t \<longleftrightarrow> (\<exists>pre rest. t = pre @ rest \<and> begins (anchored re) (items re) rest)" for t
  proof (induction t)
    case (Cons c t)
    then show ?case by (auto simp: matcher_correct Cons_eq_append_conv)
  qed (simp add: matcher_correct)
  show ?thesis
  proof (cases "re \<noteq> [] \<and> hd re = 94")
    case True
    then obtain b where "re = 94 # b" by (cases re) auto
    then show ?thesis by (simp add: match_def matcher_correct begins_def Let_def)
  next
    case False
    then have "match re str = match_loop re str" by (auto simp: match_def hd_conv_nth)
    then show ?thesis using False by (simp add: l begins_def) blast
  qed
qed

theorem match_correct_witness: "match [97, 46, 42, 99, 36] [120, 97, 98, 99]"
proof -
  have "[120, 97, 98, 99] = [120] @ [97, 98, 99] @ ([] :: u8 list) \<and> lang (items [97, 46, 42, 99, 36]) [97, 98, 99]"
    by (auto simp: atom_of_def intro!: exI [of _ "[98]"])
  moreover have "\<not> ([97, 46, 42, 99, 36] \<noteq> ([] :: u8 list) \<and> hd [97, 46, 42, 99, 36 :: u8] = 94)" by simp
  ultimately show ?thesis unfolding match_correct [of "[97, 46, 42, 99, 36]" "[120, 97, 98, 99]"] Let_def
    by (simp only: if_False if_True simp_thms) blast
qed

subsection \<open>The lines of the input\<close>

text \<open>The complete lines of a text, and what follows the last newline.\<close>

function lines_of :: "u8 list \<Rightarrow> u8 list list" where
  "lines_of xs =
     (if 10 \<in> set xs then takeWhile (\<lambda>c. c \<noteq> 10) xs # lines_of (tl (dropWhile (\<lambda>c. c \<noteq> 10) xs)) else [])"
  by pat_completeness auto
termination
proof (relation "measure length", goal_cases)
  case (2 xs)
  then have "length (takeWhile (\<lambda>c. c \<noteq> 10) xs) < length xs" by (rule takeWhile_found)
  then show ?case by (simp add: dropWhile_eq_drop)
qed simp

declare lines_of.simps [simp del]

definition rest_of :: "u8 list \<Rightarrow> u8 list" where
  "rest_of xs = rev (takeWhile (\<lambda>c. c \<noteq> 10) (rev xs))"

lemma takeWhile_absent: "x \<notin> set xs \<Longrightarrow> takeWhile (\<lambda>c. c \<noteq> x) xs = xs"
  by (induction xs) auto

lemma split_first:
  "x \<notin> set l \<Longrightarrow> takeWhile (\<lambda>c. c \<noteq> x) (l @ x # ys) = l" "x \<notin> set l \<Longrightarrow> dropWhile (\<lambda>c. c \<noteq> x) (l @ x # ys) = x # ys"
  by (induction l) auto

lemma lines_of_none: "10 \<notin> set xs \<Longrightarrow> lines_of xs = []" "10 \<notin> set xs \<Longrightarrow> rest_of xs = xs"
  by (simp_all add: lines_of.simps [of xs] rest_of_def takeWhile_absent)

lemma lines_of_line: "10 \<notin> set l \<Longrightarrow> lines_of (l @ 10 # xs) = l # lines_of xs"
  by (subst lines_of.simps) (simp add: split_first)

lemma rest_of_line: "rest_of (l @ 10 # xs) = rest_of xs"
proof (cases "10 \<in> set (rev xs)")
  case True
  then show ?thesis by (simp add: rest_of_def takeWhile_append1 [of "10"])
next
  case False
  then have "takeWhile (\<lambda>c. c \<noteq> 10) (rev xs @ 10 # rev l) = rev xs" by (rule split_first)
  then show ?thesis using False by (simp add: rest_of_def takeWhile_absent)
qed

lemma line_cases:
  obtains "10 \<notin> set xs" | l ys where "xs = l @ 10 # ys" "10 \<notin> set l"
  using split_list_first [of "10" xs] by blast

lemma line_induct [case_names none line]:
  assumes "\<And>xs. 10 \<notin> set xs \<Longrightarrow> P xs" "\<And>l xs. 10 \<notin> set l \<Longrightarrow> P xs \<Longrightarrow> P (l @ 10 # xs)"
  shows "P (xs :: u8 list)"
proof (induction "length xs" arbitrary: xs rule: less_induct)
  case less
  then show ?case by (cases rule: line_cases [of xs]) (auto intro: assms)
qed

lemma lines_of_append: "lines_of (xs @ ys) = lines_of xs @ lines_of (rest_of xs @ ys)"
  by (induction xs rule: line_induct) (simp_all add: lines_of_none lines_of_line rest_of_line)

lemma rest_of_no_newline: "10 \<notin> set (rest_of xs)"
  by (auto simp: rest_of_def dest: set_takeWhileD)

lemma newline_at_line:
  assumes "0 \<notin> set xs"
  shows "newline_at xs = None \<longleftrightarrow> 10 \<notin> set xs" "xs = l @ 10 # ys \<Longrightarrow> 10 \<notin> set l \<Longrightarrow> newline_at xs = Some (length l)"
proof -
  note tw = takeWhile_absent [OF assms]
  show "newline_at xs = None \<longleftrightarrow> 10 \<notin> set xs" "xs = l @ 10 # ys \<Longrightarrow> 10 \<notin> set l \<Longrightarrow> newline_at xs = Some (length l)"
    unfolding newline_at_def tw by (auto simp: split_first)
qed

definition selected :: "u8 list \<Rightarrow> u8 list list \<Rightarrow> u8 list" where
  "selected pattern ls = concat (map (\<lambda>l. l @ [10]) (filter (match pattern) ls))"

lemma grep_lines_correct: "0 \<notin> set p \<Longrightarrow> grep_lines pattern p = (selected pattern (lines_of p), rest_of p)"
proof (induction p rule: line_induct)
  case (none p)
  then have "newline_at p = None" using newline_at_line(1) by blast
  then show ?case using none by (simp add: grep_lines.simps [of pattern p] lines_of_none selected_def)
next
  case (line l p)
  have "newline_at (l @ 10 # p) = Some (length l)" using line.prems line.hyps by (intro newline_at_line) auto
  then show ?case using line
    by (simp add: grep_lines.simps [of pattern "l @ 10 # p"] lines_of_line rest_of_line selected_def)
qed

text \<open>
  The reads fit \<open>grep\<close>: none is empty or exceeds the free part of the buffer, and each but the
  last one brings a newline.
\<close>

fun delivered :: "u8 list \<Rightarrow> u8 list list \<Rightarrow> bool" where
  "delivered buf [] = True"
| "delivered buf (r # rs) \<longleftrightarrow>
     r \<noteq> [] \<and> length buf + length r \<le> 1023 \<and> (rs = [] \<or> 10 \<in> set r \<and> delivered (rest_of (buf @ r)) rs)"

text \<open>
  (C23) \<open>grep\<close> prints the right lines. Whatever pieces the input arrives in, as long as every piece
  but the last one brings a newline and fits into the buffer, it writes exactly those complete
  lines of the whole input (free of NUL bytes) that match, in order, each with its newline.
\<close>

theorem grep_prints_matching_lines:
  assumes "delivered buf reads" "0 \<notin> set (buf @ concat reads)" "10 \<notin> set buf"
  shows "grep pattern buf reads = concat (map (\<lambda>l. l @ [10]) (filter (match pattern) (lines_of (buf @ concat reads))))"
  unfolding selected_def [symmetric] using assms
proof (induction reads arbitrary: buf)
  case Nil
  then show ?case by (simp add: lines_of_none selected_def)
next
  case (Cons r rs)
  have t: "take (1023 - length buf) r = r" "r \<noteq> []" using Cons.prems(1) by auto
  have z: "0 \<notin> set (buf @ r)" using Cons.prems(2) by simp
  note G = grep_lines_correct [OF z, of pattern]
  have eq: "grep pattern buf (r # rs) = selected pattern (lines_of (buf @ r)) @
      grep pattern (if 10 \<notin> set (buf @ r) then [] else rest_of (buf @ r)) rs"
    using t newline_at_line(1) [OF z] by (simp add: G)
  show ?case
  proof (cases "rs = []")
    case True
    then show ?thesis unfolding eq by simp
  next
    case False
    then have d: "10 \<in> set r" "delivered (rest_of (buf @ r)) rs" using Cons.prems(1) by simp_all
    have zr: "0 \<notin> set (rest_of (buf @ r) @ concat rs)"
      using Cons.prems(2) by (auto simp: rest_of_def dest: set_takeWhileD)
    have "grep pattern (rest_of (buf @ r)) rs = selected pattern (lines_of (rest_of (buf @ r) @ concat rs))"
      by (rule Cons.IH [OF d(2) zr rest_of_no_newline])
    then show ?thesis unfolding eq using d(1) lines_of_append [of "buf @ r" "concat rs"] by (simp add: selected_def)
  qed
qed

theorem grep_prints_matching_lines_witness:
  "grep [97, 46, 42, 99] [] [[97, 98, 10, 97], [98, 99, 10, 97, 99]] = [97, 98, 99, 10]"
proof -
  have "grep [97, 46, 42, 99] [] [[97, 98, 10, 97], [98, 99, 10, 97, 99]] =
    concat (map (\<lambda>l. l @ [10]) (filter (match [97, 46, 42, 99]) (lines_of ([] @ concat [[97, 98, 10, 97], [98, 99, 10, 97, 99]]))))"
    by (rule grep_prints_matching_lines) (simp_all add: rest_of_def)
  also have "lines_of ([] @ concat [[97, 98, 10, 97], [98, 99, 10, 97, 99]]) = [[97, 98], [97, 98, 99]]"
    by (simp add: lines_of.simps)
  finally show ?thesis by (simp add: match_def matchhere.simps matchstar.simps)
qed

end
