(* ===== verification/Sh.thy ===== *)
theory Sh
  imports Str
begin

section \<open>The parser of the shell: sh.c\<close>

text \<open>
  A command line is the list of its bytes without the terminating NUL, a pointer into it an
  offset, and \<open>es\<close> its length. The nodes of a parsed command keep pairs of offsets (\<open>argv[i]\<close> and
  \<open>eargv[i]\<close>) as the code does; \<open>nulterminate\<close> then cuts the line into strings. A call of
  \<open>panic\<close> ends the process and is an error with its message.
\<close>

datatype cmd =
  EXEC "(nat \<times> nat) list"
| REDIR cmd nat nat u32 nat
| PIPE cmd cmd
| LIST cmd cmd
| BACK cmd

definition whitespace :: "u8 list" where "whitespace = [32, 9, 13, 10, 11]"
definition symbols :: "u8 list" where "symbols = [60, 124, 62, 38, 59, 40, 41]"

definition ch :: "u8 list \<Rightarrow> nat \<Rightarrow> u8" where
  "ch s i = (if i < length s then s ! i else 0)"

subsection \<open>Tokens\<close>

text \<open>The loops \<open>while (s < es && ...) s++\<close>.\<close>

function skip :: "(u8 \<Rightarrow> bool) \<Rightarrow> u8 list \<Rightarrow> nat \<Rightarrow> nat" where
  "skip P s i = (if i < length s \<and> P (s ! i) then skip P s (i + 1) else i)"
  by pat_completeness auto
termination by (relation "measure (\<lambda>(P, s, i). length s - i)") auto

declare skip.simps [simp del]

definition skip_white :: "u8 list \<Rightarrow> nat \<Rightarrow> nat" where
  "skip_white s i = skip (\<lambda>c. c \<in> set whitespace) s i"

text \<open>The kind of the token, its bounds \<open>*q\<close> and \<open>*eq\<close>, and the new \<open>*ps\<close>; 97 is \<open>'a'\<close>, 43 is \<open>'+'\<close>.\<close>

definition gettoken :: "u8 list \<Rightarrow> nat \<Rightarrow> u8 \<times> nat \<times> nat \<times> nat" where
  "gettoken s ps =
     (let q = skip_white s ps; c = ch s q;
          (ret, eq) =
            (if c = 0 then (0, q)
             else if c \<in> {124, 40, 41, 59, 38, 60} then (c, q + 1)
             else if c = 62 then (if ch s (q + 1) = 62 then (43, q + 2) else (62, q + 1))
             else (97, skip (\<lambda>c. c \<notin> set whitespace \<and> c \<notin> set symbols) s q))
      in (ret, q, eq, skip_white s eq))"

definition peek :: "u8 list \<Rightarrow> nat \<Rightarrow> u8 list \<Rightarrow> bool \<times> nat" where
  "peek s ps toks = (let i = skip_white s ps in (ch s i \<noteq> 0 \<and> ch s i \<in> set toks, i))"

lemma skip_bounds: "i \<le> skip P s i" "i \<le> length s \<Longrightarrow> skip P s i \<le> length s"
proof (induction P s i rule: skip.induct)
  case (1 P s i)
  show "i \<le> skip P s i" "i \<le> length s \<Longrightarrow> skip P s i \<le> length s"
    using 1 by (auto simp: skip.simps [of P s i])
qed

lemma skip_stops: "\<not> (skip P s i < length s \<and> P (s ! skip P s i))"
  by (induction P s i rule: skip.induct) (metis skip.simps)

lemma skip_all: "i \<le> k \<Longrightarrow> k < skip P s i \<Longrightarrow> k < length s \<and> P (s ! k)"
proof (induction P s i rule: skip.induct)
  case (1 P s i)
  then show ?case by (cases "k = i") (auto simp: skip.simps [of P s i] split: if_splits)
qed

lemma skip_same [simp]: "skip P s (skip P s i) = skip P s i"
  by (subst skip.simps) (use skip_stops [of P s i] in auto)

lemma skip_white_same [simp]: "skip_white s (skip_white s i) = skip_white s i"
  by (simp add: skip_white_def)

lemma skip_white_ge: "i \<le> skip_white s i"
  by (simp add: skip_white_def skip_bounds)

lemma word_end:
  assumes "q = skip_white s i" "ch s q \<noteq> 0" "ch s q \<notin> set symbols"
  shows "q < skip (\<lambda>c. c \<notin> set whitespace \<and> c \<notin> set symbols) s q"
proof -
  have q: "q < length s" "s ! q = ch s q" using assms(2) by (auto simp: ch_def split: if_splits)
  moreover have "ch s q \<notin> set whitespace"
    using skip_stops [of "\<lambda>c. c \<in> set whitespace" s i] q assms(1) by (simp add: skip_white_def)
  ultimately have eq: "skip (\<lambda>c. c \<notin> set whitespace \<and> c \<notin> set symbols) s q =
      skip (\<lambda>c. c \<notin> set whitespace \<and> c \<notin> set symbols) s (q + 1)"
    using assms(3) by (subst skip.simps) simp
  have "q + 1 \<le> skip (\<lambda>c. c \<notin> set whitespace \<and> c \<notin> set symbols) s (q + 1)" by (rule skip_bounds)
  then show ?thesis unfolding eq by simp
qed

lemma gettoken_progress:
  assumes "gettoken s i = (k, q, e, j)"
  shows "q = skip_white s i" "j = skip_white s e" "k = 0 \<longleftrightarrow> ch s q = 0" "q \<le> e" "k \<noteq> 0 \<Longrightarrow> q < e" "k = 0 \<Longrightarrow> e = q"
proof -
  note D = assms [unfolded gettoken_def Let_def]
  show q: "q = skip_white s i" using D by (auto split: prod.splits)
  show "j = skip_white s e" using D by (auto split: prod.splits)
  have w: "ch s q \<noteq> 0 \<Longrightarrow> ch s q \<notin> set symbols \<Longrightarrow> q < skip (\<lambda>c. c \<notin> set whitespace \<and> c \<notin> set symbols) s q"
    using word_end [OF q] .
  show "k = 0 \<longleftrightarrow> ch s q = 0" using D q by (auto split: if_splits)
  show "k \<noteq> 0 \<Longrightarrow> q < e" using D q w by (auto simp: symbols_def split: if_splits)
  show "q \<le> e" using D q skip_bounds(1) by (auto split: if_splits)
  show "k = 0 \<Longrightarrow> e = q" using D q by (auto split: if_splits)
qed

lemma gettoken_next:
  assumes "gettoken s i = (k, q, e, j)"
  shows "i \<le> j" "k \<noteq> 0 \<Longrightarrow> i < j" "k \<noteq> 0 \<Longrightarrow> i < length s"
proof -
  note G = gettoken_progress [OF assms]
  have "i \<le> q" "e \<le> j" using G(1,2) skip_white_ge by simp_all
  then show "i \<le> j" "k \<noteq> 0 \<Longrightarrow> i < j" using G(4,5) by auto
  have "q < length s" if "k \<noteq> 0" using that G(3) by (auto simp: ch_def split: if_splits)
  then show "k \<noteq> 0 \<Longrightarrow> i < length s" using \<open>i \<le> q\<close> by simp
qed

lemma peek_next:
  assumes "peek s i ts = (b, j)"
  shows "j = skip_white s i" "i \<le> j" "gettoken s j = gettoken s i" "b \<Longrightarrow> fst (gettoken s i) \<noteq> 0"
    "b \<longleftrightarrow> ch s j \<noteq> 0 \<and> ch s j \<in> set ts"
proof -
  show j: "j = skip_white s i" using assms by (auto simp: peek_def Let_def)
  then show "i \<le> j" by (simp add: skip_white_ge)
  show "gettoken s j = gettoken s i" by (simp add: j gettoken_def)
  show b: "b \<longleftrightarrow> ch s j \<noteq> 0 \<and> ch s j \<in> set ts" using assms by (auto simp: peek_def Let_def)
  show "b \<Longrightarrow> fst (gettoken s i) \<noteq> 0"
    using b j gettoken_progress(1,3) [of s i] by (metis prod.collapse)
qed

subsection \<open>Redirections, background commands and arguments\<close>

text \<open>\<open>O_RDONLY\<close> is 0, \<open>O_WRONLY|O_CREATE\<close> is \<open>0x201\<close>; \<open>>>\<close> opens the file as \<open>>\<close> does.\<close>

definition redir :: "u8 \<Rightarrow> cmd \<Rightarrow> nat \<Rightarrow> nat \<Rightarrow> cmd" where
  "redir tok c q eq =
     (if tok = 60 then REDIR c q eq 0 0
      else if tok = 62 then REDIR c q eq 0x201 1
      else if tok = 43 then REDIR c q eq 0x201 1
      else c)"

function parseredirs :: "cmd \<Rightarrow> u8 list \<Rightarrow> nat \<Rightarrow> string + cmd \<times> nat" where
  "parseredirs c s ps =
     (let (b, i) = peek s ps [60, 62]
      in if b then
           let (tok, _, _, i1) = gettoken s i; (k, q, eq, i2) = gettoken s i1
           in if k \<noteq> 97 then Inl ''missing file for redirection''
              else parseredirs (redir tok c q eq) s i2
         else Inr (c, i))"
  by pat_completeness auto
termination
proof (relation "measure (\<lambda>(c, s, i). length s - i)", goal_cases)
  case (2 c s ps p b i p1 tok r1 x1 r2 x2 i1 p2 k r3 q r4 eq i2)
  then have g: "gettoken s i = (tok, x1, x2, i1)" "gettoken s i1 = (k, q, eq, i2)" and pk: "peek s ps [60, 62] = (b, i)" by simp_all
  have "i \<ge> ps" "i1 \<ge> i" "i2 > i1" "i1 < length s"
    using peek_next(2) [OF pk] gettoken_next [OF g(1)] gettoken_next [OF g(2)] 2 by auto
  then show ?case by simp
qed simp

declare parseredirs.simps [simp del]

text \<open>The loop on \<open>&\<close> in \<open>parseline\<close>.\<close>

function parseback :: "cmd \<Rightarrow> u8 list \<Rightarrow> nat \<Rightarrow> cmd \<times> nat" where
  "parseback c s ps =
     (let (b, i) = peek s ps [38]
      in if b then let (_, _, _, i1) = gettoken s i in parseback (BACK c) s i1 else (c, i))"
  by pat_completeness auto
termination
proof (relation "measure (\<lambda>(c, s, i). length s - i)", goal_cases)
  case (2 c s ps p b i p1 k r1 x1 r2 x2 i1)
  then have g: "gettoken s i = (k, x1, x2, i1)" and pk: "peek s ps [38] = (b, i)" by simp_all
  have "gettoken s ps = (k, x1, x2, i1)" using g unfolding peek_next(3) [OF pk] .
  then have "k \<noteq> 0" using peek_next(4) [OF pk \<open>b\<close>] by simp
  then have "i \<ge> ps" "i1 > i" "i < length s" using peek_next(2) [OF pk] gettoken_next [OF g] by auto
  then show ?case by simp
qed simp

declare parseback.simps [simp del]

text \<open>\<open>cmd->argv[argc] = q\<close>, where \<open>cmd\<close> is the EXEC node that the redirections in \<open>ret\<close> wrap.\<close>

fun add_arg :: "nat \<Rightarrow> nat \<Rightarrow> cmd \<Rightarrow> cmd" where
  "add_arg q eq (EXEC as) = EXEC (as @ [(q, eq)])"
| "add_arg q eq (REDIR c f ef m fd) = REDIR (add_arg q eq c) f ef m fd"
| "add_arg q eq c = c"

lemma parseredirs_step:
  assumes "peek s i [60, 62] = (b, i0)" "gettoken s i = (tok, x1, x2, i1)" "gettoken s i1 = (k, q, eq, i2)"
  shows "parseredirs c s i =
    (if b then if k \<noteq> 97 then Inl ''missing file for redirection'' else parseredirs (redir tok c q eq) s i2 else Inr (c, i0))"
    "b \<Longrightarrow> k \<noteq> 0 \<Longrightarrow> length s - i2 < length s - i" "i \<le> i0" "i \<le> i2"
proof -
  have g: "gettoken s i0 = (tok, x1, x2, i1)" using assms(2) unfolding peek_next(3) [OF assms(1)] .
  then show "parseredirs c s i =
    (if b then if k \<noteq> 97 then Inl ''missing file for redirection'' else parseredirs (redir tok c q eq) s i2 else Inr (c, i0))"
    by (subst parseredirs.simps) (simp add: assms)
  note N = gettoken_next [OF assms(2)] gettoken_next [OF assms(3)]
  show "b \<Longrightarrow> k \<noteq> 0 \<Longrightarrow> length s - i2 < length s - i" using N by auto
  show "i \<le> i0" "i \<le> i2" using N peek_next(2) [OF assms(1)] by auto
qed

lemma parseredirs_ge: "parseredirs c s i = Inr (d, j) \<Longrightarrow> i \<le> j"
proof (induction "length s - i" arbitrary: c i rule: less_induct)
  case less
  obtain b i0 where p: "peek s i [60, 62] = (b, i0)" by fastforce
  obtain tok x1 x2 i1 where g1: "gettoken s i = (tok, x1, x2, i1)" by (metis prod_cases4)
  obtain k q eq i2 where g2: "gettoken s i1 = (k, q, eq, i2)" by (metis prod_cases4)
  note S = parseredirs_step [OF p g1 g2]
  show ?case using less.prems less.hyps [of i2] S(2,3,4) unfolding S(1) by (fastforce split: if_splits)
qed

function parseexec_loop :: "cmd \<Rightarrow> nat \<Rightarrow> u8 list \<Rightarrow> nat \<Rightarrow> string + cmd \<times> nat" where
  "parseexec_loop ret argc s ps =
     (let (b, i) = peek s ps [124, 41, 38, 59]
      in if b then Inr (ret, i)
         else let (tok, q, eq, i1) = gettoken s i
              in if tok = 0 then Inr (ret, i1)
                 else if tok \<noteq> 97 then Inl ''syntax''
                 else if argc + 1 \<ge> 10 then Inl ''too many args''
                 else case parseredirs (add_arg q eq ret) s i1 of
                        Inl e \<Rightarrow> Inl e
                      | Inr (ret1, i2) \<Rightarrow> parseexec_loop ret1 (argc + 1) s i2)"
  by pat_completeness auto
termination
proof (relation "measure (\<lambda>(ret, argc, s, i). length s - i)", goal_cases)
  case (2 ret argc s ps p b i p1 tok r1 q r2 eq i1 p2 ret1 i2)
  then have g: "gettoken s i = (tok, q, eq, i1)" and pk: "peek s ps [124, 41, 38, 59] = (b, i)"
    and r: "parseredirs (add_arg q eq ret) s i1 = Inr (ret1, i2)" by simp_all
  have "i \<ge> ps" "i1 > i" "i < length s" "i2 \<ge> i1"
    using peek_next(2) [OF pk] gettoken_next [OF g] parseredirs_ge [OF r] 2 by auto
  then show ?case by simp
qed simp

declare parseexec_loop.simps [simp del]

subsection \<open>The recursive part\<close>

text \<open>
  The mutually recursive functions take a bound on the depth of calls, and \<open>None\<close> is its end; a
  result is an error or a command with the new position. That the bound \<open>parsecmd\<close> starts
  with is never reached is shown below.
\<close>

type_synonym parse = "(string + cmd \<times> nat) option"

definition bindp :: "parse \<Rightarrow> (cmd \<Rightarrow> nat \<Rightarrow> parse) \<Rightarrow> parse" where
  "bindp r f = (case r of None \<Rightarrow> None | Some (Inl e) \<Rightarrow> Some (Inl e) | Some (Inr (c, i)) \<Rightarrow> f c i)"

fun parseline :: "nat \<Rightarrow> u8 list \<Rightarrow> nat \<Rightarrow> parse"
and parsepipe :: "nat \<Rightarrow> u8 list \<Rightarrow> nat \<Rightarrow> parse"
and parseexec :: "nat \<Rightarrow> u8 list \<Rightarrow> nat \<Rightarrow> parse"
and parseblock :: "nat \<Rightarrow> u8 list \<Rightarrow> nat \<Rightarrow> parse" where
  "parseline 0 s ps = None"
| "parseline (Suc n) s ps =
     bindp (parsepipe n s ps) (\<lambda>c i.
       let (c1, i1) = parseback c s i; (b, i2) = peek s i1 [59]
       in if b then let (_, _, _, i3) = gettoken s i2
                    in bindp (parseline n s i3) (\<lambda>d j. Some (Inr (LIST c1 d, j)))
          else Some (Inr (c1, i2)))"
| "parsepipe 0 s ps = None"
| "parsepipe (Suc n) s ps =
     bindp (parseexec n s ps) (\<lambda>c i.
       let (b, i1) = peek s i [124]
       in if b then let (_, _, _, i2) = gettoken s i1
                    in bindp (parsepipe n s i2) (\<lambda>d j. Some (Inr (PIPE c d, j)))
          else Some (Inr (c, i1)))"
| "parseexec 0 s ps = None"
| "parseexec (Suc n) s ps =
     (let (b, i) = peek s ps [40]
      in if b then parseblock n s i
         else Some (case parseredirs (EXEC []) s i of
                      Inl e \<Rightarrow> Inl e
                    | Inr (ret, i1) \<Rightarrow> parseexec_loop ret 0 s i1))"
| "parseblock 0 s ps = None"
| "parseblock (Suc n) s ps =
     (let (b, i) = peek s ps [40]
      in if \<not> b then Some (Inl ''parseblock'')
         else let (_, _, _, i1) = gettoken s i
              in bindp (parseline n s i1) (\<lambda>c i2.
                   let (b1, i3) = peek s i2 [41]
                   in if \<not> b1 then Some (Inl ''syntax - missing )'')
                      else let (_, _, _, i4) = gettoken s i3 in Some (parseredirs c s i4)))"

text \<open>\<open>nulterminate\<close> on the buffer that holds the line and its NUL.\<close>

fun nulterminate :: "cmd \<Rightarrow> u8 list \<Rightarrow> u8 list" where
  "nulterminate (EXEC as) buf = fold (\<lambda>(q, eq) b. b[eq := 0]) as buf"
| "nulterminate (REDIR c f ef m fd) buf = (nulterminate c buf)[ef := 0]"
| "nulterminate (PIPE l r) buf = nulterminate r (nulterminate l buf)"
| "nulterminate (LIST l r) buf = nulterminate r (nulterminate l buf)"
| "nulterminate (BACK c) buf = nulterminate c buf"

text \<open>The result is the command and the buffer into which its pointers point.\<close>

definition parsecmd :: "u8 list \<Rightarrow> (string + cmd \<times> u8 list) option" where
  "parsecmd s =
     (case parseline (4 * length s + 4) s 0 of
        None \<Rightarrow> None
      | Some (Inl e) \<Rightarrow> Some (Inl e)
      | Some (Inr (c, i)) \<Rightarrow>
          let (_, i1) = peek s i []
          in if i1 \<noteq> length s then Some (Inl ''syntax'') else Some (Inr (c, nulterminate c (s @ [0]))))"

end
