(* ===== verification/Sh_Grammar.thy ===== *)
theory Sh_Grammar
  imports Sh
begin

section \<open>The shell's grammar\<close>

text \<open>
  The language of command lines as an inductive definition on token sequences, and the proof that
  the recursive descent parser accepts exactly this language and builds the commands it
  assigns, on every line and whatever the white space.
\<close>

subsection \<open>Token sequences\<close>

type_synonym tok = "u8 \<times> nat \<times> nat"

function toks :: "u8 list \<Rightarrow> nat \<Rightarrow> tok list" where
  "toks s i = (let (k, q, e, j) = gettoken s i in if k = 0 then [] else (k, q, e) # toks s j)"
  by pat_completeness auto
termination
proof (relation "measure (\<lambda>(s, i). length s - i)", goal_cases)
  case (2 s i p k r1 q r2 e j)
  then have g: "gettoken s i = (k, q, e, j)" by simp
  show ?case using gettoken_next [OF g] 2 by auto
qed simp

declare toks.simps [simp del]

definition stream :: "u8 list \<Rightarrow> nat \<Rightarrow> tok list \<Rightarrow> bool" where
  "stream s i ts \<longleftrightarrow> i \<le> length s \<and> toks s i = ts"

text \<open>The first byte of a token other than a word.\<close>

definition lead :: "u8 \<Rightarrow> u8" where
  "lead k = (if k = 43 then 62 else k)"

lemma gettoken_kind:
  assumes "gettoken s i = (k, q, e, j)"
  shows "k = 97 \<or> k \<in> {0, 124, 40, 41, 59, 38, 60, 62, 43}" "c \<in> set symbols \<Longrightarrow> ch s q = c \<longleftrightarrow> k \<noteq> 0 \<and> lead k = c"
    "i \<le> length s \<Longrightarrow> j \<le> length s"
proof -
  have q: "q = skip_white s i" by (rule gettoken_progress [OF assms])
  show "k = 97 \<or> k \<in> {0, 124, 40, 41, 59, 38, 60, 62, 43}" "c \<in> set symbols \<Longrightarrow> ch s q = c \<longleftrightarrow> k \<noteq> 0 \<and> lead k = c"
    using assms q by (auto simp: gettoken_def Let_def lead_def symbols_def split: if_splits)
  assume "i \<le> length s"
  then have ql: "q \<le> length s" using q by (simp add: skip_white_def skip_bounds)
  have "ch s q \<noteq> 0 \<Longrightarrow> q + 1 \<le> length s" "ch s (q + 1) = 62 \<Longrightarrow> q + 2 \<le> length s" by (auto simp: ch_def split: if_splits)
  then have "e \<le> length s" using assms q ql skip_bounds(2) [OF ql] by (auto simp: gettoken_def Let_def split: if_splits)
  then show "j \<le> length s" using gettoken_progress(2) [OF assms] by (simp add: skip_white_def skip_bounds)
qed

lemma peek_stream:
  assumes "stream s i ts" "peek s i S = (b, j)"
  shows "stream s j ts" "set S \<subseteq> set symbols \<Longrightarrow> b \<longleftrightarrow> ts \<noteq> [] \<and> lead (fst (hd ts)) \<in> set S"
proof -
  note P = peek_next [OF assms(2)]
  have "toks s j = toks s i" by (subst (1 2) toks.simps) (simp add: P(3))
  moreover have "j \<le> length s" using assms(1) P(1) by (simp add: stream_def skip_white_def skip_bounds)
  ultimately show "stream s j ts" using assms(1) by (simp add: stream_def)
  assume S: "set S \<subseteq> set symbols"
  obtain k q e l where g: "gettoken s i = (k, q, e, l)" by (metis prod_cases4)
  have q: "q = j" using gettoken_progress(1) [OF g] P(1) by simp
  have eq: "ch s j = c \<longleftrightarrow> k \<noteq> 0 \<and> lead k = c" if "c \<in> set S" for c
    using gettoken_kind(2) [OF g, of c] that S q by blast
  have "ch s j \<in> set S \<longleftrightarrow> k \<noteq> 0 \<and> lead k \<in> set S" using eq [of "ch s j"] eq [of "lead k"] by auto
  moreover have "ts = (if k = 0 then [] else (k, q, e) # toks s l)"
    using assms(1) g by (simp add: stream_def toks.simps [of s i])
  ultimately show "b \<longleftrightarrow> ts \<noteq> [] \<and> lead (fst (hd ts)) \<in> set S"
    using P(5) gettoken_progress(3) [OF g] q by auto
qed

lemma get_stream:
  assumes "stream s i ts" "gettoken s i = (k, q, e, j)"
  shows "k \<noteq> 0 \<Longrightarrow> ts = (k, q, e) # tl ts" "stream s j (tl ts)" "k = 0 \<longleftrightarrow> ts = []"
    "k = 97 \<or> k \<in> {0, 124, 40, 41, 59, 38, 60, 62, 43}"
proof -
  have t: "ts = (if k = 0 then [] else (k, q, e) # toks s j)"
    using assms by (simp add: stream_def toks.simps [of s i])
  then show "k \<noteq> 0 \<Longrightarrow> ts = (k, q, e) # tl ts" "k = 0 \<longleftrightarrow> ts = []" by (auto split: if_splits)
  show "k = 97 \<or> k \<in> {0, 124, 40, 41, 59, 38, 60, 62, 43}" by (rule gettoken_kind [OF assms(2)])
  have j: "j \<le> length s" using gettoken_kind(3) [OF assms(2)] assms(1) by (simp add: stream_def)
  have "toks s j = []" if k: "k = 0"
  proof -
    have "gettoken s j = gettoken s i"
      using gettoken_progress [OF assms(2)] k by (simp add: gettoken_def)
    then show ?thesis using assms(2) k by (simp add: toks.simps [of s j])
  qed
  then show "stream s j (tl ts)" using t j by (auto simp: stream_def split: if_splits)
qed

lemma length_toks: "length (toks s i) \<le> length s - i"
proof (induction s i rule: toks.induct)
  case (1 s i)
  obtain k q e j where g: "gettoken s i = (k, q, e, j)" by (metis prod_cases4)
  then show ?case using 1 gettoken_next [OF g] by (subst toks.simps) fastforce
qed

subsection \<open>The grammar\<close>

text \<open>Words and redirections in any order; the words, and what each redirection opens.\<close>

inductive simple_g :: "tok list \<Rightarrow> (nat \<times> nat) list \<Rightarrow> (nat \<times> nat \<times> u32 \<times> nat) list \<Rightarrow> bool" where
  s_nil: "simple_g [] [] []"
| s_word: "simple_g ts ws rs \<Longrightarrow> simple_g ((97, q, e) # ts) ((q, e) # ws) rs"
| s_in: "simple_g ts ws rs \<Longrightarrow> simple_g ((60, a, b) # (97, q, e) # ts) ws ((q, e, 0, 0) # rs)"
| s_out: "simple_g ts ws rs \<Longrightarrow> k = 62 \<or> k = 43 \<Longrightarrow> simple_g ((k, a, b) # (97, q, e) # ts) ws ((q, e, 0x201, 1) # rs)"

fun wrap :: "cmd \<Rightarrow> (nat \<times> nat \<times> u32 \<times> nat) list \<Rightarrow> cmd" where
  "wrap c [] = c"
| "wrap c ((q, e, m, fd) # rs) = wrap (REDIR c q e m fd) rs"

inductive line_g :: "tok list \<Rightarrow> cmd \<Rightarrow> bool" and back_g :: "tok list \<Rightarrow> cmd \<Rightarrow> bool"
  and pipe_g :: "tok list \<Rightarrow> cmd \<Rightarrow> bool" and exec_g :: "tok list \<Rightarrow> cmd \<Rightarrow> bool" where
  line_one: "back_g u c \<Longrightarrow> line_g u c"
| line_list: "back_g u c \<Longrightarrow> line_g v d \<Longrightarrow> line_g (u @ (59, a, b) # v) (LIST c d)"
| back_pipe: "pipe_g u c \<Longrightarrow> back_g u c"
| back_amp: "back_g u c \<Longrightarrow> back_g (u @ [(38, a, b)]) (BACK c)"
| pipe_one: "exec_g u c \<Longrightarrow> pipe_g u c"
| pipe_more: "exec_g u c \<Longrightarrow> pipe_g v d \<Longrightarrow> pipe_g (u @ (124, a, b) # v) (PIPE c d)"
| exec_simple: "simple_g u ws rs \<Longrightarrow> length ws < 10 \<Longrightarrow> exec_g u (wrap (EXEC ws) rs)"
| exec_block: "line_g u c \<Longrightarrow> simple_g v [] rs \<Longrightarrow> exec_g ((40, a, b) # u @ (41, x, y) # v) (wrap c rs)"

subsection \<open>Words and redirections\<close>

lemma simple_append: "simple_g u ws rs \<Longrightarrow> simple_g v ws' rs' \<Longrightarrow> simple_g (u @ v) (ws @ ws') (rs @ rs')"
  by (induction rule: simple_g.induct) (auto intro: simple_g.intros simp del: One_nat_def)

lemma wrap_append: "wrap c (rs @ rs') = wrap (wrap c rs) rs'"
  by (induction c rs rule: wrap.induct) auto

lemma add_arg_wrap: "add_arg q e (wrap (EXEC as) rs) = wrap (EXEC (as @ [(q, e)])) rs"
proof (induction rs rule: rev_induct)
  case (snoc r rs)
  then show ?case by (cases r) (simp add: wrap_append)
qed simp

text \<open>Which redirection a token starts, and where a list of them must end.\<close>

definition is_redir :: "tok list \<Rightarrow> bool" where
  "is_redir ts \<longleftrightarrow> ts \<noteq> [] \<and> fst (hd ts) \<in> {60, 62, 43}"

lemma redir_split:
  assumes "simple_g u ws rs"
  obtains r rs1 v rs2 where "u = r @ v" "simple_g r [] rs1" "simple_g v ws rs2" "rs = rs1 @ rs2" "v = [] \<or> fst (hd v) = 97"
proof -
  have "\<exists>r rs1 v rs2. u = r @ v \<and> simple_g r [] rs1 \<and> simple_g v ws rs2 \<and> rs = rs1 @ rs2 \<and> (v = [] \<or> fst (hd v) = 97)"
    using assms
  proof (induction rule: simple_g.induct)
    case s_nil
    then show ?case by (auto intro: simple_g.intros)
  next
    case (s_word ts ws rs q e)
    then have "simple_g ((97, q, e) # ts) ((q, e) # ws) rs" by (blast intro: simple_g.intros)
    then show ?case by (intro exI [of _ "[]"] exI [of _ "(97, q, e) # ts"] exI [of _ rs]) (simp add: simple_g.s_nil)
  next
    case (s_in ts ws rs a b q e)
    then obtain r rs1 v rs2 where "ts = r @ v" "simple_g r [] rs1" "simple_g v ws rs2" "rs = rs1 @ rs2" "v = [] \<or> fst (hd v) = 97" by blast
    then show ?case by (intro exI [of _ "(60, a, b) # (97, q, e) # r"] exI [of _ "(q, e, 0, 0) # rs1"] exI [of _ v] exI [of _ rs2])
      (simp add: simple_g.s_in)
  next
    case (s_out ts ws rs k a b q e)
    then obtain r rs1 v rs2 where "ts = r @ v" "simple_g r [] rs1" "simple_g v ws rs2" "rs = rs1 @ rs2" "v = [] \<or> fst (hd v) = 97" by blast
    then show ?case using s_out.hyps
      by (intro exI [of _ "(k, a, b) # (97, q, e) # r"] exI [of _ "(q, e, 0x201, 1) # rs1"] exI [of _ v] exI [of _ rs2])
        (simp add: simple_g.s_out del: One_nat_def)
  qed
  then show thesis using that by blast
qed

lemma redirs_sound:
  "stream s i ts \<Longrightarrow> parseredirs c s i = Inr (d, j) \<Longrightarrow>
     \<exists>u v rs. ts = u @ v \<and> stream s j v \<and> simple_g u [] rs \<and> d = wrap c rs \<and> \<not> is_redir v"
proof (induction "length s - i" arbitrary: c i ts rule: less_induct)
  case less
  obtain b i0 where p: "peek s i [60, 62] = (b, i0)" by fastforce
  obtain k0 x1 x2 i1 where g1: "gettoken s i = (k0, x1, x2, i1)" by (metis prod_cases4)
  obtain k q e i2 where g2: "gettoken s i1 = (k, q, e, i2)" by (metis prod_cases4)
  note S = parseredirs_step [OF p g1 g2] and P = peek_stream [OF less.prems(1) p]
  note G1 = get_stream [OF less.prems(1) g1] and G2 = get_stream [OF get_stream(2) [OF less.prems(1) g1] g2]
  have b: "b \<longleftrightarrow> is_redir ts"
    using P(2) G1(4) G1(1,3) by (cases ts) (auto simp: symbols_def is_redir_def lead_def)
  show ?case
  proof (cases b)
    case False
    then have "d = c" "j = i0" using less.prems(2) unfolding S(1) by simp_all
    then show ?thesis using P(1) False b by (intro exI [of _ "[]"] exI [of _ ts]) (simp add: simple_g.s_nil)
  next
    case True
    then have k: "k = 97" and r: "parseredirs (redir k0 c q e) s i2 = Inr (d, j)"
      using less.prems(2) unfolding S(1) by (simp_all split: if_splits)
    from less.hyps [OF S(2) [OF True] G2(2) r] k obtain u v rs where
      u: "tl (tl ts) = u @ v" "stream s j v" "simple_g u [] rs" "d = wrap (redir k0 c q e) rs" "\<not> is_redir v" by auto
    have nz: "k0 \<noteq> 0" using G1(3) True b by (auto simp: is_redir_def)
    have ts: "ts = (k0, x1, x2) # (97, q, e) # u @ v" using G1(1) [OF nz] G2(1) k u(1) by simp
    then have "k0 \<in> {60, 62, 43}" using True b by (simp add: is_redir_def)
    then consider "k0 = 60" | "k0 = 62 \<or> k0 = 43" by blast
    then show ?thesis
    proof cases
      case 1
      then show ?thesis using ts u(2-5)
        by (intro exI [of _ "(60, x1, x2) # (97, q, e) # u"] exI [of _ v] exI [of _ "(q, e, 0, 0) # rs"])
          (simp add: simple_g.s_in redir_def)
    next
      case 2
      then have "redir k0 c q e = REDIR c q e 0x201 1" by (auto simp: redir_def)
      then show ?thesis using ts u(2-5) simple_g.s_out [OF u(3) 2]
        by (intro exI [of _ "(k0, x1, x2) # (97, q, e) # u"] exI [of _ v] exI [of _ "(q, e, 0x201, 1) # rs"])
          (simp del: One_nat_def)
    qed
  qed
qed

lemma redir_token:
  assumes "stream s i ((k0, a, b) # (97, q, e) # ts)" "k0 \<in> {60, 62, 43}"
  obtains i2 where "parseredirs c s i = parseredirs (redir k0 c q e) s i2" "stream s i2 ts"
proof -
  obtain p0 i0 where p: "peek s i [60, 62] = (p0, i0)" by fastforce
  obtain k1 x1 x2 i1 where g1: "gettoken s i = (k1, x1, x2, i1)" by (metis prod_cases4)
  obtain k q' e' i2 where g2: "gettoken s i1 = (k, q', e', i2)" by (metis prod_cases4)
  note P = peek_stream(2) [OF assms(1) p] and G1 = get_stream [OF assms(1) g1]
  have "k1 = k0" using G1(1,3) by auto
  note G2 = get_stream [OF G1(2) g2]
  have "k = 97" "q' = q" "e' = e" using G2(1,3) by auto
  moreover have p0 using P assms(2) by (auto simp: symbols_def lead_def)
  ultimately show thesis using that [of i2] parseredirs_step(1) [OF p g1 g2, of c] G2(2) \<open>k1 = k0\<close> by simp
qed

lemma redirs_complete:
  assumes "simple_g u ws rs" "ws = []" "\<not> is_redir v"
  shows "stream s i (u @ v) \<Longrightarrow> \<exists>j. parseredirs c s i = Inr (wrap c rs, j) \<and> stream s j v"
  using assms
proof (induction arbitrary: c i rule: simple_g.induct)
  case s_nil
  obtain b i0 where p: "peek s i [60, 62] = (b, i0)" by fastforce
  obtain k0 x1 x2 i1 where g1: "gettoken s i = (k0, x1, x2, i1)" by (metis prod_cases4)
  obtain k q e i2 where g2: "gettoken s i1 = (k, q, e, i2)" by (metis prod_cases4)
  note P = peek_stream [OF s_nil(1) p] and G1 = get_stream [OF s_nil(1) g1]
  have "b \<longleftrightarrow> is_redir v" using P(2) G1(4) G1(1,3) by (cases v) (auto simp: symbols_def is_redir_def lead_def)
  then show ?case using parseredirs_step(1) [OF p g1 g2] P(1) s_nil by simp
next
  case (s_in ts ws rs a b q e)
  have st: "stream s i ((60, a, b) # (97, q, e) # ts @ v)" using s_in.prems(1) by simp
  obtain i2 where "parseredirs c s i = parseredirs (redir 60 c q e) s i2" "stream s i2 (ts @ v)"
    by (rule redir_token [OF st]) simp
  then show ?case using s_in.IH [OF _ s_in.prems(2,3), of i2 "redir 60 c q e"] by (simp add: redir_def)
next
  case (s_out ts ws rs k a b q e)
  have st: "stream s i ((k, a, b) # (97, q, e) # ts @ v)" using s_out.prems(1) by simp
  obtain i2 where "parseredirs c s i = parseredirs (redir k c q e) s i2" "stream s i2 (ts @ v)"
    by (rule redir_token [OF st]) (use s_out.hyps(2) in auto)
  moreover have "redir k c q e = REDIR c q e 0x201 1" using s_out.hyps(2) by (auto simp: redir_def)
  ultimately show ?case using s_out.IH [OF _ s_out.prems(2,3), of i2 "redir k c q e"] by simp
qed simp

text \<open>The end of the arguments: the end of the line or one of \<open>|)&;\<close>.\<close>

definition ends_args :: "tok list \<Rightarrow> bool" where
  "ends_args ts \<longleftrightarrow> ts = [] \<or> fst (hd ts) \<in> {124, 41, 38, 59}"

lemma parseexec_step:
  assumes st: "stream s i ts" and p: "peek s i [124, 41, 38, 59] = (b, i0)" and g: "gettoken s i = (k, q, e, i1)"
  shows "parseexec_loop ret n s i =
    (if b then Inr (ret, i0) else if k = 0 then Inr (ret, i1) else if k \<noteq> 97 then Inl ''syntax''
     else if n + 1 \<ge> 10 then Inl ''too many args''
     else case parseredirs (add_arg q e ret) s i1 of
            Inl x \<Rightarrow> Inl x | Inr (ret1, i2) \<Rightarrow> parseexec_loop ret1 (n + 1) s i2)"
    "b \<or> k = 0 \<longleftrightarrow> ends_args ts" "k \<noteq> 0 \<Longrightarrow> length s - i1 < length s - i"
proof -
  have "gettoken s i0 = (k, q, e, i1)" using g unfolding peek_next(3) [OF p] .
  then show "parseexec_loop ret n s i =
    (if b then Inr (ret, i0) else if k = 0 then Inr (ret, i1) else if k \<noteq> 97 then Inl ''syntax''
     else if n + 1 \<ge> 10 then Inl ''too many args''
     else case parseredirs (add_arg q e ret) s i1 of
            Inl x \<Rightarrow> Inl x | Inr (ret1, i2) \<Rightarrow> parseexec_loop ret1 (n + 1) s i2)"
    by (subst parseexec_loop.simps) (simp add: p)
  note G = get_stream [OF st g]
  show "b \<or> k = 0 \<longleftrightarrow> ends_args ts"
    using peek_stream(2) [OF st p] G(1,3,4) by (cases ts) (auto simp: symbols_def ends_args_def lead_def)
  show "k \<noteq> 0 \<Longrightarrow> length s - i1 < length s - i" using gettoken_next [OF g] by auto
qed

lemma args_sound:
  "stream s i ts \<Longrightarrow> \<not> is_redir ts \<Longrightarrow> length as < 10 \<Longrightarrow> parseexec_loop (wrap (EXEC as) rs0) (length as) s i = Inr (d, j) \<Longrightarrow>
     \<exists>u v ws rs. ts = u @ v \<and> stream s j v \<and> simple_g u ws rs \<and> d = wrap (EXEC (as @ ws)) (rs0 @ rs) \<and> length (as @ ws) < 10"
proof (induction "length s - i" arbitrary: as rs0 i ts rule: less_induct)
  case less
  obtain b i0 where p: "peek s i [124, 41, 38, 59] = (b, i0)" by fastforce
  obtain k q e i1 where g: "gettoken s i = (k, q, e, i1)" by (metis prod_cases4)
  note S = parseexec_step [OF less.prems(1) p g] and G = get_stream [OF less.prems(1) g] and P = peek_stream(1) [OF less.prems(1) p]
  show ?case
  proof (cases "ends_args ts")
    case True
    then have "b \<or> k = 0" using S(2) by simp
    then have "d = wrap (EXEC as) rs0" "stream s j ts"
      using less.prems(4) P G(2,3) unfolding S(1) by (auto split: if_splits)
    then show ?thesis using less.prems(3) by (intro exI [of _ "[]"] exI [of _ ts]) (simp add: simple_g.s_nil)
  next
    case False
    then have b: "\<not> b" "k \<noteq> 0" using S(2) by auto
    then obtain ret1 i2 where r: "k = 97" "length as + 1 < 10" "parseredirs (add_arg q e (wrap (EXEC as) rs0)) s i1 = Inr (ret1, i2)"
        "parseexec_loop ret1 (length as + 1) s i2 = Inr (d, j)"
      using less.prems(4) unfolding S(1) by (auto split: if_splits sum.splits)
    from redirs_sound [OF G(2) r(3)] obtain u v rs where
      u: "tl ts = u @ v" "stream s i2 v" "simple_g u [] rs" "ret1 = wrap (wrap (EXEC (as @ [(q, e)])) rs0) rs" "\<not> is_redir v"
      unfolding add_arg_wrap by blast
    have "length s - i2 < length s - i" using S(3) [OF b(2)] parseredirs_ge [OF r(3)] by simp
    from less.hyps [OF this u(2,5), of "as @ [(q, e)]" "rs0 @ rs"] r u(4) obtain u' v' ws rs' where
      w: "v = u' @ v'" "stream s j v'" "simple_g u' ws rs'" "d = wrap (EXEC ((as @ [(q, e)]) @ ws)) ((rs0 @ rs) @ rs')"
        "length ((as @ [(q, e)]) @ ws) < 10"
      by (auto simp: wrap_append)
    have "simple_g ((97, q, e) # u @ u') ((q, e) # ws) (rs @ rs')"
      using simple_g.s_word [OF simple_append [OF u(3) w(3)]] by simp
    moreover have "ts = ((97, q, e) # u @ u') @ v'" using G(1) [OF b(2)] r(1) u(1) w(1) by simp
    moreover have "d = wrap (EXEC (as @ (q, e) # ws)) (rs0 @ rs @ rs')" using w(4) by simp
    moreover have "length (as @ (q, e) # ws) < 10" using w(5) by simp
    ultimately show ?thesis using w(2) by blast
  qed
qed

lemma args_complete:
  "simple_g u ws rs \<Longrightarrow> u = [] \<or> fst (hd u) = 97 \<Longrightarrow> ends_args v \<Longrightarrow> stream s i (u @ v) \<Longrightarrow> length (as @ ws) < 10 \<Longrightarrow>
     \<exists>j. parseexec_loop (wrap (EXEC as) rs0) (length as) s i = Inr (wrap (EXEC (as @ ws)) (rs0 @ rs), j) \<and> stream s j v"
proof (induction "length ws" arbitrary: u ws rs as rs0 i)
  case 0
  have "u = []" using 0(2,1,3) by (cases rule: simple_g.cases) auto
  moreover from this have "rs = []" "ws = []" using 0(2) by (auto elim: simple_g.cases)
  moreover obtain b i0 where p: "peek s i [124, 41, 38, 59] = (b, i0)" by fastforce
  obtain k q e i1 where g: "gettoken s i = (k, q, e, i1)" by (metis prod_cases4)
  have st: "stream s i v" using 0(5) \<open>u = []\<close> by simp
  note S = parseexec_step [OF st p g] and G = get_stream [OF st g]
  have "b \<or> k = 0" using S(2) 0(4) by simp
  ultimately show ?case using S(1) peek_stream(1) [OF st p] G(2,3) by auto
next
  case (Suc n)
  from Suc.prems(1,2) Suc.hyps(2) obtain q e ts ws' where u: "u = (97, q, e) # ts" "ws = (q, e) # ws'" "simple_g ts ws' rs"
    by (cases rule: simple_g.cases) auto
  from redir_split [OF u(3)] obtain r rs1 u' rs2 where
    r: "ts = r @ u'" "simple_g r [] rs1" "simple_g u' ws' rs2" "rs = rs1 @ rs2" "u' = [] \<or> fst (hd u') = 97" .
  obtain b i0 where p: "peek s i [124, 41, 38, 59] = (b, i0)" by fastforce
  obtain k q' e' i1 where g: "gettoken s i = (k, q', e', i1)" by (metis prod_cases4)
  note S = parseexec_step [OF Suc.prems(4) p g] and G = get_stream [OF Suc.prems(4) g]
  have k: "k = 97" "q' = q" "e' = e" using G(1,3) u(1) by auto
  have b: "\<not> b" using S(2) k u(1) by (auto simp: ends_args_def)
  have st: "stream s i1 (r @ u' @ v)" using G(2) u(1) r(1) by simp
  have "\<not> is_redir (u' @ v)" using r(5) Suc.prems(3) by (cases u') (auto simp: is_redir_def ends_args_def)
  from redirs_complete [OF r(2) refl this st, of "wrap (EXEC (as @ [(q, e)])) rs0"] obtain i2 where
    i2: "parseredirs (wrap (EXEC (as @ [(q, e)])) rs0) s i1 = Inr (wrap (wrap (EXEC (as @ [(q, e)])) rs0) rs1, i2)" "stream s i2 (u' @ v)"
    by blast
  have "n = length ws'" "length ((as @ [(q, e)]) @ ws') < 10" using Suc.hyps(2) Suc.prems(5) u(2) by simp_all
  from Suc.hyps(1) [OF this(1) r(3,5) Suc.prems(3) i2(2) this(2), of "rs0 @ rs1"] obtain j where
    j: "parseexec_loop (wrap (EXEC (as @ [(q, e)])) (rs0 @ rs1)) (Suc (length as)) s i2 =
        Inr (wrap (EXEC ((as @ [(q, e)]) @ ws')) ((rs0 @ rs1) @ rs2), j)" "stream s j v" by auto
  have "parseexec_loop (wrap (EXEC as) rs0) (length as) s i = parseexec_loop (wrap (EXEC (as @ [(q, e)])) (rs0 @ rs1)) (Suc (length as)) s i2"
    unfolding S(1) using b k i2(1) Suc.prems(5) u(2) by (simp add: add_arg_wrap wrap_append)
  then show ?case using j u(2) r(4) by auto
qed

subsection \<open>Background commands\<close>

lemma parseback_step:
  assumes st: "stream s i ts" and p: "peek s i [38] = (b, i0)" and g: "gettoken s i = (k, q, e, i1)"
  shows "parseback c s i = (if b then parseback (BACK c) s i1 else (c, i0))" "b \<longleftrightarrow> ts \<noteq> [] \<and> fst (hd ts) = 38"
    "b \<Longrightarrow> length s - i1 < length s - i"
proof -
  have "gettoken s i0 = (k, q, e, i1)" using g unfolding peek_next(3) [OF p] .
  then show "parseback c s i = (if b then parseback (BACK c) s i1 else (c, i0))"
    by (subst parseback.simps) (simp add: p)
  show b: "b \<longleftrightarrow> ts \<noteq> [] \<and> fst (hd ts) = 38" using peek_stream(2) [OF st p] by (auto simp: symbols_def lead_def)
  show "b \<Longrightarrow> length s - i1 < length s - i" using b get_stream(3) [OF st g] gettoken_next [OF g] by auto
qed

lemma back_sound:
  "stream s i ts \<Longrightarrow> parseback c s i = (d, j) \<Longrightarrow>
     \<exists>u v. ts = u @ v \<and> stream s j v \<and> (\<forall>t \<in> set u. fst t = 38) \<and> d = (BACK ^^ length u) c \<and> (v = [] \<or> fst (hd v) \<noteq> 38)"
proof (induction "length s - i" arbitrary: c i ts rule: less_induct)
  case less
  obtain b i0 where p: "peek s i [38] = (b, i0)" by fastforce
  obtain k q e i1 where g: "gettoken s i = (k, q, e, i1)" by (metis prod_cases4)
  note S = parseback_step [OF less.prems(1) p g] and G = get_stream [OF less.prems(1) g] and P = peek_stream(1) [OF less.prems(1) p]
  show ?case
  proof (cases b)
    case False
    then show ?thesis using less.prems(2) P S(2) unfolding S(1) by (intro exI [of _ "[]"] exI [of _ ts]) auto
  next
    case True
    then have "parseback (BACK c) s i1 = (d, j)" using less.prems(2) unfolding S(1) by simp
    from less.hyps [OF S(3) [OF True] G(2) this] obtain u v where
      u: "tl ts = u @ v" "stream s j v" "\<forall>t \<in> set u. fst t = 38" "d = (BACK ^^ length u) (BACK c)" "v = [] \<or> fst (hd v) \<noteq> 38" by blast
    have "ts = (hd ts # u) @ v" "fst (hd ts) = 38" using True S(2) u(1) by (cases ts; auto)+
    then show ?thesis using u by (intro exI [of _ "hd ts # u"] exI [of _ v]) (simp add: funpow_swap1)
  qed
qed

lemma back_complete:
  "stream s i (u @ v) \<Longrightarrow> \<forall>t \<in> set u. fst t = 38 \<Longrightarrow> v = [] \<or> fst (hd v) \<noteq> 38 \<Longrightarrow>
     \<exists>j. parseback c s i = ((BACK ^^ length u) c, j) \<and> stream s j v"
proof (induction u arbitrary: c i)
  case Nil
  obtain b i0 where p: "peek s i [38] = (b, i0)" by fastforce
  obtain k q e i1 where g: "gettoken s i = (k, q, e, i1)" by (metis prod_cases4)
  have st: "stream s i v" using Nil by simp
  show ?case using parseback_step(1,2) [OF st p g] peek_stream(1) [OF st p] Nil(3) by auto
next
  case (Cons t u)
  obtain b i0 where p: "peek s i [38] = (b, i0)" by fastforce
  obtain k q e i1 where g: "gettoken s i = (k, q, e, i1)" by (metis prod_cases4)
  note S = parseback_step(1,2) [OF Cons.prems(1) p g] and G = get_stream [OF Cons.prems(1) g]
  have "stream s i1 (u @ v)" using G(2) by simp
  from Cons.IH [OF this, of "BACK c"] Cons.prems(2,3) obtain j where
    "parseback (BACK c) s i1 = ((BACK ^^ length u) (BACK c), j)" "stream s j v" by auto
  then show ?case using S Cons.prems(2) by (simp add: funpow_swap1)
qed

lemma backs_g: "pipe_g u c \<Longrightarrow> \<forall>t \<in> set v. fst t = 38 \<Longrightarrow> back_g (u @ v) ((BACK ^^ length v) c)"
proof (induction v rule: rev_induct)
  case Nil
  then show ?case by (simp add: back_pipe)
next
  case (snoc t v)
  then have "back_g ((u @ v) @ [(38, fst (snd t), snd (snd t))]) (BACK ((BACK ^^ length v) c))" by (intro back_amp) auto
  moreover have "t = (38, fst (snd t), snd (snd t))" using snoc.prems(2) by (cases t) simp
  ultimately show ?case by simp
qed

subsection \<open>Everything the parser accepts is in the grammar\<close>

lemma bindp_Inr: "bindp r f = Some (Inr x) \<longleftrightarrow> (\<exists>c i. r = Some (Inr (c, i)) \<and> f c i = Some (Inr x))"
  by (auto simp: bindp_def split: option.splits sum.splits)

text \<open>\<open>G\<close> describes what the result of a parser consumes and builds.\<close>

definition accepts :: "(tok list \<Rightarrow> cmd \<Rightarrow> bool) \<Rightarrow> parse \<Rightarrow> u8 list \<Rightarrow> tok list \<Rightarrow> bool" where
  "accepts G r s ts \<longleftrightarrow> (\<forall>c j. r = Some (Inr (c, j)) \<longrightarrow> (\<exists>u v. ts = u @ v \<and> stream s j v \<and> G u c))"

lemma line_sound:
  assumes st: "stream s i ts" and P: "accepts pipe_g (parsepipe n s i) s ts"
    and L: "\<And>i ts. stream s i ts \<Longrightarrow> accepts line_g (parseline n s i) s ts"
  shows "accepts line_g (parseline (Suc n) s i) s ts"
  unfolding accepts_def
proof (intro allI impI)
  fix c j assume "parseline (Suc n) s i = Some (Inr (c, j))"
  then obtain c0 i0 where 0: "parsepipe n s i = Some (Inr (c0, i0))"
    and r: "(let (c1, i1) = parseback c0 s i0; (b, i2) = peek s i1 [59]
       in if b then let (_, _, _, i3) = gettoken s i2
                    in bindp (parseline n s i3) (\<lambda>d j. Some (Inr (LIST c1 d, j)))
          else Some (Inr (c1, i2))) = Some (Inr (c, j))"
    by (auto simp: bindp_Inr)
  obtain u0 v0 where u0: "ts = u0 @ v0" "stream s i0 v0" "pipe_g u0 c0" using P 0 by (auto simp: accepts_def)
  obtain c1 i1 where b: "parseback c0 s i0 = (c1, i1)" by fastforce
  from back_sound [OF u0(2) b] obtain u1 v1 where
    u1: "v0 = u1 @ v1" "stream s i1 v1" "\<forall>t \<in> set u1. fst t = 38" "c1 = (BACK ^^ length u1) c0" by blast
  have B: "back_g (u0 @ u1) c1" using backs_g [OF u0(3) u1(3)] u1(4) by simp
  obtain bb i2 where p: "peek s i1 [59] = (bb, i2)" by fastforce
  note PS = peek_stream [OF u1(2) p]
  show "\<exists>u v. ts = u @ v \<and> stream s j v \<and> line_g u c"
  proof (cases bb)
    case False
    then have "c = c1" "j = i2" using r b p by simp_all
    then show ?thesis using u0(1) u1(1) PS(1) line_one [OF B] by (intro exI [of _ "u0 @ u1"] exI [of _ v1]) simp
  next
    case True
    obtain k q e i3 where g: "gettoken s i2 = (k, q, e, i3)" by (metis prod_cases4)
    from r b p g True obtain d where d: "parseline n s i3 = Some (Inr (d, j))" "c = LIST c1 d"
      by (auto simp: bindp_Inr)
    note G = get_stream [OF PS(1) g]
    have "v1 \<noteq> []" "lead (fst (hd v1)) = 59" using PS(2) True by (auto simp: symbols_def)
    then have v1: "v1 = (59, q, e) # tl v1" using G(1,3) by (cases v1) (auto simp: lead_def split: if_splits)
    from L [OF G(2)] d(1) obtain u2 v2 where u2: "tl v1 = u2 @ v2" "stream s j v2" "line_g u2 d" by (auto simp: accepts_def)
    have "ts = ((u0 @ u1) @ (59, q, e) # u2) @ v2" using u0(1) u1(1) v1 u2(1) by simp
    then show ?thesis using line_list [OF B u2(3)] u2(2) d(2) by blast
  qed
qed

lemma pipe_sound:
  assumes E: "accepts exec_g (parseexec n s i) s ts"
    and P: "\<And>i ts. stream s i ts \<Longrightarrow> accepts pipe_g (parsepipe n s i) s ts"
  shows "accepts pipe_g (parsepipe (Suc n) s i) s ts"
  unfolding accepts_def
proof (intro allI impI)
  fix c j assume "parsepipe (Suc n) s i = Some (Inr (c, j))"
  then obtain c0 i0 where 0: "parseexec n s i = Some (Inr (c0, i0))"
    and r: "(let (b, i1) = peek s i0 [124]
       in if b then let (_, _, _, i2) = gettoken s i1
                    in bindp (parsepipe n s i2) (\<lambda>d j. Some (Inr (PIPE c0 d, j)))
          else Some (Inr (c0, i1))) = Some (Inr (c, j))"
    by (auto simp: bindp_Inr)
  obtain u0 v0 where u0: "ts = u0 @ v0" "stream s i0 v0" "exec_g u0 c0" using E 0 by (auto simp: accepts_def)
  obtain b i1 where p: "peek s i0 [124] = (b, i1)" by fastforce
  note PS = peek_stream [OF u0(2) p]
  show "\<exists>u v. ts = u @ v \<and> stream s j v \<and> pipe_g u c"
  proof (cases b)
    case False
    then have "c = c0" "j = i1" using r p by simp_all
    then show ?thesis using u0(1) PS(1) pipe_one [OF u0(3)] by blast
  next
    case True
    obtain k q e i2 where g: "gettoken s i1 = (k, q, e, i2)" by (metis prod_cases4)
    from r p g True obtain d where d: "parsepipe n s i2 = Some (Inr (d, j))" "c = PIPE c0 d" by (auto simp: bindp_Inr)
    note G = get_stream [OF PS(1) g]
    have "v0 \<noteq> []" "lead (fst (hd v0)) = 124" using PS(2) True by (auto simp: symbols_def)
    then have v0: "v0 = (124, q, e) # tl v0" using G(1,3) by (cases v0) (auto simp: lead_def split: if_splits)
    from P [OF G(2)] d(1) obtain u1 v1 where u1: "tl v0 = u1 @ v1" "stream s j v1" "pipe_g u1 d" by (auto simp: accepts_def)
    have "ts = (u0 @ (124, q, e) # u1) @ v1" using u0(1) v0 u1(1) by simp
    then show ?thesis using pipe_more [OF u0(3) u1(3)] u1(2) d(2) by blast
  qed
qed

lemma block_sound:
  assumes st: "stream s i ts" and L: "\<And>i ts. stream s i ts \<Longrightarrow> accepts line_g (parseline n s i) s ts"
  shows "accepts exec_g (parseblock (Suc n) s i) s ts"
  unfolding accepts_def
proof (intro allI impI)
  fix c j assume e: "parseblock (Suc n) s i = Some (Inr (c, j))"
  obtain b i0 where p: "peek s i [40] = (b, i0)" by fastforce
  obtain k q x i1 where g: "gettoken s i0 = (k, q, x, i1)" by (metis prod_cases4)
  have b using e p by (auto split: if_splits)
  note PS = peek_stream [OF st p] and G = get_stream [OF peek_stream(1) [OF st p] g]
  have "ts \<noteq> []" "lead (fst (hd ts)) = 40" using PS(2) \<open>b\<close> by (auto simp: symbols_def)
  then have ts: "ts = (40, q, x) # tl ts" using G(1,3) by (cases ts) (auto simp: lead_def split: if_splits)
  from e p g \<open>b\<close> obtain c0 i2 where 0: "parseline n s i1 = Some (Inr (c0, i2))"
    and r: "(let (b1, i3) = peek s i2 [41]
             in if \<not> b1 then Some (Inl ''syntax - missing )'')
                else let (_, _, _, i4) = gettoken s i3 in Some (parseredirs c0 s i4)) = Some (Inr (c, j))"
    by (auto simp: bindp_Inr)
  from L [OF G(2)] 0 obtain u v where u: "tl ts = u @ v" "stream s i2 v" "line_g u c0" by (auto simp: accepts_def)
  obtain b1 i3 where p1: "peek s i2 [41] = (b1, i3)" by fastforce
  obtain k' q' x' i4 where g1: "gettoken s i3 = (k', q', x', i4)" by (metis prod_cases4)
  have b1 and pr: "parseredirs c0 s i4 = Inr (c, j)" using r p1 g1 by (auto split: if_splits)
  note PS1 = peek_stream [OF u(2) p1] and G1 = get_stream [OF peek_stream(1) [OF u(2) p1] g1]
  have "v \<noteq> []" "lead (fst (hd v)) = 41" using PS1(2) \<open>b1\<close> by (auto simp: symbols_def)
  then have v: "v = (41, q', x') # tl v" using G1(1,3) by (cases v) (auto simp: lead_def split: if_splits)
  from redirs_sound [OF G1(2) pr] obtain u' v' rs where
    w: "tl v = u' @ v'" "stream s j v'" "simple_g u' [] rs" "c = wrap c0 rs" by blast
  have "ts = ((40, q, x) # u @ (41, q', x') # u') @ v'" using ts u(1) v w(1) by simp
  then show "\<exists>u v. ts = u @ v \<and> stream s j v \<and> exec_g u c" using exec_block [OF u(3) w(3)] w(2,4) by blast
qed

lemma exec_sound:
  assumes st: "stream s i ts" and B: "\<And>i ts. stream s i ts \<Longrightarrow> accepts exec_g (parseblock n s i) s ts"
  shows "accepts exec_g (parseexec (Suc n) s i) s ts"
proof -
  obtain b i0 where p: "peek s i [40] = (b, i0)" by fastforce
  note PS = peek_stream(1) [OF st p]
  show ?thesis
  proof (cases b)
    case True
    then show ?thesis using B [OF PS] p by simp
  next
    case False
    show ?thesis unfolding accepts_def
    proof (intro allI impI)
      fix c j assume "parseexec (Suc n) s i = Some (Inr (c, j))"
      then obtain ret i1 where r: "parseredirs (EXEC []) s i0 = Inr (ret, i1)" "parseexec_loop ret 0 s i1 = Inr (c, j)"
        using p False by (auto split: sum.splits)
      from redirs_sound [OF PS r(1)] obtain u v rs where
        u: "ts = u @ v" "stream s i1 v" "simple_g u [] rs" "ret = wrap (EXEC []) rs" "\<not> is_redir v" by blast
      have "parseexec_loop (wrap (EXEC []) rs) (length ([] :: (nat \<times> nat) list)) s i1 = Inr (c, j)" using r(2) u(4) by simp
      from args_sound [OF u(2,5) _ this] obtain u' v' ws rs' where
        w: "v = u' @ v'" "stream s j v'" "simple_g u' ws rs'" "c = wrap (EXEC ws) (rs @ rs')" "length ws < 10" by auto
      have "exec_g (u @ u') c" using exec_simple [OF simple_append [OF u(3) w(3)]] w(4,5) by simp
      then show "\<exists>u v. ts = u @ v \<and> stream s j v \<and> exec_g u c" using u(1) w(1,2) by (intro exI [of _ "u @ u'"] exI [of _ v']) simp
    qed
  qed
qed

lemma parse_sound:
  "stream s i ts \<Longrightarrow> accepts line_g (parseline n s i) s ts \<and> accepts pipe_g (parsepipe n s i) s ts \<and>
     accepts exec_g (parseexec n s i) s ts \<and> accepts exec_g (parseblock n s i) s ts"
proof (induction n arbitrary: i ts)
  case 0
  then show ?case by (simp add: accepts_def)
next
  case (Suc n)
  show ?case
    using line_sound [OF Suc.prems, of n] pipe_sound [of n s i ts] exec_sound [OF Suc.prems, of n] block_sound [OF Suc.prems, of n]
      Suc.IH Suc.IH [OF Suc.prems] by blast
qed

subsection \<open>Everything in the grammar is accepted\<close>

text \<open>
  A bound of \<open>4 * length ts + 4\<close> calls is enough for a line of the tokens \<open>ts\<close>. What may follow a
  line is its end or a closing parenthesis.
\<close>

definition follow :: "u8 set \<Rightarrow> tok list \<Rightarrow> bool" where
  "follow K v \<longleftrightarrow> v = [] \<or> fst (hd v) \<in> K"

definition parses :: "(nat \<Rightarrow> u8 list \<Rightarrow> nat \<Rightarrow> parse) \<Rightarrow> nat \<Rightarrow> u8 set \<Rightarrow> tok list \<Rightarrow> cmd \<Rightarrow> bool" where
  "parses p m K u c \<longleftrightarrow> (\<forall>s i v n. stream s i (u @ v) \<longrightarrow> follow K v \<longrightarrow> 4 * length u + m \<le> n \<longrightarrow>
     (\<exists>j. p n s i = Some (Inr (c, j)) \<and> stream s j v))"

definition parses_back :: "tok list \<Rightarrow> cmd \<Rightarrow> bool" where
  "parses_back u c \<longleftrightarrow> (\<exists>u0 u1 c0. u = u0 @ u1 \<and> (\<forall>t \<in> set u1. fst t = 38) \<and> c = (BACK ^^ length u1) c0 \<and>
     parses parsepipe 3 {41, 38, 59} u0 c0)"

lemma peek_token:
  assumes "stream s i v" "K \<in> set symbols" "K \<noteq> 62"
  obtains i1 where "peek s i [K] = (v \<noteq> [] \<and> fst (hd v) = K, i1)" "stream s i1 v"
proof -
  obtain b i1 where p: "peek s i [K] = (b, i1)" by fastforce
  have "b \<longleftrightarrow> v \<noteq> [] \<and> fst (hd v) = K"
    using peek_stream(2) [OF assms(1) p] assms(2,3) by (auto simp: lead_def symbols_def split: if_splits)
  then show thesis using that [of i1] p peek_stream(1) [OF assms(1) p] by simp
qed

lemma take_token:
  assumes "stream s i ((k, q, e) # v)" "k \<noteq> 0"
  obtains i1 where "gettoken s i = (k, q, e, i1)" "stream s i1 v"
proof -
  obtain k' q' e' i1 where g: "gettoken s i = (k', q', e', i1)" by (metis prod_cases4)
  show thesis using that [of i1] get_stream [OF assms(1) g] g by auto
qed

lemma bindp_simps [simp]: "bindp (Some (Inr (c, i))) f = f c i" "bindp None f = None" "bindp (Some (Inl e)) f = Some (Inl e)"
  by (simp_all add: bindp_def)

lemma parsesD:
  assumes "parses p m K u c" "stream s i (u @ v)" "follow K v" "4 * length u + m \<le> n"
  obtains j where "p n s i = Some (Inr (c, j))" "stream s j v"
  using assms unfolding parses_def by blast

lemma back_parts:
  assumes P: "parses_back u c" and st: "stream s i (u @ v)" and f: "follow {41, 59} v" and n: "4 * length u + 3 \<le> n"
  obtains c0 i0 i1 where "parsepipe n s i = Some (Inr (c0, i0))" "parseback c0 s i0 = (c, i1)" "stream s i1 v"
proof -
  obtain u0 u1 c0 where u: "u = u0 @ u1" "\<forall>t \<in> set u1. fst t = 38" "c = (BACK ^^ length u1) c0" "parses parsepipe 3 {41, 38, 59} u0 c0"
    using P by (auto simp: parses_back_def)
  have st': "stream s i (u0 @ u1 @ v)" using st u(1) by simp
  have f': "follow {41, 38, 59} (u1 @ v)" using f u(2) by (cases u1) (auto simp: follow_def)
  have n': "4 * length u0 + 3 \<le> n" using n u(1) by simp
  obtain i0 where i0: "parsepipe n s i = Some (Inr (c0, i0))" "stream s i0 (u1 @ v)"
    by (rule parsesD [OF u(4) st' f' n'])
  have "v = [] \<or> fst (hd v) \<noteq> 38" using f by (auto simp: follow_def)
  from back_complete [OF i0(2) u(2) this, of c0] show thesis using that i0(1) u(3) by auto
qed

lemma line_one_complete: "parses_back u c \<Longrightarrow> parses parseline 4 {41} u c"
  unfolding parses_def
proof (intro allI impI)
  fix s i v n assume B: "parses_back u c" and st: "stream s i (u @ v)" and f: "follow {41} v" and n: "4 * length u + 4 \<le> n"
  then obtain m where m: "n = Suc m" "4 * length u + 3 \<le> m" by (cases n) auto
  have "follow {41, 59} v" using f by (auto simp: follow_def)
  then obtain c0 i0 i1 where b: "parsepipe m s i = Some (Inr (c0, i0))" "parseback c0 s i0 = (c, i1)" "stream s i1 v"
    using back_parts [OF B st _ m(2)] by blast
  obtain i2 where "peek s i1 [59] = (v \<noteq> [] \<and> fst (hd v) = 59, i2)" "stream s i2 v"
    by (rule peek_token [OF b(3), of 59]) (simp_all add: symbols_def)
  then show "\<exists>j. parseline n s i = Some (Inr (c, j)) \<and> stream s j v" using b f m(1) by (auto simp: follow_def)
qed

lemma line_list_complete:
  assumes B: "parses_back u c" and L: "parses parseline 4 {41} w d"
  shows "parses parseline 4 {41} (u @ (59, a, b) # w) (LIST c d)"
  unfolding parses_def
proof (intro allI impI)
  fix s i v n assume st: "stream s i ((u @ (59, a, b) # w) @ v)" and f: "follow {41} v" and n: "4 * length (u @ (59, a, b) # w) + 4 \<le> n"
  then obtain m where m: "n = Suc m" "4 * length u + 3 \<le> m" "4 * length w + 4 \<le> m" by (cases n) auto
  have st': "stream s i (u @ (59, a, b) # w @ v)" using st by simp
  have "follow {41, 59} ((59, a, b) # w @ v)" by (simp add: follow_def)
  then obtain c0 i0 i1 where p: "parsepipe m s i = Some (Inr (c0, i0))" "parseback c0 s i0 = (c, i1)" "stream s i1 ((59, a, b) # w @ v)"
    using back_parts [OF B st' _ m(2)] by blast
  obtain i2 where i2: "peek s i1 [59] = (True, i2)" "stream s i2 ((59, a, b) # w @ v)"
    by (rule peek_token [OF p(3), of 59]) (simp_all add: symbols_def)
  obtain i3 where i3: "gettoken s i2 = (59, a, b, i3)" "stream s i3 (w @ v)" by (rule take_token [OF i2(2)]) simp
  obtain j where "parseline m s i3 = Some (Inr (d, j))" "stream s j v" by (rule parsesD [OF L i3(2) f m(3)])
  then show "\<exists>j. parseline n s i = Some (Inr (LIST c d, j)) \<and> stream s j v" using p i2(1) i3(1) m(1) by auto
qed

lemma pipe_one_complete: "parses parseexec 2 {41, 38, 59, 124} u c \<Longrightarrow> parses parsepipe 3 {41, 38, 59} u c"
  unfolding parses_def [of parsepipe]
proof (intro allI impI)
  fix s i v n assume E: "parses parseexec 2 {41, 38, 59, 124} u c" and st: "stream s i (u @ v)" and f: "follow {41, 38, 59} v" and n: "4 * length u + 3 \<le> n"
  then obtain m where m: "n = Suc m" "4 * length u + 2 \<le> m" by (cases n) auto
  have f': "follow {41, 38, 59, 124} v" using f by (auto simp: follow_def)
  obtain i0 where i0: "parseexec m s i = Some (Inr (c, i0))" "stream s i0 v" by (rule parsesD [OF E st f' m(2)])
  obtain i1 where "peek s i0 [124] = (v \<noteq> [] \<and> fst (hd v) = 124, i1)" "stream s i1 v"
    by (rule peek_token [OF i0(2), of 124]) (simp_all add: symbols_def)
  then show "\<exists>j. parsepipe n s i = Some (Inr (c, j)) \<and> stream s j v" using i0 f m(1) by (auto simp: follow_def)
qed

lemma pipe_more_complete:
  assumes E: "parses parseexec 2 {41, 38, 59, 124} u c" and P: "parses parsepipe 3 {41, 38, 59} w d"
  shows "parses parsepipe 3 {41, 38, 59} (u @ (124, a, b) # w) (PIPE c d)"
  unfolding parses_def
proof (intro allI impI)
  fix s i v n assume st: "stream s i ((u @ (124, a, b) # w) @ v)" and f: "follow {41, 38, 59} v" and n: "4 * length (u @ (124, a, b) # w) + 3 \<le> n"
  then obtain m where m: "n = Suc m" "4 * length u + 2 \<le> m" "4 * length w + 3 \<le> m" by (cases n) auto
  have st': "stream s i (u @ (124, a, b) # w @ v)" using st by simp
  have f': "follow {41, 38, 59, 124} ((124, a, b) # w @ v)" by (simp add: follow_def)
  obtain i0 where i0: "parseexec m s i = Some (Inr (c, i0))" "stream s i0 ((124, a, b) # w @ v)" by (rule parsesD [OF E st' f' m(2)])
  obtain i2 where i2: "peek s i0 [124] = (True, i2)" "stream s i2 ((124, a, b) # w @ v)"
    by (rule peek_token [OF i0(2), of 124]) (simp_all add: symbols_def)
  obtain i3 where i3: "gettoken s i2 = (124, a, b, i3)" "stream s i3 (w @ v)" by (rule take_token [OF i2(2)]) simp
  obtain j where "parsepipe m s i3 = Some (Inr (d, j))" "stream s j v" by (rule parsesD [OF P i3(2) f m(3)])
  then show "\<exists>j. parsepipe n s i = Some (Inr (PIPE c d, j)) \<and> stream s j v" using i0(1) i2(1) i3(1) m(1) by auto
qed

lemma simple_head: "simple_g u ws rs \<Longrightarrow> u = [] \<or> fst (hd u) \<in> {97, 60, 62, 43}"
  by (erule simple_g.cases) auto

lemma exec_simple_complete:
  assumes sg: "simple_g u ws rs" and len: "length ws < 10"
  shows "parses parseexec 2 {41, 38, 59, 124} u (wrap (EXEC ws) rs)"
  unfolding parses_def
proof (intro allI impI)
  fix s i v n assume st: "stream s i (u @ v)" and f: "follow {41, 38, 59, 124} v" and n: "4 * length u + 2 \<le> n"
  then obtain m where m: "n = Suc m" by (cases n) auto
  obtain i0 where "peek s i [40] = (u @ v \<noteq> [] \<and> fst (hd (u @ v)) = 40, i0)" and i0: "stream s i0 (u @ v)"
    by (rule peek_token [OF st, of 40]) (simp_all add: symbols_def)
  moreover have "\<not> (u @ v \<noteq> [] \<and> fst (hd (u @ v)) = 40)"
    using simple_head [OF sg] f by (cases u) (auto simp: follow_def)
  ultimately have p: "peek s i [40] = (False, i0)" by simp
  from redir_split [OF sg] obtain r rs1 w rs2 where
    r: "u = r @ w" "simple_g r [] rs1" "simple_g w ws rs2" "rs = rs1 @ rs2" "w = [] \<or> fst (hd w) = 97" .
  have nr: "\<not> is_redir (w @ v)" using r(5) f by (cases w) (auto simp: is_redir_def follow_def)
  have "stream s i0 (r @ w @ v)" using i0 r(1) by simp
  from redirs_complete [OF r(2) refl nr this, of "EXEC []"] obtain i1 where
    i1: "parseredirs (EXEC []) s i0 = Inr (wrap (EXEC []) rs1, i1)" "stream s i1 (w @ v)" by blast
  have "ends_args v" using f by (auto simp: follow_def ends_args_def)
  from args_complete [OF r(3,5) this i1(2), of "[]" rs1] len obtain j where
    "parseexec_loop (wrap (EXEC []) rs1) 0 s i1 = Inr (wrap (EXEC ws) (rs1 @ rs2), j)" "stream s j v" by auto
  then show "\<exists>j. parseexec n s i = Some (Inr (wrap (EXEC ws) rs, j)) \<and> stream s j v" using m p i1(1) r(4) by auto
qed

lemma exec_block_complete:
  assumes L: "parses parseline 4 {41} u c" and sg: "simple_g w [] rs"
  shows "parses parseexec 2 {41, 38, 59, 124} ((40, a, b) # u @ (41, x, y) # w) (wrap c rs)"
  unfolding parses_def
proof (intro allI impI)
  fix s i v n assume st: "stream s i (((40, a, b) # u @ (41, x, y) # w) @ v)" and f: "follow {41, 38, 59, 124} v"
    and n: "4 * length ((40, a, b) # u @ (41, x, y) # w) + 2 \<le> n"
  then obtain m where m: "n = Suc (Suc m)" "4 * length u + 4 \<le> m" by (cases n; cases "n - 1") auto
  let ?ts = "(40, a, b) # u @ (41, x, y) # w @ v"
  have st': "stream s i ?ts" using st by simp
  obtain i0 where i0: "peek s i [40] = (True, i0)" "stream s i0 ?ts"
    by (rule peek_token [OF st', of 40]) (simp_all add: symbols_def)
  obtain i1 where i1: "peek s i0 [40] = (True, i1)" "stream s i1 ?ts"
    by (rule peek_token [OF i0(2), of 40]) (simp_all add: symbols_def)
  obtain i2 where i2: "gettoken s i1 = (40, a, b, i2)" "stream s i2 (u @ (41, x, y) # w @ v)" by (rule take_token [OF i1(2)]) simp
  have "follow {41} ((41, x, y) # w @ v)" by (simp add: follow_def)
  then obtain i3 where i3: "parseline m s i2 = Some (Inr (c, i3))" "stream s i3 ((41, x, y) # w @ v)"
    using parsesD [OF L i2(2) _ m(2)] by blast
  obtain i4 where i4: "peek s i3 [41] = (True, i4)" "stream s i4 ((41, x, y) # w @ v)"
    by (rule peek_token [OF i3(2), of 41]) (simp_all add: symbols_def)
  obtain i5 where i5: "gettoken s i4 = (41, x, y, i5)" "stream s i5 (w @ v)" by (rule take_token [OF i4(2)]) simp
  have "\<not> is_redir v" using f by (auto simp: is_redir_def follow_def)
  from redirs_complete [OF sg refl this i5(2), of c] obtain j where
    "parseredirs c s i5 = Inr (wrap c rs, j)" "stream s j v" by blast
  then show "\<exists>j. parseexec n s i = Some (Inr (wrap c rs, j)) \<and> stream s j v"
    using m(1) i0(1) i1(1) i2(1) i3(1) i4(1) i5(1) by auto
qed

lemma parse_complete:
  "line_g u c \<Longrightarrow> parses parseline 4 {41} u c"
  "back_g u c \<Longrightarrow> parses_back u c"
  "pipe_g u c \<Longrightarrow> parses parsepipe 3 {41, 38, 59} u c"
  "exec_g u c \<Longrightarrow> parses parseexec 2 {41, 38, 59, 124} u c"
proof (induction rule: line_g_back_g_pipe_g_exec_g.inducts)
  case (back_pipe u c)
  then show ?case unfolding parses_back_def by (intro exI [of _ u] exI [of _ "[]"] exI [of _ c]) simp
next
  case (back_amp u c a b)
  then obtain u0 u1 c0 where "u = u0 @ u1" "\<forall>t \<in> set u1. fst t = 38" "c = (BACK ^^ length u1) c0" "parses parsepipe 3 {41, 38, 59} u0 c0"
    by (auto simp: parses_back_def)
  then show ?case unfolding parses_back_def by (intro exI [of _ u0] exI [of _ "u1 @ [(38, a, b)]"] exI [of _ c0]) auto
qed (simp_all add: line_one_complete line_list_complete pipe_one_complete pipe_more_complete exec_simple_complete exec_block_complete)

subsection \<open>The bound on the calls is enough\<close>

lemma bindp_total: "r \<noteq> None \<Longrightarrow> (\<And>c i. r = Some (Inr (c, i)) \<Longrightarrow> f c i \<noteq> None) \<Longrightarrow> bindp r f \<noteq> None"
  by (auto simp: bindp_def split: option.splits sum.splits)

lemma bindp_None: "bindp r f = None \<longleftrightarrow> r = None \<or> (\<exists>c i. r = Some (Inr (c, i)) \<and> f c i = None)"
  by (auto simp: bindp_def split: option.splits sum.splits)

lemma parse_total:
  assumes "stream s i ts"
  shows "(4 * length ts + 4 \<le> n \<longrightarrow> parseline n s i \<noteq> None) \<and> (4 * length ts + 3 \<le> n \<longrightarrow> parsepipe n s i \<noteq> None) \<and>
    (4 * length ts + 2 \<le> n \<longrightarrow> parseexec n s i \<noteq> None) \<and> (4 * length ts + 1 \<le> n \<longrightarrow> parseblock n s i \<noteq> None)"
  using assms
proof (induction n arbitrary: i ts)
  case (Suc n)
  note IH = Suc.IH and sd = parse_sound
  have line: "parseline (Suc n) s i \<noteq> None" if le: "4 * length ts + 4 \<le> Suc n"
  proof -
    have "parsepipe n s i \<noteq> None" using IH [OF Suc.prems] le by simp
    then show ?thesis unfolding parseline.simps
    proof (rule bindp_total)
      fix c i0 assume "parsepipe n s i = Some (Inr (c, i0))"
      then obtain u v where v: "ts = u @ v" "stream s i0 v" using sd [OF Suc.prems, of n] by (auto simp: accepts_def)
      obtain c1 i1 where b: "parseback c s i0 = (c1, i1)" by fastforce
      from back_sound [OF v(2) b] obtain u1 v1 where v1: "v = u1 @ v1" "stream s i1 v1" by blast
      obtain i2 where i2: "peek s i1 [59] = (v1 \<noteq> [] \<and> fst (hd v1) = 59, i2)" "stream s i2 v1"
        by (rule peek_token [OF v1(2), of 59]) (simp_all add: symbols_def)
      obtain k q e i3 where g: "gettoken s i2 = (k, q, e, i3)" by (metis prod_cases4)
      have "parseline n s i3 \<noteq> None" if "v1 \<noteq> []"
        using IH [OF get_stream(2) [OF i2(2) g]] le that v(1) v1(1) by (cases v1) auto
      then show "(let (c1, i1) = parseback c s i0; (b, i2) = peek s i1 [59]
         in if b then let (_, _, _, i3) = gettoken s i2 in bindp (parseline n s i3) (\<lambda>d j. Some (Inr (LIST c1 d, j)))
            else Some (Inr (c1, i2))) \<noteq> None"
        using b i2(1) g by (auto simp: bindp_None simp del: not_None_eq)
    qed
  qed
  have pipe: "parsepipe (Suc n) s i \<noteq> None" if le: "4 * length ts + 3 \<le> Suc n"
  proof -
    have "parseexec n s i \<noteq> None" using IH [OF Suc.prems] le by simp
    then show ?thesis unfolding parsepipe.simps
    proof (rule bindp_total)
      fix c i0 assume "parseexec n s i = Some (Inr (c, i0))"
      then obtain u v where v: "ts = u @ v" "stream s i0 v" using sd [OF Suc.prems, of n] by (auto simp: accepts_def)
      obtain i1 where i1: "peek s i0 [124] = (v \<noteq> [] \<and> fst (hd v) = 124, i1)" "stream s i1 v"
        by (rule peek_token [OF v(2), of 124]) (simp_all add: symbols_def)
      obtain k q e i2 where g: "gettoken s i1 = (k, q, e, i2)" by (metis prod_cases4)
      have "parsepipe n s i2 \<noteq> None" if "v \<noteq> []"
        using IH [OF get_stream(2) [OF i1(2) g]] le that v(1) by (cases v) auto
      then show "(let (b, i1) = peek s i0 [124]
         in if b then let (_, _, _, i2) = gettoken s i1 in bindp (parsepipe n s i2) (\<lambda>d j. Some (Inr (PIPE c d, j)))
            else Some (Inr (c, i1))) \<noteq> None"
        using i1(1) g by (auto simp: bindp_None simp del: not_None_eq)
    qed
  qed
  obtain i0 where i0: "peek s i [40] = (ts \<noteq> [] \<and> fst (hd ts) = 40, i0)" "stream s i0 ts"
    by (rule peek_token [OF Suc.prems, of 40]) (simp_all add: symbols_def)
  obtain k q e i1 where g: "gettoken s i0 = (k, q, e, i1)" by (metis prod_cases4)
  have exec: "parseexec (Suc n) s i \<noteq> None" if "4 * length ts + 2 \<le> Suc n"
    using IH [OF i0(2)] that i0(1) by simp
  have "parseline n s i1 \<noteq> None" if "4 * length ts + 1 \<le> Suc n" "ts \<noteq> []"
    using IH [OF get_stream(2) [OF i0(2) g]] that by (cases ts) auto
  then have block: "parseblock (Suc n) s i \<noteq> None" if "4 * length ts + 1 \<le> Suc n"
    using that i0(1) g by (auto simp: bindp_None Let_def simp del: not_None_eq split: prod.splits)
  show ?case using line pipe exec block by blast
qed simp

text \<open>
  (C14) The parser terminates: \<open>parsecmd\<close> returns a command or a syntax error for every line, the
  bound on the depth of its calls is never reached.
\<close>

theorem parsecmd_returns: "\<exists>r. parsecmd s = Some r"
proof -
  have st: "stream s 0 (toks s 0)" by (simp add: stream_def)
  have "4 * length (toks s 0) + 4 \<le> 4 * length s + 4" using length_toks [of s 0] by simp
  then have "parseline (4 * length s + 4) s 0 \<noteq> None" using parse_total [OF st] by blast
  then show ?thesis by (auto simp: parsecmd_def split: option.splits sum.splits prod.splits)
qed

lemma peek_end:
  assumes "0 \<notin> set s" "stream s i v"
  shows "snd (peek s i []) = length s \<longleftrightarrow> v = []"
proof -
  obtain k q e j where g: "gettoken s i = (k, q, e, j)" by (metis prod_cases4)
  have "skip_white s i \<le> length s" using assms(2) by (simp add: stream_def skip_white_def skip_bounds)
  then have "ch s (skip_white s i) = 0 \<longleftrightarrow> skip_white s i = length s" using assms(1) by (auto simp: ch_def in_set_conv_nth)
  then show ?thesis using get_stream(3) [OF assms(2) g] gettoken_progress(1,3) [OF g] by (simp add: peek_def Let_def)
qed

lemma parsecmd_sound:
  assumes nz: "0 \<notin> set s" and a: "parsecmd s = Some (Inr (c, buf))"
  shows "line_g (toks s 0) c" "buf = nulterminate c (s @ [0])"
proof -
  have st: "stream s 0 (toks s 0)" by (simp add: stream_def)
  from a obtain i where i: "parseline (4 * length s + 4) s 0 = Some (Inr (c, i))" "snd (peek s i []) = length s"
    and b: "buf = nulterminate c (s @ [0])"
    by (auto simp: parsecmd_def Let_def split: option.splits sum.splits prod.splits if_splits)
  from parse_sound [OF st, of "4 * length s + 4"] i(1)
  obtain u v where u: "toks s 0 = u @ v" "stream s i v" "line_g u c" by (auto simp: accepts_def)
  then show "line_g (toks s 0) c" using peek_end [OF nz u(2)] i(2) by simp
  show "buf = nulterminate c (s @ [0])" by (rule b)
qed

lemma parsecmd_complete:
  assumes nz: "0 \<notin> set s" and a: "line_g (toks s 0) c"
  shows "parsecmd s = Some (Inr (c, nulterminate c (s @ [0])))"
proof -
  let ?n = "4 * length s + 4"
  note P = parse_complete(1) [OF a]
  have st: "stream s 0 (toks s 0 @ [])" and f: "follow {41} []" and n: "4 * length (toks s 0) + 4 \<le> ?n"
    using length_toks [of s 0] by (simp_all add: follow_def stream_def)
  obtain j where j: "parseline ?n s 0 = Some (Inr (c, j))" "stream s j []" by (rule parsesD [OF P st f n])
  then show ?thesis using peek_end [OF nz j(2)] by (auto simp: parsecmd_def split: prod.splits)
qed

text \<open>The line \<open>a |b>c\<close>.\<close>

lemma demo_line:
  "line_g (toks [97, 32, 124, 98, 62, 99] 0) (PIPE (EXEC [(0, 1)]) (REDIR (EXEC [(3, 4)]) 5 6 0x201 1))"
proof -
  let ?s = "[97, 32, 124, 98, 62, 99] :: u8 list"
  have t: "toks ?s 0 = [(97, 0, 1)] @ (124, 2, 3) # [(97, 3, 4), (62, 4, 5), (97, 5, 6)]"
    by (simp add: toks.simps gettoken_def skip_white_def skip.simps ch_def whitespace_def symbols_def)
  have "exec_g [(97, 0, 1)] (wrap (EXEC [(0, 1)]) [])"
    by (intro exec_simple simple_g.intros) simp
  moreover have "exec_g [(97, 3, 4), (62, 4, 5), (97, 5, 6)] (wrap (EXEC [(3, 4)]) [(5, 6, 0x201, 1)])"
    by (intro exec_simple simple_g.intros) simp_all
  ultimately show ?thesis
    unfolding t by (intro line_one back_pipe pipe_more) (simp_all add: pipe_one)
qed

text \<open>
  (C13) The parser accepts exactly the grammar: for a line without NUL bytes, \<open>parsecmd\<close> returns the
  command \<open>c\<close> if and only if the tokens of the line are a line of the grammar with the meaning
  \<open>c\<close>. In particular the grammar is unambiguous, white space between tokens is irrelevant, and
  every other line is reported as an error.
\<close>

theorem parsecmd_correct:
  assumes "0 \<notin> set s"
  shows "(\<exists>buf. parsecmd s = Some (Inr (c, buf))) \<longleftrightarrow> line_g (toks s 0) c"
  using parsecmd_sound(1) [OF assms] parsecmd_complete [OF assms] by blast

theorem parsecmd_correct_witness:
  "\<exists>buf. parsecmd [97, 32, 124, 98, 62, 99] = Some (Inr (PIPE (EXEC [(0, 1)]) (REDIR (EXEC [(3, 4)]) 5 6 0x201 1), buf))"
  using parsecmd_correct [of "[97, 32, 124, 98, 62, 99]"] demo_line by simp

subsection \<open>The strings of a command\<close>

text \<open>The pairs of pointers in a command.\<close>

fun spans :: "cmd \<Rightarrow> (nat \<times> nat) list" where
  "spans (EXEC as) = as"
| "spans (REDIR c q e m fd) = (q, e) # spans c"
| "spans (PIPE l r) = spans l @ spans r"
| "spans (LIST l r) = spans l @ spans r"
| "spans (BACK c) = spans c"

definition word_at :: "u8 list \<Rightarrow> nat \<Rightarrow> nat \<Rightarrow> bool" where
  "word_at s q e \<longleftrightarrow> q < e \<and> e \<le> length s \<and> (\<forall>k. q \<le> k \<and> k < e \<longrightarrow> s ! k \<notin> set whitespace \<union> set symbols) \<and>
     (e < length s \<longrightarrow> s ! e \<in> set whitespace \<union> set symbols)"

lemma gettoken_word:
  assumes g: "gettoken s i = (97, q, e, j)" and i: "i \<le> length s"
  shows "word_at s q e"
proof -
  let ?P = "\<lambda>c. c \<notin> set whitespace \<and> c \<notin> set symbols"
  have q: "q = skip_white s i" by (rule gettoken_progress [OF g])
  then have ql: "q \<le> length s" using i by (simp add: skip_white_def skip_bounds)
  have e: "e = skip ?P s q" using g q by (auto simp: gettoken_def Let_def split: if_splits)
  have "q < e" using gettoken_progress(5) [OF g] by simp
  moreover have "e \<le> length s" using e skip_bounds(2) [OF ql] by simp
  moreover have "s ! k \<notin> set whitespace \<union> set symbols" if "q \<le> k" "k < e" for k
    using skip_all [of q k ?P s] that e by simp
  moreover have "s ! e \<in> set whitespace \<union> set symbols" if "e < length s" using skip_stops [of ?P s q] that e by simp
  ultimately show ?thesis by (simp add: word_at_def)
qed

lemma toks_words: "i \<le> length s \<Longrightarrow> (97, q, e) \<in> set (toks s i) \<Longrightarrow> word_at s q e"
proof (induction s i rule: toks.induct)
  case (1 s i)
  obtain k q' e' j where g: "gettoken s i = (k, q', e', j)" by (metis prod_cases4)
  have "j \<le> length s" using gettoken_kind(3) [OF g 1(2)] .
  then show ?case using 1 g gettoken_word [of s i q e j]
    by (subst (asm) (2) toks.simps) (auto split: if_splits)
qed

lemma spans_wrap: "set (spans (wrap c rs)) = set (spans c) \<union> (\<lambda>(q, e, m, fd). (q, e)) ` set rs"
  by (induction c rs rule: wrap.induct) auto

lemma simple_words:
  "simple_g u ws rs \<Longrightarrow> (\<forall>(q, e) \<in> set ws. (97, q, e) \<in> set u) \<and> (\<forall>(q, e, m, fd) \<in> set rs. (97, q, e) \<in> set u)"
  by (induction rule: simple_g.induct) auto

lemma grammar_words:
  "line_g u c \<Longrightarrow> \<forall>(q, e) \<in> set (spans c). (97, q, e) \<in> set u"
  "back_g u c \<Longrightarrow> \<forall>(q, e) \<in> set (spans c). (97, q, e) \<in> set u"
  "pipe_g u c \<Longrightarrow> \<forall>(q, e) \<in> set (spans c). (97, q, e) \<in> set u"
  "exec_g u c \<Longrightarrow> \<forall>(q, e) \<in> set (spans c). (97, q, e) \<in> set u"
proof (induction rule: line_g_back_g_pipe_g_exec_g.inducts)
  case (exec_simple u ws rs)
  then show ?case using simple_words [OF exec_simple(1)] by (auto simp: spans_wrap)
next
  case (exec_block u c v rs a b x y)
  then show ?case using simple_words [OF exec_block(2)] by (auto simp: spans_wrap)
qed auto

text \<open>\<open>nulterminate\<close> stores a NUL at the end of each pair and changes nothing else.\<close>

lemma nul_ends:
  "length (nulterminate c buf) = length buf \<and> (k < length buf \<longrightarrow> nulterminate c buf ! k = (if k \<in> snd ` set (spans c) then 0 else buf ! k))"
proof (induction c arbitrary: buf)
  case (EXEC as)
  show ?case
  proof (induction as arbitrary: buf)
    case (Cons a as)
    then show ?case by (cases a) (auto simp: nth_list_update)
  qed simp
next
  case (REDIR c q e m fd)
  have "length (nulterminate c buf) = length buf" using REDIR by blast
  then show ?case using REDIR [of buf] by (cases "k = e") simp_all
qed auto

definition cstring :: "u8 list \<Rightarrow> nat \<Rightarrow> u8 list" where
  "cstring buf q = takeWhile (\<lambda>b. b \<noteq> 0) (drop q buf)"

text \<open>
  (C15) The strings that \<open>runcmd\<close> passes to \<open>exec\<close> and \<open>open\<close> are the words of the line: after
  \<open>nulterminate\<close>, the C string at every pointer of the parsed command (arguments and file names)
  is exactly the text of its token, although all of them share one buffer.
\<close>

theorem nulterminate_strings:
  assumes p: "parsecmd s = Some (Inr (c, buf))" and nz: "0 \<notin> set s" and sp: "(q, e) \<in> set (spans c)"
  shows "q < e \<and> e \<le> length s \<and> cstring buf q = take (e - q) (drop q s)"
proof -
  let ?b = "nulterminate c (s @ [0])"
  from grammar_words(1) [OF parsecmd_sound(1) [OF nz p]] have w: "word_at s q' e'" if "(q', e') \<in> set (spans c)" for q' e'
    using that by (intro toks_words [of 0]) auto
  note W = w [OF sp, unfolded word_at_def]
  have len: "length ?b = length s + 1" and at: "?b ! k = (if k \<in> snd ` set (spans c) then 0 else (s @ [0]) ! k)" if "k \<le> length s" for k
    using nul_ends [of c "s @ [0]" k] that by auto
  have mid: "?b ! k = s ! k" "s ! k \<noteq> 0" if k: "q \<le> k" "k < e" for k
  proof -
    have kl: "k < length s" using k W by auto
    have "k \<notin> snd ` set (spans c)"
    proof
      assume "k \<in> snd ` set (spans c)"
      then obtain q' where "(q', k) \<in> set (spans c)" by auto
      then have "s ! k \<in> set whitespace \<union> set symbols" using w kl by (auto simp: word_at_def)
      then show False using W k by auto
    qed
    then show "?b ! k = s ! k" using at [of k] kl by (simp add: nth_append)
    show "s ! k \<noteq> 0" using nz kl by (metis nth_mem)
  qed
  have "?b ! e = 0" using at [of e] W sp by force
  moreover have "drop q ?b = take (e - q) (drop q ?b) @ ?b ! e # drop (Suc e) ?b"
  proof -
    have "e - q < length (drop q ?b)" using W len [of 0] by auto
    from id_take_nth_drop [OF this] show ?thesis using W len [of 0] by auto
  qed
  moreover have "take (e - q) (drop q ?b) = take (e - q) (drop q s)"
    using W len [of 0] mid by (intro nth_equalityI) auto
  moreover have "takeWhile (\<lambda>b. b \<noteq> 0) (take (e - q) (drop q s) @ 0 # drop (Suc e) ?b) = take (e - q) (drop q s)"
  proof -
    have "x \<noteq> 0" if "x \<in> set (take (e - q) (drop q s))" for x
      using that nz by (metis in_set_dropD in_set_takeD)
    then show ?thesis by (subst takeWhile_append2) auto
  qed
  ultimately show ?thesis using W unfolding cstring_def parsecmd_sound(2) [OF nz p] by metis
qed

theorem nulterminate_strings_witness:
  "cstring (nulterminate (PIPE (EXEC [(0, 1)]) (REDIR (EXEC [(3, 4)]) 5 6 0x201 1)) ([97, 32, 124, 98, 62, 99] @ [0])) 3 = [98]"
  using nulterminate_strings [OF parsecmd_complete [OF _ demo_line], of 3 4] by simp

end
