(* ===== verification/Spec2Isabelle.thy ===== *)
theory Spec2Isabelle
  imports Mem_Props Str Locks Log_Crash Fs_File Syscall Demand Life Fork_Wmap Faults Fs_Dir Grep Sh_Grammar
begin

text \<open>
  A verification library for the xv6 kernel under src/xv6-public, with its lazy memory mappings
  (\<open>wmap\<close>, \<open>wunmap\<close>) and its copy-on-write \<open>fork\<close>, and for two of its user programs.

  \<^bold>\<open>The program and its model.\<close> Kernel code is a function from a state to an outcome of the type
  \<open>res\<close> (theory \<open>Xv6_Prelude\<close>): it returns, it gives up the processor, it calls \<open>panic\<close>, or a loop
  never ends. The state has three layers, each a record that the next one extends or contains:

  \<^item> \<open>mm\<close>, physical memory with the page allocator (theories \<open>Layout\<close>, \<open>Kalloc\<close>: kalloc.c, mmu.h,
    memlayout.h). Free-list links and page tables are words of the memory, as in the code; reference
    counts have 8 bits and wrap around.
  \<^item> \<open>fsys\<close>, the disk and all that the kernel holds in memory about it: buffer cache and disk
    (\<open>Bio\<close>: bio.c, buf.h, \<open>iderw\<close> of ide.c), log (\<open>Log\<close>: log.c), block and inode allocation, inode cache
    and file contents (\<open>Fs\<close>: fs.c, fs.h), directories and paths (\<open>Dir\<close>: fs.c), and the console
    (\<open>Console\<close>: console.c), which is a device file.
  \<^item> \<open>kernel\<close> (\<open>Kernel\<close>: proc.h, x86.h, wmap.h) extends \<open>mm\<close> by an \<open>fsys\<close>, the open-file table, the pipes and
    the process table. On it work \<open>File\<close> and \<open>Fileio\<close> (file.c), \<open>Wmap\<close> (the mappings and page-fault
    handlers of proc.c), \<open>Proc\<close> (the rest of proc.c), \<open>Exec\<close> (exec.c), \<open>Sysfile\<close> (sysfile.c, the argument
    fetching of syscall.c) and \<open>Syscall\<close> (sysproc.c, \<open>syscall\<close>, \<open>trap\<close> of trap.c).

  Page tables (\<open>Vm\<close>: vm.c) work on any extension of \<open>mm\<close>. Components with a small state of their own
  are \<open>Locks\<close> (spinlock.c on several processors), \<open>Sleeplock\<close> (sleeplock.c), \<open>Pipe\<close> (pipe.c), \<open>Str\<close>
  (string.c and the routines of ulib.c, on a byte memory), \<open>Bytes\<close> (the fields of on-disk structures
  as bytes of a block), \<open>Grep\<close> (grep.c) and \<open>Sh\<close> (the parser of sh.c).

  A definition has the name of the C function it models; \<open>f_loop\<close> is a loop of \<open>f\<close>, and a helper
  is a slice of the function that the manifest names. A pointer to a table entry is the index
  of the entry, a null pointer is \<open>None\<close> or 0, and a \<open>goto\<close> label is a function of its own. Integers keep
  their width where they can wrap around. The assembled program \<open>initcode\<close>, the bytes that devices
  deliver and the data of \<open>read\<close> in grep are arguments.

  \<^bold>\<open>What the lemmas show.\<close>

  \<^item> \<open>Log_Crash\<close>: the disk writes of a commit are recorded in order. If the machine stops after any
    number of them, recovery gives either the old contents or all blocks of the transaction, and
    recovery may itself be interrupted and restarted. A trace where the reservation of \<open>begin_op\<close>
    does not suffice is proved to panic.
  \<^item> \<open>Vm_Tables\<close>, \<open>Vm_Map\<close>, \<open>Vm_Kernel\<close>, \<open>Mem_Props\<close>: page tables read as a map from virtual addresses to
    entries (\<open>pte_val\<close>), with the invariant \<open>pt_inv\<close> that tables are distinct pages outside the free list.
    \<open>mappages\<close> implements \<open>map_range\<close>, and \<open>setupkvm\<close> gives the kernel map of the comment in vm.c.
    The locale \<open>page_pool\<close> (\<open>Kalloc\<close>) is the contract of the allocator.
  \<^item> \<open>Cow\<close>, \<open>Fork_Share\<close>, \<open>Fork_Wmap\<close>, \<open>Demand\<close>: after \<open>copyuvm\<close> and \<open>copywmap\<close> parent and child share each page
    with the right permissions and reference counts; a write fault gives the writer a private
    copy and leaves every other frame alone; the first access to a page of a mapping finds zeros
    or the bytes of the file.
  \<^item> \<open>Fs_Trans\<close>, \<open>Fs_Alloc\<close>, \<open>Fs_File\<close>, \<open>Fs_Op\<close>: the view of the disk through buffer cache and log inside a
    transaction; \<open>balloc\<close> and \<open>bfree\<close> on the bitmap; the bytes of a file under \<open>readi\<close> and \<open>writei\<close>, over
    direct and indirect blocks. \<open>Fs_Dir\<close>: a directory is a map from names to inode numbers, which
    \<open>dirlookup\<close> computes and \<open>dirlink\<close> extends.
  \<^item> \<open>Stable\<close>: the locales \<open>kstable\<close>, \<open>kstable_exit\<close> and \<open>kstable_all\<close> list the elementary changes of the kernel
    state and prove that a predicate closed under them is kept by every system call and trap.
    Their interpretations give that pids are unique (\<open>Pids\<close>, with the step relation \<open>kstep\<close>) and
    that \<open>exit\<close> is not lost on a waiting parent (\<open>Life\<close>).
  \<^item> \<open>Locks\<close>: the step relation \<open>lk_step\<close> interleaves the processors at each access to a lock word;
    at most one processor is in a critical section, and interrupts stay off there.
  \<^item> \<open>Ring\<close>: the locale \<open>fifo\<close>, interpreted on the ring buffers of \<open>Pipe\<close> and \<open>Console\<close>; hence pipes deliver
    the bytes written, in order, for every interleaving, and the line editor of the console
    implements editing a line as a list.
  \<^item> \<open>Str\<close>: \<open>memmove\<close>, \<open>memset\<close> and \<open>safestrcpy\<close> against their specifications, overlap and wrap-around
    included.
  \<^item> \<open>Grep\<close>: \<open>match\<close> decides the language of the pattern; \<open>grep\<close> prints the matching lines.
  \<^item> \<open>Sh_Grammar\<close>: \<open>parsecmd\<close> returns on every line, accepts exactly the grammar given as an inductive
    definition, and leaves the words of the line as C strings.
  \<^item> \<open>Faults\<close>: two behaviours that differ from what the code means to do.

  \<^bold>\<open>Bounds.\<close> Loops are recursive functions with a termination proof. Where the recursion of the C code
  need not end (a pointer that wraps around to the start of memory), the model tests the progress
  and has the outcome \<open>Diverge\<close>; the theorems that state a result exclude it. An unresolvable fault
  in kernel mode repeats for ever and is \<open>Diverge\<close> too. The mutually recursive parser takes a bound
  on the depth of its calls; \<open>parsecmd\<close> starts with \<open>4 * length s + 4\<close>, four calls per token, which
  \<open>parsecmd_returns\<close> shows to be enough.

  \<^bold>\<open>Not modelled.\<close> Assembly (boot code, \<open>swtch\<close>, trap entry) and the saved contexts and kernel stacks;
  segment and interrupt descriptors, control registers and the TLB; the interrupt controllers,
  firmware tables, serial line and keyboard (lapic.c, ioapic.c, picirq.c, mp.c, uart.c, kbd.c); the request
  queue and ports of the disk driver and memide.c (\<open>iderw\<close> is the synchronous transfer that its
  callers see); \<open>runcmd\<close> and \<open>main\<close> of the shell and the other user programs, which are sequences of system
  calls; mkfs.c, which runs on the build host; the test programs. Kernel functions run without interleaving from their call to their
  return or to the point where they give up the processor, except in \<open>Locks\<close> and \<open>Pipe\<close>, whose step
  relations interleave them.
\<close>

end
